(* ===== verification/Uc_Prelude.thy ===== *)
theory Uc_Prelude
  imports Main "HOL-Library.Word"
begin

text \<open>
  Shared vocabulary of the development: the fixed-width integers of the C sources, the outcome
  of a fallible step (a value, a \<open>__builtin_trap\<close> or an access to memory that is not mapped),
  checked arithmetic (\<open><stdckdint.h>\<close>), power-of-two alignment, address ranges, intrusive
  linked lists, and little-endian loads from byte memory.
\<close>

unbundle bit_operations_syntax

section \<open>Integer types\<close>

text \<open>
  Unsigned types are words read with \<^term>\<open>unat\<close>; the signed types \<open>int\<close> and \<open>long\<close> are the
  same words read with \<^term>\<open>sint\<close> (both targets are two's complement LP64).
\<close>

type_synonym u8 = "8 word"
type_synonym u16 = "16 word"
type_synonym u32 = "32 word"
type_synonym u64 = "64 word"
type_synonym i32 = "32 word"
type_synonym i64 = "64 word"

named_theorems outcome_simps "rewriting with the outcome monad"
named_theorems region_simps "membership in address ranges"

section \<open>Outcomes\<close>

text \<open>
  \<open>Trap\<close> is \<open>__builtin_trap()\<close>: the program stops on purpose. \<open>Fault\<close> is a load or store
  through a pointer that addresses no live object.
\<close>

datatype 'a outcome = Done 'a | Trap | Fault

fun obind :: "'a outcome \<Rightarrow> ('a \<Rightarrow> 'b outcome) \<Rightarrow> 'b outcome" where
  "obind (Done x) f = f x"
| "obind Trap f = Trap"
| "obind Fault f = Fault"

definition deref :: "'a option \<Rightarrow> 'a outcome" where
  "deref p = (case p of None \<Rightarrow> Fault | Some x \<Rightarrow> Done x)"

definition trap_unless :: "bool \<Rightarrow> unit outcome" where
  "trap_unless b = (if b then Done () else Trap)"

lemma deref_simps [simp, outcome_simps]:
  "deref None = Fault" "deref (Some x) = Done x"
  by (simp_all add: deref_def)

lemma trap_unless_simps [simp, outcome_simps]:
  "trap_unless True = Done ()" "trap_unless False = Trap"
  by (simp_all add: trap_unless_def)

lemma obind_Done_iff [outcome_simps]:
  "obind m f = Done y \<longleftrightarrow> (\<exists>x. m = Done x \<and> f x = Done y)"
  by (cases m) auto

lemma obind_Fault_iff [outcome_simps]:
  "obind m f = Fault \<longleftrightarrow> m = Fault \<or> (\<exists>x. m = Done x \<and> f x = Fault)"
  by (cases m) auto

lemma obind_assoc [simp]: "obind (obind m f) g = obind m (\<lambda>x. obind (f x) g)"
  by (cases m) auto

lemma deref_Done_iff [outcome_simps]: "deref p = Done x \<longleftrightarrow> p = Some x"
  by (cases p) auto

lemma deref_Fault_iff [outcome_simps]: "deref p = Fault \<longleftrightarrow> p = None"
  by (cases p) auto

lemma trap_unless_Done_iff [outcome_simps]: "trap_unless b = Done u \<longleftrightarrow> b"
  by (cases b) auto

lemma trap_unless_no_Fault [simp]: "trap_unless b \<noteq> Fault"
  by (cases b) auto

text \<open>
  Code with a loop that may not end: \<open>None\<close> is a run that never returns, \<open>Some\<close> the outcome of
  one that does.
\<close>

type_synonym 'a run = "'a outcome option"

abbreviation ret :: "'a \<Rightarrow> 'a run" where
  "ret x \<equiv> Some (Done x)"

definition rbind :: "'a run \<Rightarrow> ('a \<Rightarrow> 'b run) \<Rightarrow> 'b run" where
  "rbind m f = Option.bind m (\<lambda>r. case r of Done x \<Rightarrow> f x | Trap \<Rightarrow> Some Trap | Fault \<Rightarrow> Some Fault)"

lemma rbind_simps [simp]:
  "rbind (Some (Done x)) f = f x" "rbind (Some Trap) f = Some Trap" "rbind (Some Fault) f = Some Fault"
  "rbind None f = None"
  by (simp_all add: rbind_def)

lemma rbind_mono [partial_function_mono]:
  assumes "mono_option B" "\<And>y. mono_option (\<lambda>g. C y g)"
  shows "mono_option (\<lambda>g. rbind (B g) (\<lambda>y. C y g))"
  unfolding rbind_def
proof (rule bind_mono [OF assms(1)])
  fix y show "mono_option (\<lambda>g. case y of Done x \<Rightarrow> C x g | Trap \<Rightarrow> Some Trap | Fault \<Rightarrow> Some Fault)"
    using assms(2) by (cases y) (auto simp: monotone_def flat_ord_def fun_ord_def)
qed

lemma rbind_assoc [simp]: "rbind (rbind m f) g = rbind m (\<lambda>x. rbind (f x) g)"
  by (cases m) (auto simp: rbind_def split: outcome.splits)

lemma rbind_Done_iff [outcome_simps]:
  "rbind m f = Some (Done y) \<longleftrightarrow> (\<exists>x. m = Some (Done x) \<and> f x = Some (Done y))"
  by (cases m) (auto simp: rbind_def split: outcome.splits)

section \<open>Checked arithmetic\<close>

text \<open>
  \<open>ckd_add\<close> and \<open>ckd_mul\<close> at \<open>size_t\<close>: \<open>None\<close> where the C macros return true. The sources
  never read the wrapped result after an overflow.
\<close>

definition ckd_add :: "u64 \<Rightarrow> u64 \<Rightarrow> u64 option" where
  "ckd_add a b = (if unat a + unat b < 2 ^ 64 then Some (a + b) else None)"

definition ckd_mul :: "u64 \<Rightarrow> u64 \<Rightarrow> u64 option" where
  "ckd_mul a b = (if unat a * unat b < 2 ^ 64 then Some (a * b) else None)"

lemma ckd_add_SomeD:
  "ckd_add a b = Some c \<Longrightarrow> c = a + b \<and> unat c = unat a + unat b \<and> unat a + unat b < 2 ^ 64"
  by (auto simp: ckd_add_def unat_word_ariths split: if_splits)

lemma ckd_add_unat: "ckd_add a b = Some c \<Longrightarrow> unat c = unat a + unat b"
  by (simp add: ckd_add_SomeD)

lemma ckd_add_None_iff: "ckd_add a b = None \<longleftrightarrow> 2 ^ 64 \<le> unat a + unat b"
  by (auto simp: ckd_add_def)

lemma ckd_mul_SomeD:
  "ckd_mul a b = Some c \<Longrightarrow> c = a * b \<and> unat c = unat a * unat b"
  by (auto simp: ckd_mul_def unat_word_ariths split: if_splits)

section \<open>Word counters\<close>

lemma unat_Suc_less:
  fixes i n :: "'a::len word"
  assumes "i < n"
  shows "unat (i + 1) = Suc (unat i)"
proof -
  have "unat i < unat n" using assms by (simp add: word_less_nat_alt)
  moreover have "unat n < 2 ^ LENGTH('a)" by (rule unsigned_less)
  ultimately have "Suc (unat i) < 2 ^ LENGTH('a)" by linarith
  then show ?thesis by (simp add: unat_word_ariths unat_of_nat)
qed

lemma unat_pred_pos:
  fixes i :: "'a::len word"
  assumes "i \<noteq> 0"
  shows "unat (i - 1) = unat i - 1"
  using assms by (simp add: unat_minus_one)

section \<open>Power-of-two alignment\<close>

text \<open>\<open>__builtin_popcountg\<close> at 64 bits, and the masking idiom \<open>x & ~(a - 1)\<close> of the sources.\<close>

definition popcount :: "u64 \<Rightarrow> nat" where
  "popcount w = length (filter (bit w) [0..<64])"

definition align_down :: "u64 \<Rightarrow> u64 \<Rightarrow> u64" where
  "align_down x a = x AND NOT (a - 1)"

definition is_pow2 :: "u64 \<Rightarrow> bool" where
  "is_pow2 a \<longleftrightarrow> (\<exists>k<64. a = 2 ^ k)"

lemma filter_singleton_obtains:
  assumes "length (filter P [0..<n]) = 1"
  obtains k where "k < n" "P k" "\<And>j. j < n \<Longrightarrow> P j \<Longrightarrow> j = k"
proof -
  from assms obtain k where k: "filter P [0..<n] = [k]"
    by (metis One_nat_def Suc_length_conv length_0_conv)
  have *: "{j. j < n \<and> P j} = {k}"
    using arg_cong [OF k, of set] by auto
  show thesis by (rule that [of k]) (use * in auto)
qed

lemma popcount_1_pow2:
  assumes "popcount a = 1"
  shows "is_pow2 a"
proof -
  obtain k where k: "k < 64" "bit a k" "\<And>j. j < 64 \<Longrightarrow> bit a j \<Longrightarrow> j = k"
    using filter_singleton_obtains [OF assms [unfolded popcount_def]] by metis
  have "bit a n \<longleftrightarrow> bit (2 ^ k :: u64) n" if "n < 64" for n
    using k(1,2) k(3) [OF that] by (auto simp: bit_exp_iff)
  then have "a = 2 ^ k" by (intro bit_word_eqI) simp
  with k(1) show ?thesis by (auto simp: is_pow2_def)
qed

lemma unat_pow2: "k < 64 \<Longrightarrow> unat (2 ^ k :: u64) = 2 ^ k"
  by transfer (auto simp: nat_power_eq)

lemma unat_lt_2p64 [simp]: "unat (x :: u64) < 18446744073709551616"
  using unsigned_less [of x, where 'a = nat] by simp

lemma unat_lt_2p32 [simp]: "unat (x :: u32) < 4294967296"
  using unsigned_less [of x, where 'a = nat] by simp

lemma unat_ucast_u32:
  fixes w :: u64 and n :: u32
  assumes "unat w \<le> unat n"
  shows "unat (ucast w :: u32) = unat w"
  using order.strict_trans1 [OF assms unat_lt_2p32] by (simp add: unsigned_ucast_eq take_bit_nat_eq_self)

lemma is_pow2_unat: "is_pow2 a \<Longrightarrow> \<exists>k<64. unat a = 2 ^ k"
  by (auto simp: is_pow2_def unat_pow2)

lemma is_pow2_pos: "is_pow2 a \<Longrightarrow> 0 < unat a"
  by (auto dest: is_pow2_unat)

lemma unat_pow2_minus_1:
  assumes "is_pow2 a" shows "unat (a - 1) = unat a - 1"
  using is_pow2_pos [OF assms] by (intro unat_pred_pos) auto

lemma align_down_pow2: "k < 64 \<Longrightarrow> align_down x (2 ^ k) = push_bit k (drop_bit k x)"
  unfolding align_down_def
  by (rule bit_word_eqI)
    (auto simp: bit_and_iff bit_not_iff bit_push_bit_iff bit_drop_bit_eq
      mask_eq_exp_minus_1 [symmetric] bit_mask_iff)

lemma unat_align_down:
  assumes "is_pow2 a"
  shows "unat (align_down x a) = unat x div unat a * unat a"
proof -
  obtain k where k: "k < 64" "a = 2 ^ k" using assms by (auto simp: is_pow2_def)
  have "unat x div 2 ^ k * 2 ^ k \<le> unat x" by simp
  then have lt: "unat x div 2 ^ k * 2 ^ k < 2 ^ 64"
    by (rule le_less_trans) simp
  have "unat x div 2 ^ k < 2 ^ 64"
    by (rule le_less_trans [OF div_le_dividend]) simp
  with k lt show ?thesis
    by (simp add: align_down_pow2 unat_pow2 push_bit_eq_mult unat_word_ariths
      unat_drop_bit_eq drop_bit_eq_div)
qed

lemma align_down_le: "is_pow2 a \<Longrightarrow> unat (align_down x a) \<le> unat x"
  by (simp add: unat_align_down)

lemma align_down_dvd: "is_pow2 a \<Longrightarrow> unat a dvd unat (align_down x a)"
  by (simp add: unat_align_down)

lemma align_down_gt:
  assumes "is_pow2 a"
  shows "unat x < unat (align_down x a) + unat a"
proof -
  have "unat x mod unat a < unat a" using is_pow2_pos [OF assms] by simp
  moreover have "unat x div unat a * unat a + unat x mod unat a = unat x" by (rule div_mult_mod_eq)
  ultimately show ?thesis unfolding unat_align_down [OF assms] by linarith
qed

text \<open>Rounding up: the checked sum with \<open>a - 1\<close>, then the mask.\<close>

lemma align_up_bounds:
  assumes a: "is_pow2 a" and r: "ckd_add x (a - 1) = Some r"
  shows "unat x \<le> unat (align_down r a)"
    and "unat (align_down r a) < unat x + unat a"
    and "unat a dvd unat (align_down r a)"
proof -
  have u: "unat r = unat x + (unat a - 1)"
    using ckd_add_SomeD [OF r] unat_pow2_minus_1 [OF a] by metis
  show "unat x \<le> unat (align_down r a)"
    using align_down_gt [OF a, of r] u is_pow2_pos [OF a] by linarith
  show "unat (align_down r a) < unat x + unat a"
    using align_down_le [OF a, of r] u is_pow2_pos [OF a] by linarith
  show "unat a dvd unat (align_down r a)"
    by (rule align_down_dvd [OF a])
qed

section \<open>Address ranges\<close>

text \<open>
  The \<open>l\<close> bytes starting at \<open>s\<close>. The offset is taken modulo the word size, so the definition
  needs no side condition; for a range that does not wrap it is the expected interval.
\<close>

definition region :: "u64 \<Rightarrow> u64 \<Rightarrow> u64 set" where
  "region s l = {a. a - s < l}"

lemma in_region_iff [region_simps]: "a \<in> region s l \<longleftrightarrow> a - s < l"
  by (simp add: region_def)

lemma in_region_nat:
  assumes "unat s + unat l \<le> 2 ^ 64"
  shows "a \<in> region s l \<longleftrightarrow> unat s \<le> unat a \<and> unat a < unat s + unat l"
proof -
  have "unat a < 2 ^ 64" by simp
  then show ?thesis using assms
    by (auto simp: region_def word_less_nat_alt unat_sub_if')
qed

lemma in_region_nonnull:
  "unat s + unat l \<le> 2 ^ 64 \<Longrightarrow> s \<noteq> 0 \<Longrightarrow> a \<in> region s l \<Longrightarrow> a \<noteq> 0"
  by (auto simp: in_region_nat unat_eq_0)

lemma region_empty [simp]: "region s 0 = {}"
  by (simp add: region_def)

lemma region_offset:
  fixes l :: u64
  assumes "a \<in> region (b + off) n" "unat off + unat n \<le> unat l"
  shows "unat (a - b) = unat off + unat (a - (b + off))" and "unat (a - (b + off)) < unat n"
proof -
  show lt: "unat (a - (b + off)) < unat n"
    using assms(1) by (simp add: region_simps word_less_nat_alt)
  have "unat l < 2 ^ 64" by simp
  with lt assms(2) have "unat (a - (b + off)) + unat off < 2 ^ 64" by linarith
  then have "unat ((a - (b + off)) + off) = unat off + unat (a - (b + off))"
    by (simp only: unat_word_ariths) simp
  moreover have "(a - (b + off)) + off = a - b" by simp
  ultimately show "unat (a - b) = unat off + unat (a - (b + off))" by (simp only:)
qed

lemma region_offset_subset:
  assumes "unat off + unat n \<le> unat l"
  shows "region (b + off) n \<subseteq> region b l"
proof
  fix a assume "a \<in> region (b + off) n"
  from region_offset [OF this assms] assms show "a \<in> region b l"
    by (simp add: region_simps word_less_nat_alt)
qed

lemma region_offset_disjoint:
  fixes l :: u64
  assumes "unat o1 + unat n1 \<le> unat o2" "unat o2 + unat n2 \<le> unat l"
  shows "region (b + o1) n1 \<inter> region (b + o2) n2 = {}"
proof (rule equals0I)
  fix a assume "a \<in> region (b + o1) n1 \<inter> region (b + o2) n2"
  then have "a \<in> region (b + o1) n1" "a \<in> region (b + o2) n2" by auto
  from region_offset [OF this(1) assms(1)] region_offset [OF this(2) assms(2)] assms
  show False by linarith
qed

lemma pow2_dvd_add:
  fixes x y :: u64
  assumes "is_pow2 a" "unat a dvd unat x" "unat a dvd unat y"
  shows "unat a dvd unat (x + y)"
proof -
  obtain k where "k < 64" "unat a = 2 ^ k" using is_pow2_unat [OF assms(1)] by blast
  then have "unat a dvd 2 ^ 64" by (simp only: le_imp_power_dvd less_imp_le)
  with assms(2,3) show ?thesis by (simp add: unat_word_ariths dvd_mod)
qed

lemma pow2_dvd_pow2: "is_pow2 a \<Longrightarrow> is_pow2 b \<Longrightarrow> unat a \<le> unat b \<Longrightarrow> unat a dvd unat b"
  using is_pow2_unat [of a] is_pow2_unat [of b]
  by (auto simp: le_imp_power_dvd power_increasing_iff)

section \<open>Intrusive linked lists\<close>

text \<open>
  \<open>chain next p xs q\<close>: following \<open>next\<close> from \<open>p\<close> visits exactly the nodes \<open>xs\<close>, all mapped and
  non-null, and arrives at \<open>q\<close>.
\<close>

fun chain :: "(u64 \<rightharpoonup> u64) \<Rightarrow> u64 \<Rightarrow> u64 list \<Rightarrow> u64 \<Rightarrow> bool" where
  "chain nxt p [] q \<longleftrightarrow> p = q"
| "chain nxt p (x # xs) q \<longleftrightarrow> p = x \<and> x \<noteq> 0 \<and> (\<exists>y. nxt x = Some y \<and> chain nxt y xs q)"

lemma chain_append: "chain nxt p (xs @ ys) q \<longleftrightarrow> (\<exists>r. chain nxt p xs r \<and> chain nxt r ys q)"
  by (induction xs arbitrary: p) auto

lemma chain_cong:
  "(\<And>x. x \<in> set xs \<Longrightarrow> nxt x = nxt' x) \<Longrightarrow> chain nxt p xs q = chain nxt' p xs q"
  by (induction xs arbitrary: p) auto

lemma chain_upd_other [simp]: "a \<notin> set xs \<Longrightarrow> chain (nxt(a := v)) p xs q = chain nxt p xs q"
  by (rule chain_cong) auto

lemma chain_non_null: "chain nxt p xs q \<Longrightarrow> 0 \<notin> set xs"
  by (induction xs arbitrary: p) auto

lemma chain_dom: "chain nxt p xs q \<Longrightarrow> set xs \<subseteq> dom nxt"
  by (induction xs arbitrary: p) auto

lemma chain_head: "chain nxt p xs 0 \<Longrightarrow> p = (case xs of [] \<Rightarrow> 0 | x # _ \<Rightarrow> x)"
  by (cases xs) auto

text \<open>Appending a node: the last node's link is redirected to it and its own link is null.\<close>

lemma chain_snoc:
  assumes ch: "chain nxt p (xs @ [t]) 0" and t: "t \<notin> set xs" and a: "a \<notin> set (xs @ [t])" "a \<noteq> 0"
  shows "chain (nxt(a \<mapsto> 0, t \<mapsto> a)) p ((xs @ [t]) @ [a]) 0"
  using assms by (auto simp: chain_append)

section \<open>Byte memory\<close>

text \<open>
  Little-endian loads (the sources assert the byte order). \<open>bytes m a n\<close> are the \<open>n\<close> bytes at
  \<open>a\<close>, lowest address first; addresses wrap as pointers do.
\<close>

type_synonym mem = "u64 \<Rightarrow> u8"

definition bytes :: "mem \<Rightarrow> u64 \<Rightarrow> nat \<Rightarrow> u8 list" where
  "bytes m a n = map (\<lambda>i. m (a + of_nat i)) [0..<n]"

definition load32 :: "mem \<Rightarrow> u64 \<Rightarrow> u32" where
  "load32 m a = word_rcat (rev (bytes m a 4))"

definition load64 :: "mem \<Rightarrow> u64 \<Rightarrow> u64" where
  "load64 m a = word_rcat (rev (bytes m a 8))"

lemma length_bytes [simp]: "length (bytes m a n) = n"
  by (simp add: bytes_def)

lemma nth_bytes [simp]: "i < n \<Longrightarrow> bytes m a n ! i = m (a + of_nat i)"
  by (simp add: bytes_def)

lemma bytes_cong: "(\<And>i. i < n \<Longrightarrow> m (a + of_nat i) = m' (a' + of_nat i)) \<Longrightarrow> bytes m a n = bytes m' a' n"
  by (simp add: bytes_def)

end
