(* ===== verification/Uc_String.thy ===== *)
theory Uc_String
  imports Uc_Prelude
begin

text \<open>
  The four memory functions of \<open>src/string\<close>: \<open>memcpy\<close>, \<open>memmove\<close>, \<open>memset\<close> and \<open>memcmp\<close> over
  byte memory, loop for loop. The copies are shown equal to one simultaneous assignment (for
  \<open>memmove\<close> also when the buffers overlap), and the blockwise \<open>memcmp\<close> equal to the bytewise
  lexicographic comparison.
\<close>

section \<open>The functions\<close>

text \<open>\<open>for (size_t i = 0; i < n; i++) d[i] = s[i];\<close>, shared by \<open>memcpy\<close> and \<open>memmove\<close>.\<close>

function copy_up :: "mem \<Rightarrow> u64 \<Rightarrow> u64 \<Rightarrow> u64 \<Rightarrow> u64 \<Rightarrow> mem" where
  "copy_up m d s n i =
     (if i < n then copy_up (m(d + i := m (s + i))) d s n (i + 1) else m)"
  by pat_completeness auto
termination
  by (relation "measure (\<lambda>(m, d, s, n, i). unat n - unat i)")
    (auto simp: unat_Suc_less word_less_nat_alt)

text \<open>\<open>for (size_t i = n; i > 0; i--) d[i - 1] = s[i - 1];\<close>\<close>

function copy_down :: "mem \<Rightarrow> u64 \<Rightarrow> u64 \<Rightarrow> u64 \<Rightarrow> mem" where
  "copy_down m d s i =
     (if 0 < i then copy_down (m(d + (i - 1) := m (s + (i - 1)))) d s (i - 1) else m)"
  by pat_completeness auto
termination
  by (relation "measure (\<lambda>(m, d, s, i). unat i)")
    (auto simp: unat_pred_pos unat_gt_0)

function set_up :: "mem \<Rightarrow> u64 \<Rightarrow> u8 \<Rightarrow> u64 \<Rightarrow> u64 \<Rightarrow> mem" where
  "set_up m d v n i = (if i < n then set_up (m(d + i := v)) d v n (i + 1) else m)"
  by pat_completeness auto
termination
  by (relation "measure (\<lambda>(m, d, v, n, i). unat n - unat i)")
    (auto simp: unat_Suc_less word_less_nat_alt)

declare copy_up.simps [simp del] copy_down.simps [simp del] set_up.simps [simp del]

definition memcpy :: "mem \<Rightarrow> u64 \<Rightarrow> u64 \<Rightarrow> u64 \<Rightarrow> u64 \<times> mem" where
  "memcpy m dst src n = (dst, copy_up m dst src n 0)"

definition memmove :: "mem \<Rightarrow> u64 \<Rightarrow> u64 \<Rightarrow> u64 \<Rightarrow> u64 \<times> mem" where
  "memmove m dst src n =
     (if dst < src then (dst, copy_up m dst src n 0) else (dst, copy_down m dst src n))"

definition memset :: "mem \<Rightarrow> u64 \<Rightarrow> i32 \<Rightarrow> u64 \<Rightarrow> u64 \<times> mem" where
  "memset m dst value n = (dst, set_up m dst (ucast value) n 0)"

text \<open>
  \<open>memcmp\<close>: 64-byte blocks while equal (a vector of eight scalars, compared by or-reducing the
  exclusive or), then 8-byte scalars compared after a byte swap, then bytes.
\<close>

definition bytes_of :: "u64 \<Rightarrow> u8 list" where
  "bytes_of w = map (\<lambda>i. ucast (drop_bit (8 * i) w)) [0..<8]"

definition bswap64 :: "u64 \<Rightarrow> u64" where
  "bswap64 w = word_rcat (bytes_of w)"

definition load_block :: "mem \<Rightarrow> u64 \<Rightarrow> u64 list" where
  "load_block m p = map (\<lambda>k. load64 m (p + 8 * of_nat k)) [0..<8]"

definition reduce_or :: "u64 list \<Rightarrow> u64" where
  "reduce_or xs = foldr (OR) xs 0"

function memcmp_blocks :: "mem \<Rightarrow> u64 \<Rightarrow> u64 \<Rightarrow> u64 \<Rightarrow> u64 \<times> u64 \<times> u64" where
  "memcmp_blocks m l r n =
     (if 64 \<le> n
      then if reduce_or (map2 (XOR) (load_block m l) (load_block m r)) \<noteq> 0 then (l, r, n)
           else memcmp_blocks m (l + 64) (r + 64) (n - 64)
      else (l, r, n))"
  by pat_completeness auto
termination
  by (relation "measure (\<lambda>(m, l, r, n). unat n)") (auto simp: word_le_nat_alt unat_sub)

function memcmp_scalars :: "mem \<Rightarrow> u64 \<Rightarrow> u64 \<Rightarrow> u64 \<Rightarrow> i32 + u64 \<times> u64 \<times> u64" where
  "memcmp_scalars m l r n =
     (if 8 \<le> n
      then let a = load64 m l; b = load64 m r in
           if a \<noteq> b then Inl (if bswap64 a < bswap64 b then -1 else 1)
           else memcmp_scalars m (l + 8) (r + 8) (n - 8)
      else Inr (l, r, n))"
  by pat_completeness auto
termination
  by (relation "measure (\<lambda>(m, l, r, n). unat n)") (auto simp: word_le_nat_alt unat_sub)

function memcmp_bytes :: "mem \<Rightarrow> u64 \<Rightarrow> u64 \<Rightarrow> u64 \<Rightarrow> u64 \<Rightarrow> i32" where
  "memcmp_bytes m l r n i =
     (if i < n
      then if m (l + i) \<noteq> m (r + i) then (if m (l + i) < m (r + i) then -1 else 1)
           else memcmp_bytes m l r n (i + 1)
      else 0)"
  by pat_completeness auto
termination
  by (relation "measure (\<lambda>(m, l, r, n, i). unat n - unat i)")
    (auto simp: unat_Suc_less word_less_nat_alt)

declare memcmp_blocks.simps [simp del] memcmp_scalars.simps [simp del] memcmp_bytes.simps [simp del]

definition memcmp :: "mem \<Rightarrow> u64 \<Rightarrow> u64 \<Rightarrow> u64 \<Rightarrow> i32" where
  "memcmp m lhs rhs n =
     (case memcmp_blocks m lhs rhs n of (l, r, n') \<Rightarrow>
       (case memcmp_scalars m l r n' of
          Inl v \<Rightarrow> v
        | Inr (l', r', n'') \<Rightarrow> memcmp_bytes m l' r' n'' 0))"

section \<open>Copying\<close>

text \<open>The meaning of a copy: all bytes of the destination at once, from the old contents.\<close>

definition copied :: "mem \<Rightarrow> u64 \<Rightarrow> u64 \<Rightarrow> u64 \<Rightarrow> mem" where
  "copied m d s n = (\<lambda>a. if a \<in> region d n then m (s + (a - d)) else m a)"

text \<open>
  A loop that copies upwards is right when no byte is overwritten before it is read: the store
  to \<open>d + j\<close> must not hit the source byte of a later index \<open>k\<close>.
\<close>

definition upward_safe :: "u64 \<Rightarrow> u64 \<Rightarrow> u64 \<Rightarrow> bool" where
  "upward_safe d s n \<longleftrightarrow> (\<forall>j k. j < k \<longrightarrow> k < n \<longrightarrow> d + j \<noteq> s + k)"

definition downward_safe :: "u64 \<Rightarrow> u64 \<Rightarrow> u64 \<Rightarrow> bool" where
  "downward_safe d s n \<longleftrightarrow> (\<forall>j k. k < j \<longrightarrow> j < n \<longrightarrow> d + j \<noteq> s + k)"

lemma upward_safeD: "upward_safe d s n \<Longrightarrow> j < k \<Longrightarrow> k < n \<Longrightarrow> s + k \<noteq> d + j"
  by (metis upward_safe_def)

lemma downward_safeD: "downward_safe d s n \<Longrightarrow> k < j \<Longrightarrow> j < n \<Longrightarrow> s + k \<noteq> d + j"
  by (metis downward_safe_def)

lemma word_less_Suc_iff:
  fixes i n :: u64
  assumes "i < n"
  shows "i + 1 \<le> j \<longleftrightarrow> i < j"
  using assms by (simp add: word_le_nat_alt word_less_nat_alt unat_Suc_less Suc_le_eq)

lemma offset_eq_iff: "a = d + i \<longleftrightarrow> a - d = (i :: u64)"
  by (auto simp: algebra_simps)

lemma copy_up_eq:
  assumes "upward_safe d s n"
  shows "copy_up m d s n i = (\<lambda>a. if i \<le> a - d \<and> a - d < n then m (s + (a - d)) else m a)"
  using assms
proof (induction m d s n i rule: copy_up.induct)
  case (1 m d s n i)
  show ?case
  proof (cases "i < n")
    case False
    then have "\<not> (i \<le> a - d \<and> a - d < n)" for a by (meson le_less_trans)
    with False show ?thesis by (intro ext) (auto simp: copy_up.simps [of m d s n i])
  next
    case True
    let ?m = "m(d + i := m (s + i))"
    have step: "copy_up m d s n i a =
        (if i < a - d \<and> a - d < n then ?m (s + (a - d)) else ?m a)" for a
      using True
      by (simp add: copy_up.simps [of m d s n i] "1.IH" [OF True "1.prems"] word_less_Suc_iff [OF True])
    have "copy_up m d s n i a = (if i \<le> a - d \<and> a - d < n then m (s + (a - d)) else m a)" for a
    proof (cases "a - d = i")
      case eq: True
      then have "a = d + i" by (simp add: offset_eq_iff)
      with eq True show ?thesis by (simp add: step)
    next
      case False
      then have a: "a \<noteq> d + i" "i \<le> a - d \<longleftrightarrow> i < a - d" by (auto simp: offset_eq_iff)
      have "s + (a - d) \<noteq> d + i" if "i < a - d" "a - d < n"
        by (rule upward_safeD [OF "1.prems" that])
      with a show ?thesis by (simp add: step)
    qed
    then show ?thesis by (rule ext)
  qed
qed

lemma copy_down_eq:
  assumes "downward_safe d s n" "i \<le> n"
  shows "copy_down m d s i = (\<lambda>a. if a - d < i then m (s + (a - d)) else m a)"
  using assms
proof (induction m d s i rule: copy_down.induct)
  case (1 m d s i)
  show ?case
  proof (cases "0 < i")
    case False
    then have "i = 0" by (simp add: word_neq_0_conv [symmetric])
    then show ?thesis by (simp add: copy_down.simps [of m d s 0])
  next
    case True
    then have pred: "unat (i - 1) = unat i - 1" "0 < unat i"
      by (simp_all add: unat_pred_pos unat_gt_0)
    let ?m = "m(d + (i - 1) := m (s + (i - 1)))"
    have le: "i - 1 \<le> n"
      using pred "1.prems"(2) by (simp add: word_le_nat_alt)
    have step: "copy_down m d s i a = (if a - d < i - 1 then ?m (s + (a - d)) else ?m a)" for a
      using True by (simp add: copy_down.simps [of m d s i] "1.IH" [OF True "1.prems"(1) le])
    have lt: "x < i \<longleftrightarrow> x = i - 1 \<or> x < i - 1" for x
      using pred by (auto simp: word_less_nat_alt word_unat_eq_iff)
    have "copy_down m d s i a = (if a - d < i then m (s + (a - d)) else m a)" for a
    proof (cases "a - d = i - 1")
      case eq: True
      then have "a = d + (i - 1)" by (simp only: offset_eq_iff)
      with eq True show ?thesis by (simp add: step lt)
    next
      case False
      then have a: "a \<noteq> d + (i - 1)" by (simp only: offset_eq_iff) simp
      have "s + (a - d) \<noteq> d + (i - 1)" if "a - d < i - 1"
      proof -
        have "i - 1 < n" using pred "1.prems"(2) by (simp add: word_le_nat_alt word_less_nat_alt)
        then show ?thesis by (rule downward_safeD [OF "1.prems"(1) that])
      qed
      with a False show ?thesis by (simp add: step lt)
    qed
    then show ?thesis by (rule ext)
  qed
qed

lemma set_up_eq: "set_up m d v n i = (\<lambda>a. if i \<le> a - d \<and> a - d < n then v else m a)"
proof (induction m d v n i rule: set_up.induct)
  case (1 m d v n i)
  show ?case
  proof (cases "i < n")
    case False
    then have "\<not> (i \<le> a - d \<and> a - d < n)" for a by (meson le_less_trans)
    with False show ?thesis by (intro ext) (auto simp: set_up.simps [of m d v n i])
  next
    case True
    have "set_up m d v n i a = (if i \<le> a - d \<and> a - d < n then v else m a)" for a
      using True
      by (cases "a - d = i")
        (auto simp: set_up.simps [of m d v n i] "1.IH" [OF True] word_less_Suc_iff [OF True]
          offset_eq_iff)
    then show ?thesis by (rule ext)
  qed
qed

lemma word_zero_le_u64: "(0 :: u64) \<le> x"
  by simp

lemma copy_up_copied: "upward_safe d s n \<Longrightarrow> copy_up m d s n 0 = copied m d s n"
  by (simp add: copy_up_eq copied_def region_simps)

lemma copy_down_copied: "downward_safe d s n \<Longrightarrow> copy_down m d s n = copied m d s n"
  by (simp add: copy_down_eq [of d s n n] copied_def region_simps)

lemma unat_add_region:
  fixes d j n :: u64
  assumes "unat d + unat n \<le> 2 ^ 64" "j < n"
  shows "unat (d + j) = unat d + unat j"
  using assms by (simp add: word_less_nat_alt unat_word_ariths)

lemma disjoint_upward_safe: "region d n \<inter> region s n = {} \<Longrightarrow> upward_safe d s n"
proof (unfold upward_safe_def, intro allI impI notI)
  fix j k
  assume "region d n \<inter> region s n = {}" "j < k" "k < n" "d + j = s + k"
  moreover have "d + j \<in> region d n" using \<open>j < k\<close> \<open>k < n\<close> by (simp add: region_simps)
  moreover have "s + k \<in> region s n" using \<open>k < n\<close> by (simp add: region_simps)
  ultimately show False by auto
qed

lemma below_upward_safe:
  assumes d: "unat d + unat n \<le> 2 ^ 64" and s: "unat s + unat n \<le> 2 ^ 64" and "d < s"
  shows "upward_safe d s n"
proof (unfold upward_safe_def, intro allI impI notI)
  fix j k assume "j < k" "k < n" "d + j = s + k"
  then have "unat d + unat j = unat s + unat k"
    using unat_add_region [OF d, of j] unat_add_region [OF s, of k] by simp
  with \<open>d < s\<close> \<open>j < k\<close> show False by (simp add: word_less_nat_alt)
qed

lemma above_downward_safe:
  assumes d: "unat d + unat n \<le> 2 ^ 64" and s: "unat s + unat n \<le> 2 ^ 64" and "\<not> d < s"
  shows "downward_safe d s n"
proof (unfold downward_safe_def, intro allI impI notI)
  fix j k assume "k < j" "j < n" "d + j = s + k"
  then have "unat d + unat j = unat s + unat k"
    using unat_add_region [OF d, of j] unat_add_region [OF s, of k] by simp
  with \<open>\<not> d < s\<close> \<open>k < j\<close> show False by (simp add: word_less_nat_alt)
qed

section \<open>The contract of a copy\<close>

text \<open>
  What the callers rely on, stated once: under its precondition a copy routine returns the
  destination and performs one simultaneous assignment. Both \<open>memcpy\<close> and \<open>memmove\<close> meet it,
  with different preconditions.
\<close>

locale block_copy =
  fixes copy :: "mem \<Rightarrow> u64 \<Rightarrow> u64 \<Rightarrow> u64 \<Rightarrow> u64 \<times> mem"
    and pre :: "u64 \<Rightarrow> u64 \<Rightarrow> u64 \<Rightarrow> bool"
  assumes copy_copied: "pre d s n \<Longrightarrow> copy m d s n = (d, copied m d s n)"
begin

lemma copy_reads_back:
  assumes "pre d s n" "i < n"
  shows "snd (copy m d s n) (d + i) = m (s + i)"
  using assms by (simp add: copy_copied copied_def region_simps)

lemma copy_frame:
  assumes "pre d s n" "a \<notin> region d n"
  shows "snd (copy m d s n) a = m a"
  using assms by (simp add: copy_copied copied_def)

lemma copy_bytes:
  assumes "pre d s n"
  shows "bytes (snd (copy m d s n)) d (unat n) = bytes m s (unat n)"
proof (rule bytes_cong)
  fix i assume "i < unat n"
  then have "(of_nat i :: u64) < n"
    by (simp add: word_less_nat_alt unat_of_nat order.strict_trans [OF _ unat_lt_2p64])
  then show "snd (copy m d s n) (d + of_nat i) = m (s + of_nat i)"
    by (rule copy_reads_back [OF assms])
qed

end

definition memcpy_pre :: "u64 \<Rightarrow> u64 \<Rightarrow> u64 \<Rightarrow> bool" where
  "memcpy_pre d s n \<longleftrightarrow> region d n \<inter> region s n = {}"

definition memmove_pre :: "u64 \<Rightarrow> u64 \<Rightarrow> u64 \<Rightarrow> bool" where
  "memmove_pre d s n \<longleftrightarrow> unat d + unat n \<le> 2 ^ 64 \<and> unat s + unat n \<le> 2 ^ 64"

interpretation cpy: block_copy memcpy memcpy_pre
  by unfold_locales
    (simp add: memcpy_def memcpy_pre_def copy_up_copied disjoint_upward_safe)

interpretation mov: block_copy memmove memmove_pre
  by unfold_locales
    (simp add: memmove_def memmove_pre_def copy_up_copied copy_down_copied below_upward_safe
      above_downward_safe)

section \<open>Comparison\<close>

text \<open>The reference: the first differing byte decides, as unsigned.\<close>

fun lex_cmp :: "u8 list \<Rightarrow> u8 list \<Rightarrow> i32" where
  "lex_cmp (x # xs) (y # ys) = (if x = y then lex_cmp xs ys else if x < y then -1 else 1)"
| "lex_cmp xs ys = 0"

lemma lex_cmp_refl [simp]: "lex_cmp xs xs = 0"
  by (induction xs) auto

lemma lex_cmp_append:
  "length xs = length xs' \<Longrightarrow>
    lex_cmp (xs @ ys) (xs' @ ys') = (if xs = xs' then lex_cmp ys ys' else lex_cmp xs xs')"
  by (induction xs xs' rule: list_induct2) auto

text \<open>The big-endian value of a byte string orders strings of one length lexicographically.\<close>

definition be_val :: "u8 list \<Rightarrow> int" where
  "be_val xs = horner_sum uint 256 (rev xs)"

lemma horner_sum_snoc:
  "horner_sum f a (xs @ [x]) = horner_sum f a xs + a ^ length xs * (f x :: int)"
  by (induction xs) (auto simp: algebra_simps)

lemma be_val_Cons [simp]: "be_val (x # xs) = uint x * 256 ^ length xs + be_val xs"
  by (simp add: be_val_def horner_sum_snoc)

lemma be_val_Nil [simp]: "be_val [] = 0"
  by (simp add: be_val_def)

lemma be_val_bounds: "0 \<le> be_val xs \<and> be_val xs < 256 ^ length xs"
proof (induction xs)
  case (Cons x xs)
  have "uint x \<le> 255" using uint_lt2p [of x] by simp
  then have "uint x * 256 ^ length xs \<le> 255 * 256 ^ length xs"
    by (rule mult_right_mono) simp
  moreover have "0 \<le> uint x * 256 ^ length xs" by simp
  ultimately show ?case using Cons.IH unfolding be_val_Cons by (simp only: length_Cons power_Suc) linarith
qed simp

lemma be_val_lex:
  "length xs = length ys \<Longrightarrow> xs \<noteq> ys \<Longrightarrow> lex_cmp xs ys = (if be_val xs < be_val ys then -1 else 1)"
proof (induction xs ys rule: list_induct2)
  case (Cons x xs y ys)
  show ?case
  proof (cases "x = y")
    case True
    with Cons show ?thesis by simp
  next
    case False
    have "uint x \<noteq> uint y" using False by (simp add: word_uint_eq_iff)
    then consider "uint x + 1 \<le> uint y" | "uint y + 1 \<le> uint x" by linarith
    then show ?thesis
    proof cases
      case 1
      from mult_right_mono [OF this, of "256 ^ length xs"]
      have "be_val (x # xs) < be_val (y # ys)"
        using be_val_bounds [of xs] be_val_bounds [of ys] Cons.hyps by (simp add: algebra_simps)
      with 1 False show ?thesis by (simp add: word_less_def)
    next
      case 2
      from mult_right_mono [OF this, of "256 ^ length xs"]
      have "\<not> be_val (x # xs) < be_val (y # ys)"
        using be_val_bounds [of xs] be_val_bounds [of ys] Cons.hyps by (simp add: algebra_simps)
      with 2 False show ?thesis by (simp add: word_less_def)
    qed
  qed
qed simp

lemma uint_rcat8:
  assumes "length xs = 8"
  shows "uint (word_rcat xs :: u64) = be_val xs"
proof -
  have "(word_rcat xs :: u64) = word_of_int (be_val xs)"
    by (simp add: word_rcat_def be_val_def)
  moreover have "take_bit 64 (be_val xs) = be_val xs"
    using be_val_bounds [of xs] assms by (simp add: take_bit_eq_mod)
  ultimately show ?thesis by (simp only: uint_word_of_int_eq) simp
qed

lemma horner_digit:
  "i < length xs \<Longrightarrow> horner_sum uint (256 :: int) xs div 256 ^ i mod 256 = uint (xs ! i :: u8)"
proof (induction xs arbitrary: i)
  case (Cons x xs)
  have x: "0 \<le> uint x" "uint x < 256" using uint_lt2p [of x] by simp_all
  show ?case
  proof (cases i)
    case 0
    with x show ?thesis by simp
  next
    case (Suc j)
    have "(uint x + 256 * horner_sum uint 256 xs) div 256 ^ i
        = (uint x + 256 * horner_sum uint 256 xs) div 256 div 256 ^ j"
      by (simp add: Suc zdiv_zmult2_eq)
    also have "(uint x + 256 * horner_sum uint 256 xs) div 256 = horner_sum uint 256 xs"
      using x by simp
    finally show ?thesis using Cons Suc by simp
  qed
qed simp

lemma bytes_of_rcat:
  assumes "length xs = 8"
  shows "bytes_of (word_rcat (rev xs)) = xs"
proof (rule nth_equalityI)
  show "length (bytes_of (word_rcat (rev xs))) = length xs" by (simp add: bytes_of_def assms)
next
  fix i assume "i < length (bytes_of (word_rcat (rev xs)))"
  then have i: "i < 8" by (simp add: bytes_of_def)
  have "uint (drop_bit (8 * i) (word_rcat (rev xs) :: u64))
      = drop_bit (8 * i) (uint (word_rcat (rev xs) :: u64))"
    by (simp add: unsigned_drop_bit_eq take_bit_int_eq_self uint_lt2p [where 'a = 64, simplified])
  also have "\<dots> = be_val (rev xs) div 256 ^ i"
    using assms by (simp add: uint_rcat8 drop_bit_eq_div power_mult)
  finally have "uint (drop_bit (8 * i) (word_rcat (rev xs) :: u64)) = be_val (rev xs) div 256 ^ i" .
  then have "uint (bytes_of (word_rcat (rev xs)) ! i) = uint (xs ! i)"
    using i assms horner_digit [of i xs]
    by (simp add: bytes_of_def unsigned_ucast_eq take_bit_eq_mod be_val_def)
  then show "bytes_of (word_rcat (rev xs)) ! i = xs ! i"
    by (simp add: word_uint_eq_iff)
qed

lemma load64_eq_iff: "load64 m l = load64 m r \<longleftrightarrow> bytes m l 8 = bytes m r 8"
  unfolding load64_def by (metis bytes_of_rcat length_bytes)

lemma bswap_load64: "uint (bswap64 (load64 m l)) = be_val (bytes m l 8)"
  by (simp add: bswap64_def load64_def bytes_of_rcat uint_rcat8)

lemma bytes_append: "bytes m a (k + n) = bytes m a k @ bytes m (a + of_nat k) n"
  by (rule nth_equalityI) (auto simp: nth_append algebra_simps)

lemma xor_eq_0_iff: "(x :: u64) XOR y = 0 \<longleftrightarrow> x = y"
proof
  assume "x XOR y = 0"
  then have "(x XOR y) XOR y = 0 XOR y" by simp
  then show "x = y" by (simp add: xor.assoc)
qed simp

lemma reduce_or_xor_zero:
  "length xs = length ys \<Longrightarrow> reduce_or (map2 (XOR) xs ys) = 0 \<longleftrightarrow> xs = ys"
  by (induction xs ys rule: list_induct2) (auto simp: reduce_or_def or_eq_0_iff xor_eq_0_iff)

lemma load_block_eq_iff: "load_block m l = load_block m r \<longleftrightarrow> bytes m l 64 = bytes m r 64"
proof -
  have nth: "bytes m p 64 ! (8 * k + i) = bytes m (p + 8 * of_nat k) 8 ! i" if "k < 8" "i < 8" for p k i
    using that by (simp add: algebra_simps)
  have "load_block m l = load_block m r \<longleftrightarrow>
      (\<forall>k<8. bytes m (l + 8 * of_nat k) 8 = bytes m (r + 8 * of_nat k) 8)"
    by (simp add: load_block_def load64_eq_iff list_eq_iff_nth_eq)
  also have "\<dots> \<longleftrightarrow> (\<forall>k<8. \<forall>i<8. bytes m l 64 ! (8 * k + i) = bytes m r 64 ! (8 * k + i))"
    by (simp add: nth list_eq_iff_nth_eq [of "bytes m _ 8"] del: nth_bytes)
  also have "\<dots> \<longleftrightarrow> (\<forall>j<64. bytes m l 64 ! j = bytes m r 64 ! j)"
  proof (safe)
    fix j :: nat
    assume all: "\<forall>k<8. \<forall>i<8. bytes m l 64 ! (8 * k + i) = bytes m r 64 ! (8 * k + i)" and "j < 64"
    then have "j div 8 < 8" "j mod 8 < 8" by simp_all
    with all have "bytes m l 64 ! (8 * (j div 8) + j mod 8) = bytes m r 64 ! (8 * (j div 8) + j mod 8)"
      by blast
    then show "bytes m l 64 ! j = bytes m r 64 ! j" by simp
  next
    fix k i :: nat
    assume "\<forall>j<64. bytes m l 64 ! j = bytes m r 64 ! j" "k < 8" "i < 8"
    then show "bytes m l 64 ! (8 * k + i) = bytes m r 64 ! (8 * k + i)"
      by (elim allE [of _ "8 * k + i"]) simp
  qed
  finally show ?thesis by (simp add: list_eq_iff_nth_eq [of "bytes m _ 64"])
qed

lemma block_differs_iff:
  "reduce_or (map2 (XOR) (load_block m l) (load_block m r)) = 0 \<longleftrightarrow> bytes m l 64 = bytes m r 64"
  using reduce_or_xor_zero [of "load_block m l" "load_block m r"]
  by (simp add: load_block_eq_iff) (simp add: load_block_def)

lemma unat_sub_le: "a \<le> n \<Longrightarrow> unat (n - a) = unat n - unat (a :: u64)"
  by (rule unat_sub)

definition lex_at :: "mem \<Rightarrow> u64 \<Rightarrow> u64 \<Rightarrow> u64 \<Rightarrow> i32" where
  "lex_at m l r n = lex_cmp (bytes m l (unat n)) (bytes m r (unat n))"

lemma lex_at_split:
  assumes "k \<le> n"
  shows "lex_at m l r n =
    (if bytes m l (unat k) = bytes m r (unat k) then lex_at m (l + k) (r + k) (n - k)
     else lex_cmp (bytes m l (unat k)) (bytes m r (unat k)))"
proof -
  have "unat n = unat k + unat (n - k)"
    using assms by (simp add: unat_sub_le word_le_nat_alt)
  then show ?thesis by (simp add: lex_at_def bytes_append lex_cmp_append)
qed

lemma memcmp_blocks_lex:
  "memcmp_blocks m l r n = (l', r', n') \<Longrightarrow> lex_at m l' r' n' = lex_at m l r n"
proof (induction m l r n rule: memcmp_blocks.induct)
  case (1 m l r n)
  show ?case
  proof (cases "64 \<le> n \<and> bytes m l 64 = bytes m r 64")
    case True
    with 1 have "lex_at m l' r' n' = lex_at m (l + 64) (r + 64) (n - 64)"
      by (simp add: memcmp_blocks.simps [of m l r n] block_differs_iff)
    then show ?thesis using True lex_at_split [of 64 n m l r] by simp
  next
    case False
    with "1.prems" show ?thesis
      by (auto simp: memcmp_blocks.simps [of m l r n] block_differs_iff split: if_splits)
  qed
qed

lemma memcmp_scalars_lex:
  "case memcmp_scalars m l r n of
     Inl v \<Rightarrow> v = lex_at m l r n
   | Inr (l', r', n') \<Rightarrow> lex_at m l' r' n' = lex_at m l r n"
proof (induction m l r n rule: memcmp_scalars.induct)
  case (1 m l r n)
  show ?case
  proof (cases "8 \<le> n")
    case False
    then show ?thesis by (simp add: memcmp_scalars.simps [of m l r n])
  next
    case True
    show ?thesis
    proof (cases "bytes m l 8 = bytes m r 8")
      case eq: True
      then have "memcmp_scalars m l r n = memcmp_scalars m (l + 8) (r + 8) (n - 8)"
        using True by (simp add: memcmp_scalars.simps [of m l r n] load64_eq_iff)
      moreover have "lex_at m l r n = lex_at m (l + 8) (r + 8) (n - 8)"
        using lex_at_split [OF True, of m l r] eq by simp
      ultimately show ?thesis
        using "1.IH" [OF True refl refl] eq by (simp only: load64_eq_iff simp_thms)
    next
      case False
      then have "lex_at m l r n = (if be_val (bytes m l 8) < be_val (bytes m r 8) then -1 else 1)"
        using lex_at_split [OF True, of m l r] be_val_lex by simp
      then show ?thesis using True False
        by (simp add: memcmp_scalars.simps [of m l r n] load64_eq_iff word_less_def bswap_load64)
    qed
  qed
qed

lemma memcmp_bytes_lex:
  "i \<le> n \<Longrightarrow> memcmp_bytes m l r n i = lex_at m (l + i) (r + i) (n - i)"
proof (induction m l r n i rule: memcmp_bytes.induct)
  case (1 m l r n i)
  show ?case
  proof (cases "i < n")
    case False
    with "1.prems" have "n = i" by simp
    then show ?thesis by (simp add: memcmp_bytes.simps [of m l r i i] lex_at_def bytes_def)
  next
    case True
    then have one: "1 \<le> n - i"
      by (simp add: word_le_nat_alt unat_sub word_less_nat_alt)
    have le: "i + 1 \<le> n" using True by (simp add: word_le_nat_alt unat_Suc_less word_less_nat_alt)
    have b: "bytes m a (Suc 0) = [m a]" for a by (simp add: bytes_def)
    show ?thesis using True le "1.IH" [OF True] lex_at_split [OF one, of m "l + i" "r + i"]
      by (auto simp: memcmp_bytes.simps [of m l r n i] b algebra_simps)
  qed
qed

section \<open>Properties\<close>

text \<open>C34. \<open>memmove\<close> is right whether or not the buffers overlap: provided neither buffer wraps around
  the address space, it returns the destination and every byte of the destination holds what
  the corresponding source byte held before the call, all other memory being untouched.\<close>

theorem memmove_overlap:
  assumes "unat d + unat n \<le> 2 ^ 64" "unat s + unat n \<le> 2 ^ 64"
  shows "memmove m d s n = (d, \<lambda>a. if a \<in> region d n then m (s + (a - d)) else m a)"
  using mov.copy_copied [of d s n m] assms by (simp add: memmove_pre_def copied_def)

theorem memmove_overlap_witness:
  "memmove (\<lambda>a. ucast a) 16 18 4 = (16, \<lambda>a. if a \<in> region 16 4 then ucast (18 + (a - 16)) else ucast a)
   \<and> snd (memmove (\<lambda>a. ucast a) 16 18 4) 17 = 19"
proof -
  have "memmove (\<lambda>a. ucast a) 16 18 4 = (16, \<lambda>a. if a \<in> region 16 4 then ucast (18 + (a - 16)) else ucast a)"
    by (rule memmove_overlap) simp_all
  then show ?thesis by (simp add: region_simps)
qed

text \<open>\<open>memcpy\<close> on buffers that do not overlap (its \<open>restrict\<close> contract) returns the destination
  and makes the destination's bytes equal to the source's, touching nothing else.\<close>

theorem memcpy_disjoint:
  assumes "region d n \<inter> region s n = {}"
  shows "fst (memcpy m d s n) = d \<and>
    bytes (snd (memcpy m d s n)) d (unat n) = bytes m s (unat n) \<and>
    (\<forall>a. a \<notin> region d n \<longrightarrow> snd (memcpy m d s n) a = m a)"
  using assms cpy.copy_bytes [of d s n m] cpy.copy_frame [of d s n _ m]
  by (simp add: memcpy_pre_def memcpy_def)

theorem memcpy_disjoint_witness:
  "bytes (snd (memcpy (\<lambda>a. ucast a) 16 32 4)) 16 (unat (4 :: u64)) = [32, 33, 34, 35]"
proof -
  have "region 16 4 \<inter> region 32 4 = ({} :: u64 set)"
    by (auto simp: in_region_nat)
  from memcpy_disjoint [OF this, of "\<lambda>a. ucast a"] show ?thesis
    by (simp add: bytes_def upt_rec)
qed

text \<open>\<open>memset\<close> stores the low byte of its \<open>int\<close> argument into every byte of the buffer and
  nowhere else.\<close>

theorem memset_fills:
  "memset m d v n = (d, \<lambda>a. if a \<in> region d n then ucast v else m a)"
  by (simp add: memset_def set_up_eq region_simps)

text \<open>C35. The blockwise \<open>memcmp\<close> (64-byte vectors, byte-swapped 8-byte scalars, then bytes) returns
  exactly what comparing byte by byte as unsigned characters returns: zero for equal buffers,
  otherwise the sign of the first difference.\<close>

theorem memcmp_lexicographic:
  "memcmp m l r n = lex_cmp (bytes m l (unat n)) (bytes m r (unat n))"
proof -
  obtain l1 r1 n1 where 1: "memcmp_blocks m l r n = (l1, r1, n1)" by (metis prod_cases3)
  have "memcmp m l r n = lex_at m l1 r1 n1"
    using memcmp_scalars_lex [of m l1 r1 n1]
    by (auto simp: memcmp_def 1 memcmp_bytes_lex split: sum.splits prod.splits)
  also have "\<dots> = lex_at m l r n" by (rule memcmp_blocks_lex [OF 1])
  finally show ?thesis by (simp add: lex_at_def)
qed

end
