(* ===== verification/Uc_Syscall.thy ===== *)
theory Uc_Syscall
  imports Uc_Prelude
begin

text \<open>
  The raw kernel seam: \<open>src/syscall.h\<close> and the two \<open>syscall_arch.h\<close>. The inline assembly
  pins arguments to registers and executes one trapping instruction; the trap itself is a
  parameter, a function from the register file at the trap to the value it leaves in the
  result register. Above this seam the kernel is the record \<open>kernel\<close> of the operations the
  sources call, on an opaque kernel state.
\<close>

section \<open>Results\<close>

definition libuc_syscall_failed :: "i64 \<Rightarrow> bool" where
  "libuc_syscall_failed result \<longleftrightarrow> sint result < 0 \<and> sint result \<ge> -4095"

lemma sint_of_neg_nat:
  assumes "e < 2 ^ 63"
  shows "sint (- of_nat e :: i64) = - int e"
proof -
  have "(- of_nat e :: i64) = word_of_int (- int e)" by simp
  then show ?thesis
    by (simp only: sint_sbintrunc') (use assms in \<open>simp add: signed_take_bit_int_eq_self\<close>)
qed

lemma sint_nonneg:
  assumes "unat (r :: i64) < 2 ^ 63"
  shows "sint r = int (unat r)"
proof -
  have "r = word_of_int (int (unat r))" by simp
  then have "sint r = sint (word_of_int (int (unat r)) :: i64)" by (simp only:)
  also have "\<dots> = signed_take_bit 63 (int (unat r))" by (simp only: sint_sbintrunc') simp
  also have "\<dots> = int (unat r)"
  proof (rule signed_take_bit_int_eq_self)
    show "- (2 ^ 63) \<le> int (unat r)" by (rule order_trans [of _ 0]) simp_all
    show "int (unat r) < 2 ^ 63" using assms by (metis of_nat_less_iff of_nat_numeral of_nat_power)
  qed
  finally show ?thesis .
qed

lemma not_failed_nonneg: "unat r < 2 ^ 63 \<Longrightarrow> \<not> libuc_syscall_failed r"
  by (simp add: libuc_syscall_failed_def sint_nonneg)

section \<open>Trap stubs\<close>

datatype x86_64_reg = RAX | RDI | RSI | RDX | R10 | R8 | R9

datatype aarch64_reg = X8 | X0 | X1 | X2 | X3 | X4 | X5

definition x86_64_syscall2 ::
    "((x86_64_reg \<Rightarrow> i64) \<Rightarrow> i64) \<Rightarrow> (x86_64_reg \<Rightarrow> i64) \<Rightarrow> i64 \<Rightarrow> i64 \<Rightarrow> i64 \<Rightarrow> i64" where
  "x86_64_syscall2 trap regs number argument_0 argument_1 =
     trap (regs(RAX := number, RDI := argument_0, RSI := argument_1))"

definition x86_64_syscall6 ::
    "((x86_64_reg \<Rightarrow> i64) \<Rightarrow> i64) \<Rightarrow> (x86_64_reg \<Rightarrow> i64) \<Rightarrow> i64 \<Rightarrow>
     i64 \<Rightarrow> i64 \<Rightarrow> i64 \<Rightarrow> i64 \<Rightarrow> i64 \<Rightarrow> i64 \<Rightarrow> i64" where
  "x86_64_syscall6 trap regs number argument_0 argument_1 argument_2 argument_3 argument_4 argument_5 =
     trap (regs(RAX := number, RDI := argument_0, RSI := argument_1, RDX := argument_2,
       R10 := argument_3, R8 := argument_4, R9 := argument_5))"

definition aarch64_syscall2 ::
    "((aarch64_reg \<Rightarrow> i64) \<Rightarrow> i64) \<Rightarrow> (aarch64_reg \<Rightarrow> i64) \<Rightarrow> i64 \<Rightarrow> i64 \<Rightarrow> i64 \<Rightarrow> i64" where
  "aarch64_syscall2 trap regs number argument_0 argument_1 =
     trap (regs(X8 := number, X0 := argument_0, X1 := argument_1))"

definition aarch64_syscall6 ::
    "((aarch64_reg \<Rightarrow> i64) \<Rightarrow> i64) \<Rightarrow> (aarch64_reg \<Rightarrow> i64) \<Rightarrow> i64 \<Rightarrow>
     i64 \<Rightarrow> i64 \<Rightarrow> i64 \<Rightarrow> i64 \<Rightarrow> i64 \<Rightarrow> i64 \<Rightarrow> i64" where
  "aarch64_syscall6 trap regs number argument_0 argument_1 argument_2 argument_3 argument_4 argument_5 =
     trap (regs(X8 := number, X0 := argument_0, X1 := argument_1, X2 := argument_2,
       X3 := argument_3, X4 := argument_4, X5 := argument_5))"

text \<open>
  The typed wrappers. \<open>int\<close> arguments are sign-extended to \<open>long\<close>, unsigned ones zero-extended;
  the system call numbers come from \<open><asm/unistd.h>\<close> and are a parameter.
\<close>

datatype sysno = NR_mmap | NR_munmap | NR_io_uring_setup | NR_io_uring_enter

type_synonym stub2 = "i64 \<Rightarrow> i64 \<Rightarrow> i64 \<Rightarrow> i64"
type_synonym stub6 = "i64 \<Rightarrow> i64 \<Rightarrow> i64 \<Rightarrow> i64 \<Rightarrow> i64 \<Rightarrow> i64 \<Rightarrow> i64 \<Rightarrow> i64"

definition libuc_sys_mmap ::
    "stub6 \<Rightarrow> (sysno \<Rightarrow> i64) \<Rightarrow> u64 \<Rightarrow> u64 \<Rightarrow> i32 \<Rightarrow> i32 \<Rightarrow> i32 \<Rightarrow> u64 \<Rightarrow> i64" where
  "libuc_sys_mmap syscall6 nr address len protection flags descriptor offset =
     syscall6 (nr NR_mmap) address len (scast protection) (scast flags) (scast descriptor) offset"

definition libuc_sys_munmap :: "stub2 \<Rightarrow> (sysno \<Rightarrow> i64) \<Rightarrow> u64 \<Rightarrow> u64 \<Rightarrow> i64" where
  "libuc_sys_munmap syscall2 nr address len = syscall2 (nr NR_munmap) address len"

definition libuc_sys_io_uring_setup :: "stub2 \<Rightarrow> (sysno \<Rightarrow> i64) \<Rightarrow> u32 \<Rightarrow> u64 \<Rightarrow> i64" where
  "libuc_sys_io_uring_setup syscall2 nr entries params =
     syscall2 (nr NR_io_uring_setup) (ucast entries) params"

definition libuc_sys_io_uring_enter ::
    "stub6 \<Rightarrow> (sysno \<Rightarrow> i64) \<Rightarrow> i32 \<Rightarrow> u32 \<Rightarrow> u32 \<Rightarrow> u32 \<Rightarrow> u64 \<Rightarrow> u64 \<Rightarrow> i64" where
  "libuc_sys_io_uring_enter syscall6 nr descriptor to_submit min_complete flags argument argument_size =
     syscall6 (nr NR_io_uring_enter) (scast descriptor) (ucast to_submit) (ucast min_complete)
       (ucast flags) argument argument_size"

section \<open>The system call convention\<close>

text \<open>
  The contract of a pair of stubs: whatever the kernel does with the number and arguments it
  reads from the registers of its ABI (\<open>num\<close>, \<open>arg 0\<close> to \<open>arg 5\<close>), calling through the stub is
  doing that to the stub's own arguments.
\<close>

locale syscall_stubs =
  fixes sys2 :: "(('r \<Rightarrow> i64) \<Rightarrow> i64) \<Rightarrow> ('r \<Rightarrow> i64) \<Rightarrow> stub2"
    and sys6 :: "(('r \<Rightarrow> i64) \<Rightarrow> i64) \<Rightarrow> ('r \<Rightarrow> i64) \<Rightarrow> stub6"
    and num :: "('r \<Rightarrow> i64) \<Rightarrow> i64"
    and arg :: "nat \<Rightarrow> ('r \<Rightarrow> i64) \<Rightarrow> i64"
  assumes sys2: "sys2 (\<lambda>r. k (num r) (arg 0 r) (arg 1 r)) regs n a0 a1 = k n a0 a1"
    and sys6: "sys6 (\<lambda>r. k' (num r) (arg 0 r) (arg 1 r) (arg 2 r) (arg 3 r) (arg 4 r) (arg 5 r))
      regs n a0 a1 a2 a3 a4 a5 = k' n a0 a1 a2 a3 a4 a5"
begin

lemma mmap_args:
  "libuc_sys_mmap
     (sys6 (\<lambda>r. k (num r) (arg 0 r) (arg 1 r) (arg 2 r) (arg 3 r) (arg 4 r) (arg 5 r)) regs) nr
     address len protection flags descriptor offset =
   k (nr NR_mmap) address len (scast protection) (scast flags) (scast descriptor) offset"
  by (simp only: libuc_sys_mmap_def sys6)

lemma munmap_args:
  "libuc_sys_munmap (sys2 (\<lambda>r. k (num r) (arg 0 r) (arg 1 r)) regs) nr address len =
   k (nr NR_munmap) address len"
  by (simp only: libuc_sys_munmap_def sys2)

lemma setup_args:
  "libuc_sys_io_uring_setup (sys2 (\<lambda>r. k (num r) (arg 0 r) (arg 1 r)) regs) nr entries params =
   k (nr NR_io_uring_setup) (ucast entries) params"
  by (simp only: libuc_sys_io_uring_setup_def sys2)

lemma enter_args:
  "libuc_sys_io_uring_enter
     (sys6 (\<lambda>r. k (num r) (arg 0 r) (arg 1 r) (arg 2 r) (arg 3 r) (arg 4 r) (arg 5 r)) regs) nr
     descriptor to_submit min_complete flags argument argument_size =
   k (nr NR_io_uring_enter) (scast descriptor) (ucast to_submit) (ucast min_complete) (ucast flags)
     argument argument_size"
  by (simp only: libuc_sys_io_uring_enter_def sys6)

end

definition x86_64_arg :: "nat \<Rightarrow> (x86_64_reg \<Rightarrow> i64) \<Rightarrow> i64" where
  "x86_64_arg i r = r ([RDI, RSI, RDX, R10, R8, R9] ! i)"

definition aarch64_arg :: "nat \<Rightarrow> (aarch64_reg \<Rightarrow> i64) \<Rightarrow> i64" where
  "aarch64_arg i r = r ([X0, X1, X2, X3, X4, X5] ! i)"

interpretation x86_64: syscall_stubs x86_64_syscall2 x86_64_syscall6 "\<lambda>r. r RAX" x86_64_arg
  by unfold_locales (simp_all add: x86_64_syscall2_def x86_64_syscall6_def x86_64_arg_def)

interpretation aarch64: syscall_stubs aarch64_syscall2 aarch64_syscall6 "\<lambda>r. r X8" aarch64_arg
  by unfold_locales (simp_all add: aarch64_syscall2_def aarch64_syscall6_def aarch64_arg_def)

section \<open>The kernel above the seam\<close>

text \<open>
  What the rest of the sources call, with decoded arguments. Memory operations may change byte
  memory (a new mapping appears, an old one goes), so it is passed through; the ring operations
  are added with the ring.
\<close>

record 'k kernel =
  k_mmap :: "u64 \<Rightarrow> u64 \<Rightarrow> i32 \<Rightarrow> i32 \<Rightarrow> i32 \<Rightarrow> u64 \<Rightarrow> mem \<Rightarrow> 'k \<Rightarrow> i64 \<times> mem \<times> 'k"
  k_munmap :: "u64 \<Rightarrow> u64 \<Rightarrow> mem \<Rightarrow> 'k \<Rightarrow> i64 \<times> mem \<times> 'k"

text \<open>\<open>PROT_READ | PROT_WRITE\<close>, \<open>MAP_PRIVATE | MAP_ANONYMOUS\<close> and \<open>MAP_SHARED | MAP_POPULATE\<close>.\<close>

definition prot_rw :: i32 where "prot_rw = 3"
definition map_private_anonymous :: i32 where "map_private_anonymous = 34"
definition map_shared_populate :: i32 where "map_shared_populate = 32769"

text \<open>
  The documented behaviour of an anonymous private mapping (\<open>mmap(2)\<close>): on success the range
  is non-null, page-aligned, does not wrap, overlaps no existing mapping, reads as zero, and is
  mapped from then on; memory outside it is unchanged. \<open>mapped\<close> views the kernel state as the
  set of mapped addresses.
\<close>

definition mmap_ok :: "('k \<Rightarrow> u64 set) \<Rightarrow> ('k, 'z) kernel_scheme \<Rightarrow> bool" where
  "mmap_ok mapped K \<longleftrightarrow>
     (\<forall>len mem k r mem' k'.
        k_mmap K 0 len prot_rw map_private_anonymous (- 1) 0 mem k = (r, mem', k') \<longrightarrow>
        (if libuc_syscall_failed r then mem' = mem \<and> mapped k' = mapped k
         else r \<noteq> 0 \<and> 4096 dvd unat r \<and> unat r + unat len \<le> 2 ^ 64 \<and> region r len \<inter> mapped k = {} \<and>
           mapped k' = mapped k \<union> region r len \<and>
           (\<forall>a. mem' a = (if a \<in> region r len then 0 else mem a))))"

text \<open>\<open>munmap(2)\<close> of a mapped range: on success exactly that range goes; a failure changes nothing.\<close>

definition munmap_ok :: "('k \<Rightarrow> u64 set) \<Rightarrow> ('k, 'z) kernel_scheme \<Rightarrow> bool" where
  "munmap_ok mapped K \<longleftrightarrow>
     (\<forall>s len mem k r mem' k'. k_munmap K s len mem k = (r, mem', k') \<longrightarrow>
        (if libuc_syscall_failed r then mem' = mem \<and> mapped k' = mapped k
         else mapped k' = mapped k - region s len \<and> (\<forall>a. a \<notin> region s len \<longrightarrow> mem' a = mem a)))"

lemma mmap_okD:
  assumes "mmap_ok mapped K"
    and "k_mmap K 0 len prot_rw map_private_anonymous (- 1) 0 mem k = (r, mem', k')"
    and "\<not> libuc_syscall_failed r"
  shows "r \<noteq> 0" "4096 dvd unat r" "unat r + unat len \<le> 2 ^ 64" "region r len \<inter> mapped k = {}"
    "mapped k' = mapped k \<union> region r len" "mem' = (\<lambda>a. if a \<in> region r len then 0 else mem a)"
  using assms(1) [unfolded mmap_ok_def, rule_format, OF assms(2)] assms(3) by auto

lemma mmap_ok_failD:
  assumes "mmap_ok mapped K"
    and "k_mmap K 0 len prot_rw map_private_anonymous (- 1) 0 mem k = (r, mem', k')"
    and "libuc_syscall_failed r"
  shows "mem' = mem" "mapped k' = mapped k"
  using assms(1) [unfolded mmap_ok_def, rule_format, OF assms(2)] assms(3) by auto

lemma munmap_okD:
  assumes "munmap_ok mapped K" and "k_munmap K s len mem k = (r, mem', k')"
  shows "libuc_syscall_failed r \<Longrightarrow> mem' = mem" "libuc_syscall_failed r \<Longrightarrow> mapped k' = mapped k"
    "\<not> libuc_syscall_failed r \<Longrightarrow> mapped k' = mapped k - region s len"
    "a \<notin> region s len \<Longrightarrow> mem' a = mem a"
  using assms(1) [unfolded munmap_ok_def, rule_format, OF assms(2)] by (auto split: if_splits)

section \<open>Properties\<close>

text \<open>On both architectures the wrapper for \<open>io_uring_enter\<close> hands the kernel, in the registers
  of its calling convention, the call's number and its six arguments in order, the descriptor
  sign-extended and the unsigned counts zero-extended, and returns what the kernel left in the
  result register.\<close>

theorem io_uring_enter_convention:
  "libuc_sys_io_uring_enter
     (x86_64_syscall6 (\<lambda>r. k (r RAX) (r RDI) (r RSI) (r RDX) (r R10) (r R8) (r R9)) regs) nr
     descriptor to_submit min_complete flags argument argument_size =
   k (nr NR_io_uring_enter) (scast descriptor) (ucast to_submit) (ucast min_complete) (ucast flags)
     argument argument_size \<and>
   libuc_sys_io_uring_enter
     (aarch64_syscall6 (\<lambda>r. k (r X8) (r X0) (r X1) (r X2) (r X3) (r X4) (r X5)) regs') nr
     descriptor to_submit min_complete flags argument argument_size =
   k (nr NR_io_uring_enter) (scast descriptor) (ucast to_submit) (ucast min_complete) (ucast flags)
     argument argument_size"
  using x86_64.enter_args [of k regs] aarch64.enter_args [of k regs']
  by (simp add: x86_64_arg_def aarch64_arg_def numeral_eq_Suc)

text \<open>A result is classified as failed exactly when it is the negation of an error number
  1 to 4095; in particular no address a mapping can return below the last page counts as
  failed.\<close>

theorem syscall_failed_iff_errno:
  "libuc_syscall_failed r \<longleftrightarrow> (\<exists>e. 1 \<le> e \<and> e \<le> 4095 \<and> r = - of_nat e)"
proof
  assume "libuc_syscall_failed r"
  then have r: "sint r < 0" "- 4095 \<le> sint r" by (simp_all add: libuc_syscall_failed_def)
  have "r = word_of_int (- int (nat (- sint r)))" using r by simp
  then have "r = - of_nat (nat (- sint r))" by (simp only: of_int_minus of_int_of_nat_eq)
  moreover have "1 \<le> nat (- sint r)" "nat (- sint r) \<le> 4095" using r by simp_all
  ultimately show "\<exists>e. 1 \<le> e \<and> e \<le> 4095 \<and> r = - of_nat e" by blast
next
  assume "\<exists>e. 1 \<le> e \<and> e \<le> 4095 \<and> r = - of_nat e"
  then obtain e where e: "1 \<le> e" "e \<le> 4095" "r = word_of_int (- int e)" by auto
  have "sint r = - int e" using e by (simp add: sint_of_neg_nat)
  with e show "libuc_syscall_failed r" by (simp add: libuc_syscall_failed_def)
qed

end
