(* ===== verification/Uc_Errno.thy ===== *)
theory Uc_Errno
  imports Uc_Syscall
begin

text \<open>
  \<open>src/errno\<close>: \<open>__libuc_errno_result\<close> turns a kernel result into the C convention. Here the \<open>errno\<close> of
  the calling fiber is passed in and out; \<open>Uc_Thread_Variables\<close> has it as the thread-local object it is.
\<close>

definition ENOENT :: i32 where "ENOENT = 2"
definition EINTR :: i32 where "EINTR = 4"
definition EINVAL :: i32 where "EINVAL = 22"

text \<open>\<open>errno = (int)-res; return -1;\<close> on a negative result, the result itself otherwise.\<close>

definition libuc_errno_result :: "i64 \<Rightarrow> i32 \<Rightarrow> i64 \<times> i32" where
  "libuc_errno_result res errno = (if sint res < 0 then (- 1, ucast (- res)) else (res, errno))"

lemma errno_result_error:
  "0 < e \<Longrightarrow> e < 2 ^ 31 \<Longrightarrow> libuc_errno_result (- of_nat e) errno = (- 1, of_nat e)"
  by (simp add: libuc_errno_result_def sint_of_neg_nat)
    (simp add: word_unat_eq_iff unsigned_ucast_eq unsigned_of_nat take_bit_nat_eq_self)

lemma errno_result_success: "0 \<le> sint res \<Longrightarrow> libuc_errno_result res errno = (res, errno)"
  by (simp add: libuc_errno_result_def)

end
