(* ===== verification/Uc_Auxv.thy ===== *)
theory Uc_Auxv
  imports Uc_Errno
begin

text \<open>
  \<open>src/sys/auxv\<close>: the auxiliary vector is an array of (type, value) word pairs ended by
  \<open>AT_NULL\<close>. The lookup loop has no bound of its own, so it is a partial function (\<open>None\<close>: does
  not return); it returns whenever the vector is terminated, and then it is an association-list
  lookup.
\<close>

definition AT_NULL :: u64 where "AT_NULL = 0"
definition AT_PHDR :: u64 where "AT_PHDR = 3"
definition AT_PHENT :: u64 where "AT_PHENT = 4"
definition AT_PHNUM :: u64 where "AT_PHNUM = 5"
definition AT_HWCAP2 :: u64 where "AT_HWCAP2 = 26"

text \<open>\<open>__libuc_auxv_get\<close> from entry \<open>entry\<close> on: the value if the type is found, else \<open>None\<close>.\<close>

partial_function (option) auxv_from :: "mem \<Rightarrow> u64 \<Rightarrow> u64 \<Rightarrow> u64 option option" where
  "auxv_from m entry ty =
     (if load64 m entry = AT_NULL then Some None
      else if load64 m entry = ty then Some (Some (load64 m (entry + 8)))
      else auxv_from m (entry + 16) ty)"

definition libuc_auxv_get :: "mem \<Rightarrow> u64 \<Rightarrow> u64 \<Rightarrow> u64 option option" where
  "libuc_auxv_get m auxiliary_vector ty = auxv_from m auxiliary_vector ty"

text \<open>\<open>getauxval\<close>: 0 and \<open>errno = ENOENT\<close> when absent.\<close>

definition getauxval :: "mem \<Rightarrow> u64 \<Rightarrow> u64 \<Rightarrow> i32 \<Rightarrow> (u64 \<times> i32) option" where
  "getauxval m auxiliary_vector ty errno =
     (case libuc_auxv_get m auxiliary_vector ty of
        None \<Rightarrow> None
      | Some None \<Rightarrow> Some (0, ENOENT)
      | Some (Some value) \<Rightarrow> Some (value, errno))"

section \<open>The vector as an association list\<close>

fun auxv_at :: "mem \<Rightarrow> u64 \<Rightarrow> (u64 \<times> u64) list \<Rightarrow> bool" where
  "auxv_at m a [] \<longleftrightarrow> load64 m a = AT_NULL"
| "auxv_at m a ((t, v) # ps) \<longleftrightarrow>
     t \<noteq> AT_NULL \<and> load64 m a = t \<and> load64 m (a + 8) = v \<and> auxv_at m (a + 16) ps"

lemma auxv_from_map_of: "auxv_at m a ps \<Longrightarrow> auxv_from m a ty = Some (map_of ps ty)"
  by (induction m a ps rule: auxv_at.induct) (subst auxv_from.simps; auto)+

section \<open>Properties\<close>

text \<open>On a terminated auxiliary vector the lookup returns, and returns the value of the first
  entry of the asked type; \<open>getauxval\<close> yields that value with \<open>errno\<close> untouched, or 0 with
  \<open>errno = ENOENT\<close> when there is no such entry.\<close>

theorem getauxval_lookup:
  assumes "auxv_at m a ps"
  shows "libuc_auxv_get m a ty = Some (map_of ps ty) \<and>
    getauxval m a ty errno =
      Some (case map_of ps ty of None \<Rightarrow> (0, ENOENT) | Some v \<Rightarrow> (v, errno))"
  using auxv_from_map_of [OF assms]
  by (simp add: libuc_auxv_get_def getauxval_def split: option.splits)

theorem getauxval_lookup_witness:
  "getauxval ((\<lambda>_. 0)(0 := 6, 9 := 16)) 0 6 5 = Some (4096, 5) \<and>
   getauxval ((\<lambda>_. 0)(0 := 6, 9 := 16)) 0 7 5 = Some (0, ENOENT)"
proof -
  have "auxv_at ((\<lambda>_. 0)(0 := 6, 9 := 16)) 0 [(6, 4096)]"
    by (simp add: AT_NULL_def load64_def bytes_def upt_rec word_rcat_def)
  from getauxval_lookup [OF this, of 6 5] getauxval_lookup [OF this, of 7 5] show ?thesis by simp
qed

end
