(* ===== verification/Uc_Sim_Kernel.thy ===== *)
theory Uc_Sim_Kernel
  imports Uc_Syscall
begin

text \<open>
  A small simulated address space that meets the documented contracts of \<open>mmap\<close> and \<open>munmap\<close>:
  the state is the next free page and the list of mapped ranges. It shows that the kernel
  contracts can hold, and the witnesses run on it. Nothing of the model depends on it.
\<close>

type_synonym sim_space = "u64 \<times> (u64 \<times> u64) list"

definition sim_mapped :: "sim_space \<Rightarrow> u64 set" where
  "sim_mapped k = (\<Union>(s, l) \<in> set (snd k). region s l)"

definition apart :: "u64 \<times> u64 \<Rightarrow> u64 \<times> u64 \<Rightarrow> bool" where
  "apart p q \<longleftrightarrow> unat (fst p) + unat (snd p) \<le> 2 ^ 64 \<and> unat (fst q) + unat (snd q) \<le> 2 ^ 64 \<and>
     (unat (fst p) + unat (snd p) \<le> unat (fst q) \<or> unat (fst q) + unat (snd q) \<le> unat (fst p))"

definition sim_mmap ::
    "u64 \<Rightarrow> u64 \<Rightarrow> i32 \<Rightarrow> i32 \<Rightarrow> i32 \<Rightarrow> u64 \<Rightarrow> mem \<Rightarrow> sim_space \<Rightarrow> i64 \<times> mem \<times> sim_space" where
  "sim_mmap address len protection flags descriptor offset m k =
     (let r = fst k in
      if len \<noteq> 0 \<and> r \<noteq> 0 \<and> r mod 4096 = 0 \<and> unat r + unat len + 4096 \<le> 2 ^ 63 \<and>
         (\<forall>q \<in> set (snd k). apart (r, len) q)
      then (r, \<lambda>a. if a - r < len then 0 else m a, (align_down (r + len + 4095) 4096, (r, len) # snd k))
      else (- 12, m, k))"

definition sim_munmap :: "u64 \<Rightarrow> u64 \<Rightarrow> mem \<Rightarrow> sim_space \<Rightarrow> i64 \<times> mem \<times> sim_space" where
  "sim_munmap s len m k =
     (if (s, len) \<in> set (snd k) \<and> (\<forall>q \<in> set (snd k). q = (s, len) \<or> apart (s, len) q)
      then (0, m, (fst k, filter (\<lambda>q. q \<noteq> (s, len)) (snd k)))
      else (- 22, m, k))"

lemma apart_disjoint: "apart (s, l) (s', l') \<Longrightarrow> region s l \<inter> region s' l' = {}"
  by (auto simp: apart_def in_region_nat)

lemma sim_mmap_ok: "mmap_ok sim_mapped \<lparr>k_mmap = sim_mmap, k_munmap = u, \<dots> = z\<rparr>"
  unfolding mmap_ok_def
proof (intro allI impI)
  fix len m k r m' k'
  assume "k_mmap \<lparr>k_mmap = sim_mmap, k_munmap = u, \<dots> = z\<rparr> 0 len prot_rw map_private_anonymous (- 1) 0
    m k = (r, m', k')"
  then have e: "sim_mmap 0 len prot_rw map_private_anonymous (- 1) 0 m k = (r, m', k')" by simp
  show "if libuc_syscall_failed r then m' = m \<and> sim_mapped k' = sim_mapped k
    else r \<noteq> 0 \<and> 4096 dvd unat r \<and> unat r + unat len \<le> 2 ^ 64 \<and> region r len \<inter> sim_mapped k = {} \<and>
      sim_mapped k' = sim_mapped k \<union> region r len \<and> (\<forall>a. m' a = (if a \<in> region r len then 0 else m a))"
  proof (cases "len \<noteq> 0 \<and> fst k \<noteq> 0 \<and> fst k mod 4096 = 0 \<and> unat (fst k) + unat len + 4096 \<le> 2 ^ 63 \<and>
      (\<forall>q \<in> set (snd k). apart (fst k, len) q)")
    case True
    with e have r: "r = fst k" "m' = (\<lambda>a. if a - r < len then 0 else m a)" "snd k' = (r, len) # snd k"
      by (auto simp: sim_mmap_def Let_def)
    have "unat (fst k mod 4096) = unat (fst k) mod 4096" by (simp add: unat_mod)
    with True have "4096 dvd unat r" by (simp add: r dvd_eq_mod_eq_0)
    moreover have "\<not> libuc_syscall_failed r" using True by (intro not_failed_nonneg) (simp add: r)
    moreover have "region r len \<inter> sim_mapped k = {}"
      using True apart_disjoint [of r len] by (fastforce simp: sim_mapped_def r)
    moreover have "sim_mapped k' = sim_mapped k \<union> region r len"
      by (auto simp: sim_mapped_def r(3))
    ultimately show ?thesis using True by (simp add: r region_simps)
  next
    case False
    with e have "r = - of_nat 12" "m' = m" "k' = k" by (simp_all only: sim_mmap_def Let_def if_False) auto
    then show ?thesis using sint_of_neg_nat [of 12] by (simp add: libuc_syscall_failed_def)
  qed
qed

lemma sim_munmap_ok: "munmap_ok sim_mapped \<lparr>k_mmap = u, k_munmap = sim_munmap, \<dots> = z\<rparr>"
  unfolding munmap_ok_def
proof (intro allI impI)
  fix s len m k r m' k'
  assume "k_munmap \<lparr>k_mmap = u, k_munmap = sim_munmap, \<dots> = z\<rparr> s len m k = (r, m', k')"
  then have e: "sim_munmap s len m k = (r, m', k')" by simp
  show "if libuc_syscall_failed r then m' = m \<and> sim_mapped k' = sim_mapped k
    else sim_mapped k' = sim_mapped k - region s len \<and> (\<forall>a. a \<notin> region s len \<longrightarrow> m' a = m a)"
  proof (cases "(s, len) \<in> set (snd k) \<and> (\<forall>q \<in> set (snd k). q = (s, len) \<or> apart (s, len) q)")
    case True
    with e have r: "r = 0" "m' = m" "snd k' = filter (\<lambda>q. q \<noteq> (s, len)) (snd k)"
      by (auto simp: sim_munmap_def)
    have "region x y \<inter> region s len = {}" if "(x, y) \<in> set (snd k)" "(x, y) \<noteq> (s, len)" for x y
      using True that apart_disjoint [of s len x y] by blast
    then have "sim_mapped k' = sim_mapped k - region s len"
      unfolding sim_mapped_def r(3) by fastforce
    then show ?thesis by (simp add: r libuc_syscall_failed_def)
  next
    case False
    with e have "r = - of_nat 22" "m' = m" "k' = k" by (simp_all only: sim_munmap_def if_False) auto
    then show ?thesis using sint_of_neg_nat [of 22] by (simp add: libuc_syscall_failed_def)
  qed
qed

end
