(* ===== verification/Uc_Thread_Local.thy ===== *)
theory Uc_Thread_Local
  imports Uc_Auxv Uc_String Uc_Sim_Kernel
begin

text \<open>
  \<open>src/thread_local\<close> and the two \<open>thread_local_arch.h\<close>: finding the executable's \<open>PT_TLS\<close>
  segment in the program headers, placing a thread-local block and its control block (TCB) in
  one mapping, and installing the thread pointer.

  The machine state is what this component owns or touches: byte memory, the typed TCBs at
  their thread pointers, the thread register, the process statics, and the kernel.
\<close>

section \<open>State\<close>

record tcb =
  tcb_self :: u64
  tcb_fiber :: u64

record tl_layout =
  tls_image :: u64
  image_size :: u64
  block_size :: u64
  alignment :: u64

record tl_block =
  mapping :: u64
  mapping_length :: u64
  tls_block :: u64
  thread_pointer :: u64

record 'k machine =
  mem :: mem
  tcbs :: "u64 \<rightharpoonup> tcb"
  tp :: u64
  auxiliary_vector :: u64
  process_layout :: "tl_layout option"
  kern :: 'k

section \<open>The thread-local image\<close>

record phdr =
  p_type :: u32
  p_vaddr :: u64
  p_filesz :: u64
  p_memsz :: u64
  p_align :: u64

definition PT_TLS :: u32 where "PT_TLS = 7"
definition sizeof_phdr :: u64 where "sizeof_phdr = 56"
definition alignof_phdr :: u64 where "alignof_phdr = 8"

text \<open>\<open>Elf64_Phdr\<close> at an address, by the field offsets of the ELF64 format.\<close>

definition phdr_at :: "mem \<Rightarrow> u64 \<Rightarrow> phdr" where
  "phdr_at m a = \<lparr>p_type = load32 m a, p_vaddr = load64 m (a + 16), p_filesz = load64 m (a + 32),
     p_memsz = load64 m (a + 40), p_align = load64 m (a + 48)\<rparr>"

text \<open>The scan of the table; \<open>None\<close> when a second \<open>PT_TLS\<close> header makes the image ambiguous.\<close>

function tls_scan :: "mem \<Rightarrow> u64 \<Rightarrow> u64 \<Rightarrow> u64 \<Rightarrow> phdr option \<Rightarrow> phdr option option" where
  "tls_scan m headers header_count index segment =
     (if index < header_count
      then let header = phdr_at m (headers + index * sizeof_phdr) in
           if p_type header \<noteq> PT_TLS then tls_scan m headers header_count (index + 1) segment
           else if segment \<noteq> None then None
           else tls_scan m headers header_count (index + 1) (Some header)
      else Some segment)"
  by pat_completeness auto
termination
  by (relation "measure (\<lambda>(m, h, n, i, s). unat n - unat i)")
    (auto simp: unat_Suc_less word_less_nat_alt)

declare tls_scan.simps [simp del]

text \<open>The layout a scan result stands for; \<open>None\<close> where the source returns \<open>nullptr\<close>.\<close>

definition segment_layout :: "phdr option \<Rightarrow> tl_layout option" where
  "segment_layout segment =
     (case segment of
        None \<Rightarrow> Some \<lparr>tls_image = 0, image_size = 0, block_size = 0, alignment = 1\<rparr>
      | Some h \<Rightarrow>
          if p_memsz h < p_filesz h \<or> ckd_add (p_vaddr h) (p_memsz h) = None then None
          else let align = (if p_align h = 0 then 1 else p_align h) in
            if popcount align \<noteq> 1 then None
            else Some \<lparr>tls_image = (if p_filesz h = 0 then 0 else p_vaddr h), image_size = p_filesz h,
                       block_size = p_memsz h, alignment = align\<rparr>)"

text \<open>
  \<open>__libuc_thread_local_layout\<close>: the cached layout, or a fresh decoding that is cached on
  success. The outer option is divergence (an auxiliary vector without end).
\<close>

definition libuc_thread_local_layout ::
    "('k, 'z) machine_scheme \<Rightarrow> (tl_layout option \<times> ('k, 'z) machine_scheme) option" where
  "libuc_thread_local_layout s =
     (if process_layout s \<noteq> None then Some (process_layout s, s)
      else
        (case libuc_auxv_get (mem s) (auxiliary_vector s) AT_PHDR of None \<Rightarrow> None
         | Some None \<Rightarrow> Some (None, s) | Some (Some address) \<Rightarrow>
        (case libuc_auxv_get (mem s) (auxiliary_vector s) AT_PHENT of None \<Rightarrow> None
         | Some None \<Rightarrow> Some (None, s) | Some (Some entry_size) \<Rightarrow>
        (case libuc_auxv_get (mem s) (auxiliary_vector s) AT_PHNUM of None \<Rightarrow> None
         | Some None \<Rightarrow> Some (None, s) | Some (Some entry_count) \<Rightarrow>
           if address = 0 \<or> address mod alignof_phdr \<noteq> 0 \<or> entry_size \<noteq> sizeof_phdr \<or> entry_count = 0
           then Some (None, s)
           else
             (case ckd_mul entry_count sizeof_phdr of None \<Rightarrow> Some (None, s) | Some table_size \<Rightarrow>
             (case ckd_add address table_size of None \<Rightarrow> Some (None, s) | Some table_end \<Rightarrow>
             (case tls_scan (mem s) address entry_count 0 None of None \<Rightarrow> Some (None, s) | Some segment \<Rightarrow>
             (case segment_layout segment of None \<Rightarrow> Some (None, s)
              | Some layout \<Rightarrow> Some (Some layout, s\<lparr>process_layout := Some layout\<rparr>)))))))))"

section \<open>Placement\<close>

record tl_placement =
  pl_length :: u64
  block_offset :: u64
  tp_offset :: u64

definition thread_local_tcb_size :: u64 where "thread_local_tcb_size = 16"
definition alignof_tcb :: u64 where "alignof_tcb = 8"

text \<open>Variant 2 (x86-64): the block ends below the thread pointer.\<close>

definition x86_64_thread_local_place :: "u64 \<Rightarrow> u64 \<Rightarrow> tl_placement option" where
  "x86_64_thread_local_place sz align =
     (case ckd_add sz (align - 1) of None \<Rightarrow> None | Some raised \<Rightarrow>
      let distance = align_down raised align in
      (case ckd_add distance (alignof_tcb - 1) of None \<Rightarrow> None | Some tcb_raised \<Rightarrow>
      let tp_off = align_down tcb_raised alignof_tcb in
      (case ckd_add tp_off thread_local_tcb_size of None \<Rightarrow> None | Some len \<Rightarrow>
        Some \<lparr>pl_length = len, block_offset = tp_off - distance, tp_offset = tp_off\<rparr>)))"

text \<open>Variant 1 (AArch64): the block begins above the 16-byte TCB.\<close>

definition aarch64_thread_local_place :: "u64 \<Rightarrow> u64 \<Rightarrow> tl_placement option" where
  "aarch64_thread_local_place sz align =
     (case ckd_add thread_local_tcb_size (align - 1) of None \<Rightarrow> None | Some raised \<Rightarrow>
      let off = align_down raised align in
      (case ckd_add off sz of None \<Rightarrow> None | Some len \<Rightarrow>
        Some \<lparr>pl_length = len, block_offset = off, tp_offset = 0\<rparr>))"

section \<open>Blocks\<close>

definition mmap_anonymous ::
    "('k, 'y) kernel_scheme \<Rightarrow> u64 \<Rightarrow> ('k, 'z) machine_scheme \<Rightarrow> i64 \<times> ('k, 'z) machine_scheme" where
  "mmap_anonymous K len s =
     (case k_mmap K 0 len prot_rw map_private_anonymous (- 1) 0 (mem s) (kern s) of
        (r, mem', k') \<Rightarrow> (r, s\<lparr>mem := mem', kern := k'\<rparr>))"

text \<open>Objects in an unmapped range are gone: a later access through their address faults.\<close>

definition munmap_range ::
    "('k, 'y) kernel_scheme \<Rightarrow> u64 \<Rightarrow> u64 \<Rightarrow> ('k, 'z) machine_scheme \<Rightarrow> i64 \<times> ('k, 'z) machine_scheme" where
  "munmap_range K start len s =
     (case k_munmap K start len (mem s) (kern s) of
        (r, mem', k') \<Rightarrow>
          (r, s\<lparr>mem := mem', kern := k',
                tcbs := (if libuc_syscall_failed r then tcbs s else tcbs s |` (- region start len))\<rparr>))"

definition base_alignment :: "tl_layout \<Rightarrow> u64" where
  "base_alignment l = (if alignment l < alignof_tcb then alignof_tcb else alignment l)"

definition init_tls_image :: "tl_layout \<Rightarrow> u64 \<Rightarrow> mem \<Rightarrow> mem" where
  "init_tls_image l tls m =
     (if block_size l \<noteq> 0
      then let m1 = snd (memset m tls 0 (block_size l)) in
           if image_size l \<noteq> 0 then snd (memcpy m1 tls (tls_image l) (image_size l)) else m1
      else m)"

definition libuc_thread_local_block_create ::
    "('k, 'y) kernel_scheme \<Rightarrow> (u64 \<Rightarrow> u64 \<Rightarrow> tl_placement option) \<Rightarrow> ('k, 'z) machine_scheme \<Rightarrow>
     (tl_block option \<times> ('k, 'z) machine_scheme) option" where
  "libuc_thread_local_block_create K place s =
     (case libuc_thread_local_layout s of None \<Rightarrow> None
      | Some (None, s1) \<Rightarrow> Some (None, s1)
      | Some (Some l, s1) \<Rightarrow> Some
          (case place (block_size l) (alignment l) of None \<Rightarrow> (None, s1) | Some p \<Rightarrow>
          (case ckd_add (pl_length p) (base_alignment l - 1) of None \<Rightarrow> (None, s1) | Some len \<Rightarrow>
          (case mmap_anonymous K len s1 of (raw, s2) \<Rightarrow>
             if libuc_syscall_failed raw then (None, s2)
             else
               (case ckd_add raw (base_alignment l - 1) of
                  None \<Rightarrow> (None, snd (munmap_range K raw len s2))
                | Some rounded \<Rightarrow>
                    let base = align_down rounded (base_alignment l);
                        thread_ptr = base + tp_offset p;
                        tls = base + block_offset p
                    in (Some \<lparr>mapping = raw, mapping_length = len, tls_block = tls, thread_pointer = thread_ptr\<rparr>,
                        s2\<lparr>mem := init_tls_image l tls (mem s2),
                           tcbs := (tcbs s2)(thread_ptr \<mapsto> \<lparr>tcb_self = thread_ptr, tcb_fiber = 0\<rparr>)\<rparr>))))))"

definition libuc_thread_local_block_destroy ::
    "('k, 'y) kernel_scheme \<Rightarrow> tl_block \<Rightarrow> ('k, 'z) machine_scheme \<Rightarrow> bool \<times> ('k, 'z) machine_scheme" where
  "libuc_thread_local_block_destroy K b s =
     (case munmap_range K (mapping b) (mapping_length b) s of (r, s') \<Rightarrow> (\<not> libuc_syscall_failed r, s'))"

section \<open>The thread register\<close>

definition thread_local_install :: "u64 \<Rightarrow> ('k, 'z) machine_scheme \<Rightarrow> ('k, 'z) machine_scheme" where
  "thread_local_install p s = s\<lparr>tp := p\<rparr>"

definition thread_local_read :: "('k, 'z) machine_scheme \<Rightarrow> u64" where
  "thread_local_read s = tp s"

definition libuc_thread_local_block_install ::
    "tl_block \<Rightarrow> ('k, 'z) machine_scheme \<Rightarrow> ('k, 'z) machine_scheme" where
  "libuc_thread_local_block_install b s = thread_local_install (thread_pointer b) s"

definition HWCAP2_FSGSBASE :: u64 where "HWCAP2_FSGSBASE = 2"

definition x86_64_install_available :: "u64 \<Rightarrow> bool" where
  "x86_64_install_available hwcap2 \<longleftrightarrow> hwcap2 AND HWCAP2_FSGSBASE \<noteq> 0"

definition aarch64_install_available :: "u64 \<Rightarrow> bool" where
  "aarch64_install_available hwcap2 \<longleftrightarrow> True"

definition libuc_thread_local_install_available ::
    "(u64 \<Rightarrow> bool) \<Rightarrow> ('k, 'z) machine_scheme \<Rightarrow> bool option" where
  "libuc_thread_local_install_available available s =
     (case libuc_auxv_get (mem s) (auxiliary_vector s) AT_HWCAP2 of
        None \<Rightarrow> None
      | Some None \<Rightarrow> Some (available 0)
      | Some (Some hwcap2) \<Rightarrow> Some (available hwcap2))"

section \<open>Reading the program headers\<close>

definition tls_headers :: "mem \<Rightarrow> u64 \<Rightarrow> nat \<Rightarrow> nat \<Rightarrow> phdr list" where
  "tls_headers m headers i n =
     filter (\<lambda>h. p_type h = PT_TLS) (map (\<lambda>j. phdr_at m (headers + of_nat j * sizeof_phdr)) [i..<n])"

lemma tls_headers_rec:
  "i < n \<Longrightarrow> tls_headers m h i n =
    (let x = phdr_at m (h + of_nat i * sizeof_phdr) in
     if p_type x = PT_TLS then x # tls_headers m h (Suc i) n else tls_headers m h (Suc i) n)"
  by (simp add: tls_headers_def upt_conv_Cons Let_def)

lemma tls_scan_eq:
  "tls_scan m h n i seg =
     (case (seg, tls_headers m h (unat i) (unat n)) of
        (_, []) \<Rightarrow> Some seg
      | (None, [x]) \<Rightarrow> Some (Some x)
      | _ \<Rightarrow> None)"
proof (induction m h n i seg rule: tls_scan.induct)
  case (1 m h n i seg)
  show ?case
  proof (cases "i < n")
    case False
    then show ?thesis
      by (simp add: tls_scan.simps [of m h n i seg] tls_headers_def word_less_nat_alt
          split: option.splits)
  next
    case True
    let ?x = "phdr_at m (h + i * sizeof_phdr)"
    have rec: "tls_headers m h (unat i) (unat n) =
      (if p_type ?x = PT_TLS then ?x # tls_headers m h (unat (i + 1)) (unat n)
       else tls_headers m h (unat (i + 1)) (unat n))"
      using True by (simp add: tls_headers_rec word_less_nat_alt unat_Suc_less Let_def)
    show ?thesis
      using "1.IH" [OF True refl] True
      by (auto simp: tls_scan.simps [of m h n i seg] rec Let_def split: option.splits list.splits)
  qed
qed

text \<open>What every layout the decoder accepts satisfies.\<close>

definition layout_ok :: "tl_layout \<Rightarrow> bool" where
  "layout_ok l \<longleftrightarrow> is_pow2 (alignment l) \<and> image_size l \<le> block_size l \<and>
     (image_size l = 0 \<longrightarrow> tls_image l = 0)"

lemma is_pow2_1 [simp]: "is_pow2 1"
  unfolding is_pow2_def by (rule exI [of _ 0]) simp

lemma is_pow2_8 [simp]: "is_pow2 8"
  unfolding is_pow2_def by (rule exI [of _ 3]) simp

lemma segment_layout_ok: "segment_layout seg = Some l \<Longrightarrow> layout_ok l"
  by (auto simp: segment_layout_def layout_ok_def Let_def not_less popcount_1_pow2
      split: option.splits if_splits)

lemma thread_local_layout_ok:
  assumes "libuc_thread_local_layout s = Some (Some l, s')"
    and "\<And>l. process_layout s = Some l \<Longrightarrow> layout_ok l"
  shows "layout_ok l \<and> s' = s\<lparr>process_layout := Some l\<rparr>"
  using assms
  by (auto simp: libuc_thread_local_layout_def segment_layout_ok split: if_splits option.splits)

section \<open>The placement contract\<close>

text \<open>
  What \<open>block_create\<close> relies on, and both architectures provide: the TCB and the block lie in
  the placement without overlapping, and each is aligned relative to an aligned base.
\<close>

locale tls_abi =
  fixes place :: "u64 \<Rightarrow> u64 \<Rightarrow> tl_placement option"
  assumes place_fits: "is_pow2 a \<Longrightarrow> place sz a = Some p \<Longrightarrow>
      unat (tp_offset p) + 16 \<le> unat (pl_length p) \<and>
      unat (block_offset p) + unat sz \<le> unat (pl_length p)"
    and place_disjoint: "is_pow2 a \<Longrightarrow> place sz a = Some p \<Longrightarrow>
      unat (tp_offset p) + 16 \<le> unat (block_offset p) \<or>
      unat (block_offset p) + unat sz \<le> unat (tp_offset p)"
    and place_aligned: "is_pow2 a \<Longrightarrow> place sz a = Some p \<Longrightarrow>
      unat a dvd unat (block_offset p) \<and> 8 dvd unat (tp_offset p)"

lemma x86_64_place_facts:
  assumes a: "is_pow2 a" and p: "x86_64_thread_local_place sz a = Some p"
  obtains d where "unat sz \<le> unat d" "unat a dvd unat d" "unat d \<le> unat (tp_offset p)"
    "unat (tp_offset p) < unat d + 8" "8 dvd unat (tp_offset p)"
    "unat (pl_length p) = unat (tp_offset p) + 16" "block_offset p = tp_offset p - d"
proof -
  from p obtain r t l where
    r: "ckd_add sz (a - 1) = Some r" and
    t: "ckd_add (align_down r a) (8 - 1) = Some t" and
    l: "ckd_add (align_down t 8) 16 = Some l" and
    pe: "p = \<lparr>pl_length = l, block_offset = align_down t 8 - align_down r a, tp_offset = align_down t 8\<rparr>"
    by (auto simp: x86_64_thread_local_place_def alignof_tcb_def thread_local_tcb_size_def Let_def
        split: option.splits)
  show thesis
    using align_up_bounds [OF a r] align_up_bounds [OF is_pow2_8 t] ckd_add_unat [OF l]
    by (intro that [of "align_down r a"]) (simp_all add: pe)
qed

interpretation x86_64_tls: tls_abi x86_64_thread_local_place
proof unfold_locales
  fix a sz p assume a: "is_pow2 a" and p: "x86_64_thread_local_place sz a = Some p"
  obtain d where d: "unat sz \<le> unat d" "unat a dvd unat d" "unat d \<le> unat (tp_offset p)"
    "unat (tp_offset p) < unat d + 8" "8 dvd unat (tp_offset p)"
    "unat (pl_length p) = unat (tp_offset p) + 16" "block_offset p = tp_offset p - d"
    using x86_64_place_facts [OF a p] by blast
  have off: "unat (block_offset p) = unat (tp_offset p) - unat d"
    using d(3,7) by (simp add: unat_sub word_le_nat_alt)
  show "unat (tp_offset p) + 16 \<le> unat (pl_length p) \<and>
      unat (block_offset p) + unat sz \<le> unat (pl_length p)"
    using d off by linarith
  show "unat (tp_offset p) + 16 \<le> unat (block_offset p) \<or>
      unat (block_offset p) + unat sz \<le> unat (tp_offset p)"
    using d off by linarith
  show "unat a dvd unat (block_offset p) \<and> 8 dvd unat (tp_offset p)"
  proof (cases "unat a \<le> 8")
    case True
    then have "unat a dvd 8" using pow2_dvd_pow2 [OF a is_pow2_8] by simp
    then have "unat a dvd unat (tp_offset p)" using d(5) by (rule dvd_trans)
    with d(2,5) off show ?thesis by (simp add: dvd_diff_nat)
  next
    case False
    then have "8 dvd unat a" using pow2_dvd_pow2 [OF is_pow2_8 a] by simp
    then have "8 dvd unat d" using d(2) by (rule dvd_trans)
    then have "8 dvd unat (tp_offset p) - unat d" using d(5) by (simp add: dvd_diff_nat)
    then have "unat (tp_offset p) - unat d = 0" using d(3,4) by presburger
    with off d(5) show ?thesis by simp
  qed
qed

interpretation aarch64_tls: tls_abi aarch64_thread_local_place
proof unfold_locales
  fix a sz p assume a: "is_pow2 a" and p: "aarch64_thread_local_place sz a = Some p"
  from p obtain r l where
    r: "ckd_add 16 (a - 1) = Some r" and
    l: "ckd_add (align_down r a) sz = Some l" and
    pe: "p = \<lparr>pl_length = l, block_offset = align_down r a, tp_offset = 0\<rparr>"
    by (auto simp: aarch64_thread_local_place_def thread_local_tcb_size_def Let_def
        split: option.splits)
  note b = align_up_bounds [OF a r] ckd_add_unat [OF l]
  show "unat (tp_offset p) + 16 \<le> unat (pl_length p) \<and>
      unat (block_offset p) + unat sz \<le> unat (pl_length p)"
    using b by (simp add: pe)
  show "unat (tp_offset p) + 16 \<le> unat (block_offset p) \<or>
      unat (block_offset p) + unat sz \<le> unat (tp_offset p)"
    using b by (simp add: pe)
  show "unat a dvd unat (block_offset p) \<and> 8 dvd unat (tp_offset p)"
    using b by (simp add: pe)
qed

section \<open>Addressing\<close>

text \<open>
  Where compiled code finds the block from the thread pointer, by the two thread-local storage
  variants of the ABIs: below it at the block's size rounded up to its alignment (variant 2, x86-64), or
  above it at the size of the TCB rounded up to the block's alignment (variant 1, AArch64).
\<close>

definition x86_64_tls_base :: "u64 \<Rightarrow> u64 \<Rightarrow> u64 \<Rightarrow> u64" where
  "x86_64_tls_base sz align tpointer = tpointer - align_down (sz + (align - 1)) align"

definition aarch64_tls_base :: "u64 \<Rightarrow> u64 \<Rightarrow> u64 \<Rightarrow> u64" where
  "aarch64_tls_base sz align tpointer = tpointer + align_down (thread_local_tcb_size + (align - 1)) align"

locale tls_access = tls_abi place for place :: "u64 \<Rightarrow> u64 \<Rightarrow> tl_placement option" +
  fixes base :: "u64 \<Rightarrow> u64 \<Rightarrow> u64 \<Rightarrow> u64"
  assumes place_base: "place sz a = Some p \<Longrightarrow> base sz a (b + tp_offset p) = b + block_offset p"
begin

lemma create_placed:
  assumes "libuc_thread_local_block_create K place s = Some (Some b, s')" "process_layout s = Some l"
  shows "tls_block b = base (block_size l) (alignment l) (thread_pointer b)"
  using assms place_base
  by (auto simp: libuc_thread_local_block_create_def libuc_thread_local_layout_def Let_def
      split: option.splits prod.splits if_splits)

end

interpretation x86_64_access: tls_access x86_64_thread_local_place x86_64_tls_base
proof unfold_locales
  fix sz a p b assume "x86_64_thread_local_place sz a = Some p"
  then show "x86_64_tls_base sz a (b + tp_offset p) = b + block_offset p"
    by (auto simp: x86_64_thread_local_place_def x86_64_tls_base_def Let_def dest!: ckd_add_SomeD split: option.splits)
qed

interpretation aarch64_access: tls_access aarch64_thread_local_place aarch64_tls_base
proof unfold_locales
  fix sz a p b assume "aarch64_thread_local_place sz a = Some p"
  then show "aarch64_tls_base sz a (b + tp_offset p) = b + block_offset p"
    by (auto simp: aarch64_thread_local_place_def aarch64_tls_base_def Let_def dest!: ckd_add_SomeD split: option.splits)
qed

section \<open>Creating a block\<close>

definition block_geometry :: "tl_layout \<Rightarrow> tl_block \<Rightarrow> bool" where
  "block_geometry l b \<longleftrightarrow>
     region (tls_block b) (block_size l) \<subseteq> region (mapping b) (mapping_length b) \<and>
     region (thread_pointer b) thread_local_tcb_size \<subseteq> region (mapping b) (mapping_length b) \<and>
     region (thread_pointer b) thread_local_tcb_size \<inter> region (tls_block b) (block_size l) = {} \<and>
     unat (alignment l) dvd unat (tls_block b) \<and> 8 dvd unat (thread_pointer b)"

text \<open>The block's contents: the image, then zeros; and nothing outside the mapping has changed.\<close>

definition block_contents :: "tl_layout \<Rightarrow> tl_block \<Rightarrow> mem \<Rightarrow> mem \<Rightarrow> bool" where
  "block_contents l b m m' \<longleftrightarrow>
     (\<forall>i. i < image_size l \<longrightarrow> m' (tls_block b + i) = m (tls_image l + i)) \<and>
     (\<forall>i. image_size l \<le> i \<longrightarrow> i < block_size l \<longrightarrow> m' (tls_block b + i) = 0) \<and>
     (\<forall>a. a \<notin> region (mapping b) (mapping_length b) \<longrightarrow> m' a = m a)"

lemma base_alignment_pow2: "layout_ok l \<Longrightarrow> is_pow2 (base_alignment l)"
  by (simp add: base_alignment_def layout_ok_def alignof_tcb_def)

lemma base_alignment_dvd:
  assumes "layout_ok l"
  shows "unat (alignment l) dvd unat (base_alignment l)" and "8 dvd unat (base_alignment l)"
  using assms pow2_dvd_pow2 [of "alignment l" 8] pow2_dvd_pow2 [of 8 "alignment l"]
  by (auto simp: base_alignment_def layout_ok_def alignof_tcb_def word_less_nat_alt not_less)

lemma init_tls_image_eq:
  assumes "image_size l \<le> block_size l" "region tls (block_size l) \<inter> region (tls_image l) (image_size l) = {}"
  shows "init_tls_image l tls m a =
    (if a - tls < image_size l then m (tls_image l + (a - tls))
     else if a - tls < block_size l then 0 else m a)"
proof (cases "block_size l = 0")
  case True
  then have "image_size l = 0" using assms(1) by simp
  with True show ?thesis by (simp add: init_tls_image_def)
next
  case False
  let ?m1 = "snd (memset m tls 0 (block_size l))"
  have m1: "?m1 x = (if x - tls < block_size l then 0 else m x)" for x
    by (simp add: memset_def set_up_eq)
  have disj: "memcpy_pre tls (tls_image l) (image_size l)"
    using assms unfolding memcpy_pre_def region_def by (auto dest: order.strict_trans2)
  have src: "?m1 (tls_image l + (a - tls)) = m (tls_image l + (a - tls))" if "a - tls < image_size l"
  proof -
    have "tls_image l + (a - tls) \<in> region (tls_image l) (image_size l)" using that by (simp add: region_simps)
    then have "tls_image l + (a - tls) \<notin> region tls (block_size l)" using assms(2) by auto
    then show ?thesis by (simp only: m1 region_simps if_False)
  qed
  have "snd (memcpy ?m1 tls (tls_image l) (image_size l)) a =
      (if a - tls < image_size l then ?m1 (tls_image l + (a - tls)) else ?m1 a)"
    using cpy.copy_copied [OF disj, of ?m1] by (simp add: copied_def region_simps)
  then show ?thesis using False src m1 [of a]
    by (cases "image_size l = 0") (simp_all add: init_tls_image_def Let_def)
qed

lemma create_layout:
  assumes "process_layout s = Some l" "libuc_thread_local_block_create K place s = Some (ob, s')"
  shows "process_layout s' = Some l"
  using assms
  by (auto simp: libuc_thread_local_block_create_def libuc_thread_local_layout_def
      mmap_anonymous_def munmap_range_def Let_def split: option.splits prod.splits if_splits)

lemma create_more:
  assumes "libuc_thread_local_block_create K place s = Some (ob, s')"
  shows "machine.more s' = machine.more s"
  using assms
  by (auto simp: libuc_thread_local_block_create_def libuc_thread_local_layout_def
      mmap_anonymous_def munmap_range_def Let_def split: option.splits prod.splits if_splits)

context tls_abi
begin

lemma create_geometry:
  assumes ok: "layout_ok l" and pl: "place (block_size l) (alignment l) = Some p"
    and len: "ckd_add (pl_length p) (base_alignment l - 1) = Some len"
    and rd: "ckd_add raw (base_alignment l - 1) = Some rounded"
  defines "base \<equiv> align_down rounded (base_alignment l)"
  shows "block_geometry l \<lparr>mapping = raw, mapping_length = len, tls_block = base + block_offset p,
    thread_pointer = base + tp_offset p\<rparr>"
proof -
  note pow = base_alignment_pow2 [OF ok]
  have a: "is_pow2 (alignment l)" using ok by (simp add: layout_ok_def)
  note b = align_up_bounds [OF pow rd, folded base_def]
  have l: "unat len = unat (pl_length p) + (unat (base_alignment l) - 1)"
    using ckd_add_unat [OF len] by (simp add: unat_pow2_minus_1 [OF pow])
  have d: "unat (base - raw) = unat base - unat raw"
    using b(1) by (simp add: unat_sub word_le_nat_alt)
  have inside: "region base (pl_length p) \<subseteq> region raw len"
    using region_offset_subset [of "base - raw" "pl_length p" len raw] b d l by simp
  note fits = place_fits [OF a pl] and dis = place_disjoint [OF a pl]
  have "region (base + block_offset p) (block_size l) \<subseteq> region base (pl_length p)"
    using fits by (intro region_offset_subset) simp
  moreover have "region (base + tp_offset p) thread_local_tcb_size \<subseteq> region base (pl_length p)"
    using fits by (intro region_offset_subset) (simp add: thread_local_tcb_size_def)
  moreover have "region (base + tp_offset p) thread_local_tcb_size \<inter>
      region (base + block_offset p) (block_size l) = {}"
    using dis
  proof
    assume "unat (tp_offset p) + 16 \<le> unat (block_offset p)"
    then show ?thesis
      using fits by (intro region_offset_disjoint [where l = "pl_length p"]) (simp_all add: thread_local_tcb_size_def)
  next
    assume "unat (block_offset p) + unat (block_size l) \<le> unat (tp_offset p)"
    then have "region (base + block_offset p) (block_size l) \<inter>
        region (base + tp_offset p) thread_local_tcb_size = {}"
      using fits by (intro region_offset_disjoint [where l = "pl_length p"]) (simp_all add: thread_local_tcb_size_def)
    then show ?thesis by (simp only: Int_commute)
  qed
  moreover have "unat (alignment l) dvd unat (base + block_offset p)"
    by (rule pow2_dvd_add [OF a dvd_trans [OF base_alignment_dvd(1) [OF ok] b(3)]
          conjunct1 [OF place_aligned [OF a pl]]])
  moreover have "unat (8 :: u64) dvd unat (base + tp_offset p)"
    by (rule pow2_dvd_add [OF is_pow2_8])
      (use dvd_trans [OF base_alignment_dvd(2) [OF ok] b(3)] place_aligned [OF a pl] in simp_all)
  ultimately show ?thesis using inside unfolding block_geometry_def by auto
qed

text \<open>The block holds the image, then zeros, and nothing outside its mapping changes.\<close>

lemma image_copied:
  assumes lok: "layout_ok l" and geo: "block_geometry l b" and raw: "region (mapping b) (mapping_length b) = R"
    and zero: "\<And>a. m a = (if a \<in> R then 0 else m0 a)"
    and img: "R \<inter> old = {}" "region (tls_image l) (image_size l) \<subseteq> old"
  shows "block_contents l b m0 (init_tls_image l (tls_block b) m)"
proof -
  let ?m = "init_tls_image l (tls_block b) m"
  have sub: "region (tls_block b) (block_size l) \<subseteq> R" using geo by (simp add: block_geometry_def raw)
  have "region (tls_block b) (block_size l) \<inter> region (tls_image l) (image_size l) = {}" using sub img by blast
  moreover have le: "image_size l \<le> block_size l" using lok by (simp add: layout_ok_def)
  ultimately have eq: "?m a = (if a - tls_block b < image_size l then m (tls_image l + (a - tls_block b))
      else if a - tls_block b < block_size l then 0 else m a)" for a
    by (simp add: init_tls_image_eq)
  have i1: "m (tls_image l + i) = m0 (tls_image l + i)" if "i < image_size l" for i
  proof -
    have "tls_image l + i \<in> old" using that img(2) by (auto simp: region_simps)
    then show ?thesis using img(1) zero by auto
  qed
  have i2: "?m a = m0 a" if "a \<notin> R" for a
  proof -
    have "\<not> a - tls_block b < block_size l" using that sub by (auto simp: region_simps)
    moreover from this le have "\<not> a - tls_block b < image_size l" by auto
    ultimately show ?thesis using that by (simp only: eq zero if_False)
  qed
  show ?thesis unfolding block_contents_def using i2 by (auto simp: eq i1 raw)
qed

lemma create_ok:
  assumes K: "mmap_ok mapped K" and ok: "\<And>l. process_layout s = Some l \<Longrightarrow> layout_ok l"
    and cr: "libuc_thread_local_block_create K place s = Some (Some b, s')"
  obtains l where "layout_ok l" "process_layout s' = Some l" "block_geometry l b"
    "region (mapping b) (mapping_length b) \<inter> mapped (kern s) = {}"
    "mapped (kern s') = mapped (kern s) \<union> region (mapping b) (mapping_length b)"
    "tcbs s' = (tcbs s)(thread_pointer b \<mapsto> \<lparr>tcb_self = thread_pointer b, tcb_fiber = 0\<rparr>)"
    "tp s' = tp s" "machine.more s' = machine.more s" "auxiliary_vector s' = auxiliary_vector s"
    "thread_pointer b \<in> region (mapping b) (mapping_length b)" "thread_pointer b \<noteq> 0"
    "region (tls_image l) (image_size l) \<subseteq> mapped (kern s) \<Longrightarrow> block_contents l b (mem s) (mem s')"
proof -
  from cr obtain l s1 where lay: "libuc_thread_local_layout s = Some (Some l, s1)"
    by (auto simp: libuc_thread_local_block_create_def split: option.splits)
  from thread_local_layout_ok [OF this ok] have lok: "layout_ok l"
    and s1: "s1 = s\<lparr>process_layout := Some l\<rparr>" by auto
  from cr lay obtain p len raw m2 k2 rounded where
    pl: "place (block_size l) (alignment l) = Some p" and
    len: "ckd_add (pl_length p) (base_alignment l - 1) = Some len" and
    mm: "k_mmap K 0 len prot_rw map_private_anonymous (- 1) 0 (mem s) (kern s) = (raw, m2, k2)"
      "\<not> libuc_syscall_failed raw" and
    rd: "ckd_add raw (base_alignment l - 1) = Some rounded" and
    b: "b = \<lparr>mapping = raw, mapping_length = len,
         tls_block = align_down rounded (base_alignment l) + block_offset p,
         thread_pointer = align_down rounded (base_alignment l) + tp_offset p\<rparr>" and
    s': "s' = s1\<lparr>kern := k2, mem := init_tls_image l (tls_block b) m2,
         tcbs := (tcbs s)(thread_pointer b \<mapsto> \<lparr>tcb_self = thread_pointer b, tcb_fiber = 0\<rparr>)\<rparr>"
    by (auto simp: libuc_thread_local_block_create_def mmap_anonymous_def s1 Let_def
        split: option.splits prod.splits if_splits)
  have geo: "block_geometry l b" unfolding b by (rule create_geometry [OF lok pl len rd])
  note fresh = mmap_okD(4) [OF K mm] and mapped = mmap_okD(5) [OF K mm]
  have zero: "m2 a = (if a \<in> region raw len then 0 else mem s a)" for a
    by (simp add: mmap_okD(6) [OF K mm])
  have tin: "thread_pointer b \<in> region (mapping b) (mapping_length b)"
  proof -
    have "thread_pointer b \<in> region (thread_pointer b) thread_local_tcb_size"
      by (simp add: region_simps thread_local_tcb_size_def)
    then show ?thesis using geo unfolding block_geometry_def by blast
  qed
  have tnz: "thread_pointer b \<noteq> 0"
    using in_region_nonnull [OF mmap_okD(3,1) [OF K mm]] tin by (simp add: b)
  show thesis
  proof (rule that)
    show "block_contents l b (mem s) (mem s')" if "region (tls_image l) (image_size l) \<subseteq> mapped (kern s)"
      using image_copied [OF lok geo _ zero _ that] fresh by (simp add: s' b)
  qed (use lok geo fresh mapped tin tnz in \<open>simp_all add: s' s1 b\<close>)
qed

lemma create_failed:
  assumes K: "mmap_ok mapped K" "munmap_ok mapped K" and lay: "process_layout s = Some l"
    and cr: "libuc_thread_local_block_create K place s = Some (None, s')"
  shows "mapped (kern s) \<subseteq> mapped (kern s')" "process_layout s' = Some l" "tp s' = tp s"
    "machine.more s' = machine.more s" "auxiliary_vector s' = auxiliary_vector s"
    "a \<in> mapped (kern s) \<Longrightarrow> tcbs s' a = tcbs s a" "a \<in> mapped (kern s) \<Longrightarrow> mem s' a = mem s a"
proof -
  have "s' = s \<or> (\<exists>len raw m1 k1. k_mmap K 0 len prot_rw map_private_anonymous (- 1) 0 (mem s) (kern s) = (raw, m1, k1) \<and>
      (if libuc_syscall_failed raw then s' = s\<lparr>mem := m1, kern := k1\<rparr>
       else s' = snd (munmap_range K raw len (s\<lparr>mem := m1, kern := k1\<rparr>))))"
    using cr lay by (auto simp: libuc_thread_local_block_create_def libuc_thread_local_layout_def mmap_anonymous_def
        Let_def split: option.splits prod.splits if_splits)
  moreover have "mapped (kern s) \<subseteq> mapped k2 \<and> (a \<in> mapped (kern s) \<longrightarrow> a \<notin> region raw len \<and> m2 a = mem s a)"
    if "k_mmap K 0 len prot_rw map_private_anonymous (- 1) 0 (mem s) (kern s) = (raw, m1, k1)"
      "\<not> libuc_syscall_failed raw" "k_munmap K raw len m1 k1 = (r, m2, k2)" for len raw m1 k1 r m2 k2
    using mmap_okD [OF K(1) that(1,2)] munmap_okD [OF K(2) that(3)]
    by (cases "libuc_syscall_failed r") auto
  ultimately show "mapped (kern s) \<subseteq> mapped (kern s')" "process_layout s' = Some l" "tp s' = tp s"
    "machine.more s' = machine.more s" "auxiliary_vector s' = auxiliary_vector s"
    "a \<in> mapped (kern s) \<Longrightarrow> tcbs s' a = tcbs s a" "a \<in> mapped (kern s) \<Longrightarrow> mem s' a = mem s a"
    using lay mmap_ok_failD [OF K(1)]
    by (fastforce simp: munmap_range_def restrict_map_def split: prod.splits if_splits)+
qed

lemma create_total: "process_layout s = Some l \<Longrightarrow> libuc_thread_local_block_create K place s \<noteq> None"
  by (simp add: libuc_thread_local_block_create_def libuc_thread_local_layout_def)

end

section \<open>Properties\<close>

text \<open>C36. With the placement of either architecture, a created thread-local block has the geometry the
  compiled code assumes: the TCB and the thread-local block lie inside the fresh mapping, do not
  overlap, and are aligned; the block is where the architecture's ABI has compiled code look for it from
  the thread pointer; it holds the executable's image followed by zeros; the TCB
  points to itself with no fiber; and no memory outside the new mapping changes.\<close>

theorem thread_local_block_create_correct:
  assumes "(place, base) = (x86_64_thread_local_place, x86_64_tls_base) \<or>
      (place, base) = (aarch64_thread_local_place, aarch64_tls_base)"
    and "mmap_ok mapped K" and "process_layout s = Some l" "layout_ok l"
    and "region (tls_image l) (image_size l) \<subseteq> mapped (kern s)"
    and "libuc_thread_local_block_create K place s = Some (Some b, s')"
  shows "block_geometry l b \<and> tls_block b = base (block_size l) (alignment l) (thread_pointer b) \<and>
    block_contents l b (mem s) (mem s') \<and>
    region (mapping b) (mapping_length b) \<inter> mapped (kern s) = {} \<and>
    tcbs s' = (tcbs s)(thread_pointer b \<mapsto> \<lparr>tcb_self = thread_pointer b, tcb_fiber = 0\<rparr>)"
proof -
  from assms(1) have acc: "tls_access place base"
    by (auto intro: x86_64_access.tls_access_axioms aarch64_access.tls_access_axioms)
  then have abi: "tls_abi place" by (simp add: tls_access_def)
  have same: "process_layout s' = Some l" by (rule create_layout [OF assms(3,6)])
  have "block_geometry l b \<and> block_contents l b (mem s) (mem s') \<and>
    region (mapping b) (mapping_length b) \<inter> mapped (kern s) = {} \<and>
    tcbs s' = (tcbs s)(thread_pointer b \<mapsto> \<lparr>tcb_self = thread_pointer b, tcb_fiber = 0\<rparr>)"
    by (rule tls_abi.create_ok [OF abi assms(2) _ assms(6)]) (use assms(3,4,5) same in auto)
  with tls_access.create_placed [OF acc assms(6,3)] show ?thesis by simp
qed

definition sim_machine :: "sim_space machine" where
  "sim_machine = \<lparr>mem = (\<lambda>_. 0)(8192 := 17, 8193 := 34), tcbs = Map.empty, tp = 0, auxiliary_vector = 0,
     process_layout = Some \<lparr>tls_image = 8192, image_size = 2, block_size = 12, alignment = 4\<rparr>,
     kern = (65536, [(8192, 4096)])\<rparr>"

theorem thread_local_block_create_correct_witness:
  "\<exists>b s'. libuc_thread_local_block_create \<lparr>k_mmap = sim_mmap, k_munmap = sim_munmap\<rparr>
      x86_64_thread_local_place sim_machine = Some (Some b, s') \<and>
    tls_block b = 65540 \<and> thread_pointer b = 65552 \<and> mem s' 65541 = 34"
proof -
  let ?K = "\<lparr>k_mmap = sim_mmap, k_munmap = sim_munmap\<rparr>"
  let ?l = "\<lparr>tls_image = 8192, image_size = 2, block_size = 12, alignment = 4\<rparr>"
  have pow: "is_pow2 4" unfolding is_pow2_def by (rule exI [of _ 2]) simp
  have "\<exists>s'. libuc_thread_local_block_create ?K x86_64_thread_local_place sim_machine =
    Some (Some \<lparr>mapping = 65536, mapping_length = 39, tls_block = 65540, thread_pointer = 65552\<rparr>, s')"
    by (simp add: sim_machine_def libuc_thread_local_block_create_def libuc_thread_local_layout_def
        x86_64_thread_local_place_def ckd_add_def align_down_def alignof_tcb_def base_alignment_def
        thread_local_tcb_size_def mmap_anonymous_def sim_mmap_def apart_def libuc_syscall_failed_def
        Let_def)
  then obtain s' where cr: "libuc_thread_local_block_create ?K x86_64_thread_local_place sim_machine =
    Some (Some \<lparr>mapping = 65536, mapping_length = 39, tls_block = 65540, thread_pointer = 65552\<rparr>, s')" ..
  have "block_contents ?l \<lparr>mapping = 65536, mapping_length = 39, tls_block = 65540, thread_pointer = 65552\<rparr>
      (mem sim_machine) (mem s')"
    by (rule thread_local_block_create_correct [where base = x86_64_tls_base, OF _ sim_mmap_ok _ _ _ cr,
          THEN conjunct2, THEN conjunct2, THEN conjunct1])
      (auto simp: sim_machine_def layout_ok_def pow sim_mapped_def in_region_nat)
  from this [unfolded block_contents_def, THEN conjunct1, rule_format, of 1]
  have "mem s' 65541 = mem sim_machine 8193" by simp
  with cr show ?thesis by (simp add: sim_machine_def)
qed

text \<open>C37. With the program-header entries of the auxiliary vector present and well-formed, the layout
  decoder succeeds or fails as the table says: no \<open>PT_TLS\<close> header gives the empty layout, exactly
  one gives its decoded segment, two or more fail. Every layout returned has a power-of-two
  alignment and an image no larger than its block, is cached, and is returned unchanged by the
  next call.\<close>

theorem thread_local_layout_decodes:
  assumes "process_layout s = None"
    and "auxv_at (mem s) (auxiliary_vector s) ps"
    and "map_of ps AT_PHDR = Some a" "map_of ps AT_PHENT = Some sizeof_phdr" "map_of ps AT_PHNUM = Some n"
    and "a \<noteq> 0" "a mod alignof_phdr = 0" "n \<noteq> 0" "unat a + unat n * 56 < 2 ^ 64"
  shows "\<exists>res s'. libuc_thread_local_layout s = Some (res, s') \<and>
    res = (case tls_headers (mem s) a 0 (unat n) of
             [] \<Rightarrow> segment_layout None | [h] \<Rightarrow> segment_layout (Some h) | _ \<Rightarrow> None) \<and>
    (case res of None \<Rightarrow> s' = s
     | Some l \<Rightarrow> layout_ok l \<and> s' = s\<lparr>process_layout := Some l\<rparr> \<and>
         libuc_thread_local_layout s' = Some (Some l, s'))"
proof -
  have get: "libuc_auxv_get (mem s) (auxiliary_vector s) ty = Some (map_of ps ty)" for ty
    by (simp add: libuc_auxv_get_def auxv_from_map_of [OF assms(2)])
  have mul: "ckd_mul n sizeof_phdr = Some (n * sizeof_phdr)"
    using assms(9) by (simp add: ckd_mul_def sizeof_phdr_def)
  moreover have "ckd_add a (n * sizeof_phdr) \<noteq> None"
    using assms(9) ckd_mul_SomeD [OF mul] by (simp add: ckd_add_None_iff sizeof_phdr_def)
  then obtain e where add: "ckd_add a (n * sizeof_phdr) = Some e" by blast
  define scan where "scan = tls_scan (mem s) a n 0 None"
  have scan: "scan = (case tls_headers (mem s) a 0 (unat n) of [] \<Rightarrow> Some None | [h] \<Rightarrow> Some (Some h) | _ \<Rightarrow> None)"
    by (simp add: scan_def tls_scan_eq split: list.splits)
  have lay: "libuc_thread_local_layout s =
     (case scan of None \<Rightarrow> Some (None, s)
      | Some seg \<Rightarrow> (case segment_layout seg of None \<Rightarrow> Some (None, s)
                   | Some l \<Rightarrow> Some (Some l, s\<lparr>process_layout := Some l\<rparr>)))"
    using assms(1,3-8) by (simp add: libuc_thread_local_layout_def get mul add scan_def)
  define res where "res = (case scan of None \<Rightarrow> None | Some seg \<Rightarrow> segment_layout seg)"
  have res: "res = (case tls_headers (mem s) a 0 (unat n) of
      [] \<Rightarrow> segment_layout None | [h] \<Rightarrow> segment_layout (Some h) | _ \<Rightarrow> None)"
    by (simp add: res_def scan split: list.splits)
  show ?thesis
  proof (cases res)
    case None
    then have "libuc_thread_local_layout s = Some (None, s)"
      by (cases scan) (simp_all add: lay res_def)
    with None res show ?thesis by auto
  next
    case (Some l)
    then have eq: "libuc_thread_local_layout s = Some (Some l, s\<lparr>process_layout := Some l\<rparr>)"
      by (cases scan) (simp_all add: lay res_def)
    have ok: "layout_ok l" using Some by (auto simp: res_def segment_layout_ok split: option.splits)
    have "libuc_thread_local_layout (s\<lparr>process_layout := Some l\<rparr>) =
        Some (Some l, s\<lparr>process_layout := Some l\<rparr>)"
      by (simp add: libuc_thread_local_layout_def)
    with eq ok Some res show ?thesis by (intro exI [of _ "Some l"]) simp
  qed
qed

definition phdr_machine :: "sim_space machine" where
  "phdr_machine = sim_machine\<lparr>process_layout := None, auxiliary_vector := 256,
     mem := (\<lambda>_. 0)(256 := 3, 265 := 2, 272 := 4, 280 := 56, 288 := 5, 296 := 1,
       512 := 7, 529 := 32, 544 := 2, 552 := 12, 560 := 4)\<rparr>"

theorem thread_local_layout_decodes_witness:
  "\<exists>s'. libuc_thread_local_layout phdr_machine =
     Some (Some \<lparr>tls_image = 8192, image_size = 2, block_size = 12, alignment = 4\<rparr>, s')"
proof -
  have av: "auxv_at (mem phdr_machine) (auxiliary_vector phdr_machine) [(3, 512), (4, 56), (5, 1)]"
    by (simp add: phdr_machine_def AT_NULL_def load64_def bytes_def upt_rec word_rcat_def)
  have hd: "tls_headers (mem phdr_machine) 512 0 (Suc 0) =
      [\<lparr>p_type = 7, p_vaddr = 8192, p_filesz = 2, p_memsz = 12, p_align = 4\<rparr>]"
    by (simp add: tls_headers_def phdr_at_def PT_TLS_def phdr_machine_def load64_def load32_def bytes_def
        upt_rec word_rcat_def)
  have pc: "popcount 4 = 1" by code_simp
  have nl: "process_layout phdr_machine = None" by (simp add: phdr_machine_def)
  show ?thesis
    using thread_local_layout_decodes [OF nl av, of 512 1]
    by (auto simp: hd segment_layout_def pc ckd_add_def Let_def AT_PHDR_def AT_PHENT_def AT_PHNUM_def
        sizeof_phdr_def alignof_phdr_def)
qed

end
