(* ===== verification/Uc_Ring.thy ===== *)
theory Uc_Ring
  imports Uc_Thread_Local Uc_Errno "HOL-Library.Multiset"
begin

text \<open>
  The two io_uring rings: \<open>src/ring/ring.c\<close>, which the fiber scheduler drives, and
  \<open>src/uc/scheduler/ring.c\<close>, which the operation scheduler drives. Both set up a ring without a
  submission index array whose batch the kernel rereads from slot zero at every enter
  (\<open>IORING_SETUP_SQ_REWIND\<close>), append entries to the batch, submit it in a loop that survives
  interruption and short submissions, and reap completions.

  The memory a ring's pointers address is shared with the kernel and only ever accessed as
  entries and index words, so it is a typed part of the ring: the submission entries, the
  completion entries, and the two completion indices. An access beyond an array faults.
\<close>

section \<open>Data\<close>

text \<open>
  The fields of \<open>struct io_uring_sqe\<close> that the library writes; \<open>off\<close> and \<open>addr2\<close> share their place
  in the entry, as do the per-operation flags. All others are zero in every entry it submits.
\<close>

record sqe =
  sq_opcode :: u8
  sq_flags :: u8
  sq_fd :: i32
  sq_off :: u64
  sq_addr :: u64
  sq_len :: u32
  sq_op_flags :: u32
  sq_user_data :: u64

record cqe =
  cq_user_data :: u64
  cq_res :: i32
  cq_flags :: u32

definition zero_sqe :: sqe where
  "zero_sqe = \<lparr>sq_opcode = 0, sq_flags = 0, sq_fd = 0, sq_off = 0, sq_addr = 0, sq_len = 0, sq_op_flags = 0,
     sq_user_data = 0\<rparr>"

text \<open>What \<open>io_uring_setup\<close> reports back in \<open>struct io_uring_params\<close>.\<close>

record io_uring_params =
  p_sq_entries :: u32
  p_cq_entries :: u32
  p_features :: u32
  p_cq_off_head :: u32
  p_cq_off_tail :: u32
  p_cq_off_ring_mask :: u32
  p_cq_off_cqes :: u32

text \<open>\<open>struct __libuc_ring\<close>, then the memory behind \<open>sqes\<close>, \<open>cq_head\<close>, \<open>cq_tail\<close> and \<open>cqes\<close>.\<close>

record ring =
  ring_mapping :: u64
  ring_mapping_length :: u64
  sqes_ptr :: u64
  sqes_mapping_length :: u64
  cq_head_ptr :: u64
  cq_tail_ptr :: u64
  cqes_ptr :: u64
  descriptor :: i32
  sq_entries :: u32
  cq_entries :: u32
  cq_mask :: u32
  batch_count :: u32
  sqes :: "sqe list"
  cq_head :: u32
  cq_tail :: u32
  cqes :: "cqe list"

text \<open>\<open>struct __libuc_scheduler_ring\<close> is field for field the same.\<close>

type_synonym scheduler_ring = ring

section \<open>The ring system calls\<close>

text \<open>
  \<open>io_uring_setup\<close> takes the entry count and the setup flags. \<open>io_uring_enter\<close> takes the
  descriptor, the number of entries to submit, the number of completions to wait for and its
  flags; it reads the submission entries and the completion head, and advances the completion
  tail over entries it writes.
\<close>

record 'k ring_kernel = "'k kernel" +
  k_setup :: "u32 \<Rightarrow> u32 \<Rightarrow> 'k \<Rightarrow> i64 \<times> io_uring_params \<times> 'k"
  k_enter :: "i32 \<Rightarrow> u32 \<Rightarrow> u32 \<Rightarrow> u32 \<Rightarrow> sqe list \<Rightarrow> u32 \<Rightarrow> u32 \<Rightarrow> cqe list \<Rightarrow> 'k \<Rightarrow>
    i64 \<times> u32 \<times> cqe list \<times> 'k"

text \<open>\<open>SINGLE_ISSUER | DEFER_TASKRUN | NO_SQARRAY | SQ_REWIND | SUBMIT_ALL\<close>.\<close>

definition setup_flags :: u32 where
  "setup_flags = push_bit 12 1 OR push_bit 13 1 OR push_bit 16 1 OR push_bit 20 1 OR push_bit 7 1"

definition IORING_FEAT_SINGLE_MMAP :: u32 where "IORING_FEAT_SINGLE_MMAP = 1"
definition IORING_OFF_SQ_RING :: u64 where "IORING_OFF_SQ_RING = 0"
definition IORING_OFF_SQES :: u64 where "IORING_OFF_SQES = 0x10000000"
definition IORING_ENTER_GETEVENTS :: u32 where "IORING_ENTER_GETEVENTS = 1"
definition sizeof_sqe :: u64 where "sizeof_sqe = 64"
definition sizeof_cqe :: u64 where "sizeof_cqe = 16"

text \<open>\<open>-EINTR\<close> as a system call result.\<close>

definition minus_EINTR :: i64 where "minus_EINTR = - 4"

section \<open>Creation\<close>

definition ring_at :: "u64 \<Rightarrow> u32 \<Rightarrow> u64" where
  "ring_at base offset = base + ucast offset"

text \<open>The shared arrays as the kernel mapped them, decoded by the offsets of the kernel's structs.\<close>

definition sqe_at :: "mem \<Rightarrow> u64 \<Rightarrow> sqe" where
  "sqe_at m a = \<lparr>sq_opcode = m a, sq_flags = m (a + 1), sq_fd = load32 m (a + 4), sq_off = load64 m (a + 8),
     sq_addr = load64 m (a + 16), sq_len = load32 m (a + 24), sq_op_flags = load32 m (a + 28),
     sq_user_data = load64 m (a + 32)\<rparr>"

definition cqe_at :: "mem \<Rightarrow> u64 \<Rightarrow> cqe" where
  "cqe_at m a = \<lparr>cq_user_data = load64 m a, cq_res = load32 m (a + 8), cq_flags = load32 m (a + 12)\<rparr>"

definition sqes_at :: "mem \<Rightarrow> u64 \<Rightarrow> u32 \<Rightarrow> sqe list" where
  "sqes_at m a n = map (\<lambda>i. sqe_at m (a + sizeof_sqe * of_nat i)) [0..<unat n]"

definition cqes_at :: "mem \<Rightarrow> u64 \<Rightarrow> u32 \<Rightarrow> cqe list" where
  "cqes_at m a n = map (\<lambda>i. cqe_at m (a + sizeof_cqe * of_nat i)) [0..<unat n]"

definition mmap_ring ::
    "('k, 'y) kernel_scheme \<Rightarrow> u64 \<Rightarrow> i32 \<Rightarrow> u64 \<Rightarrow> ('k, 'z) machine_scheme \<Rightarrow> i64 \<times> ('k, 'z) machine_scheme" where
  "mmap_ring K len d offset s =
     (case k_mmap K 0 len prot_rw map_shared_populate d offset (mem s) (kern s) of
        (r, mem', k') \<Rightarrow> (r, s\<lparr>mem := mem', kern := k'\<rparr>))"

text \<open>The descriptor of a successful setup fits an \<open>int\<close>; \<open>(int)descriptor\<close> is the truncation.\<close>

definition ring_lengths :: "io_uring_params \<Rightarrow> (u64 \<times> u64) option" where
  "ring_lengths p =
     (case ckd_mul (ucast (p_cq_entries p)) sizeof_cqe of None \<Rightarrow> None | Some cqes_length \<Rightarrow>
     (case ckd_add (ucast (p_cq_off_cqes p)) cqes_length of None \<Rightarrow> None | Some ring_length \<Rightarrow>
     (case ckd_mul (ucast (p_sq_entries p)) sizeof_sqe of None \<Rightarrow> None | Some sqes_length \<Rightarrow>
        Some (ring_length, sqes_length))))"

definition libuc_ring_create ::
    "('k, 'y) ring_kernel_scheme \<Rightarrow> u32 \<Rightarrow> ('k, 'z) machine_scheme \<Rightarrow> ring option \<times> ('k, 'z) machine_scheme" where
  "libuc_ring_create K entries s =
     (case k_setup K entries setup_flags (kern s) of (d, p, k1) \<Rightarrow>
      let s1 = s\<lparr>kern := k1\<rparr> in
      if libuc_syscall_failed d then (None, s1)
      else if p_features p AND IORING_FEAT_SINGLE_MMAP = 0 then (None, s1)
      else case ring_lengths p of None \<Rightarrow> (None, s1) | Some (ring_length, sqes_length) \<Rightarrow>
      (case mmap_ring K ring_length (ucast d) IORING_OFF_SQ_RING s1 of (ring_map, s2) \<Rightarrow>
       if libuc_syscall_failed ring_map then (None, s2)
       else case mmap_ring K sqes_length (ucast d) IORING_OFF_SQES s2 of (sqes_map, s3) \<Rightarrow>
       if libuc_syscall_failed sqes_map then (None, snd (munmap_range K ring_map ring_length s3))
       else
         let mask = load32 (mem s3) (ring_at ring_map (p_cq_off_ring_mask p)) in
         if mask \<noteq> p_cq_entries p - 1
         then (None, snd (munmap_range K sqes_map sqes_length
                       (snd (munmap_range K ring_map ring_length s3))))
         else
           (Some \<lparr>ring_mapping = ring_map, ring_mapping_length = ring_length,
              sqes_ptr = ring_at sqes_map 0, sqes_mapping_length = sqes_length,
              cq_head_ptr = ring_at ring_map (p_cq_off_head p),
              cq_tail_ptr = ring_at ring_map (p_cq_off_tail p),
              cqes_ptr = ring_at ring_map (p_cq_off_cqes p),
              descriptor = ucast d, sq_entries = p_sq_entries p, cq_entries = p_cq_entries p,
              cq_mask = mask, batch_count = 0,
              sqes = sqes_at (mem s3) (ring_at sqes_map 0) (p_sq_entries p),
              cq_head = load32 (mem s3) (ring_at ring_map (p_cq_off_head p)),
              cq_tail = load32 (mem s3) (ring_at ring_map (p_cq_off_tail p)),
              cqes = cqes_at (mem s3) (ring_at ring_map (p_cq_off_cqes p)) (p_cq_entries p)\<rparr>, s3)))"

text \<open>\<open>__libuc_scheduler_ring_create\<close>.\<close>

definition libuc_scheduler_ring_create ::
    "('k, 'y) ring_kernel_scheme \<Rightarrow> u32 \<Rightarrow> ('k, 'z) machine_scheme \<Rightarrow> scheduler_ring option \<times> ('k, 'z) machine_scheme" where
  "libuc_scheduler_ring_create K entries s =
     (case k_setup K entries setup_flags (kern s) of (d, p, k1) \<Rightarrow>
      let s1 = s\<lparr>kern := k1\<rparr> in
      if libuc_syscall_failed d then (None, s1)
      else if p_features p AND IORING_FEAT_SINGLE_MMAP = 0 then (None, s1)
      else case ring_lengths p of None \<Rightarrow> (None, s1) | Some (ring_length, sqes_length) \<Rightarrow>
      (case mmap_ring K ring_length (ucast d) IORING_OFF_SQ_RING s1 of (ring_map, s2) \<Rightarrow>
       if libuc_syscall_failed ring_map then (None, s2)
       else case mmap_ring K sqes_length (ucast d) IORING_OFF_SQES s2 of (sqes_map, s3) \<Rightarrow>
       if libuc_syscall_failed sqes_map then (None, snd (munmap_range K ring_map ring_length s3))
       else
         let mask = load32 (mem s3) (ring_at ring_map (p_cq_off_ring_mask p)) in
         if mask \<noteq> p_cq_entries p - 1
         then (None, snd (munmap_range K sqes_map sqes_length
                       (snd (munmap_range K ring_map ring_length s3))))
         else
           (Some \<lparr>ring_mapping = ring_map, ring_mapping_length = ring_length,
              sqes_ptr = ring_at sqes_map 0, sqes_mapping_length = sqes_length,
              cq_head_ptr = ring_at ring_map (p_cq_off_head p),
              cq_tail_ptr = ring_at ring_map (p_cq_off_tail p),
              cqes_ptr = ring_at ring_map (p_cq_off_cqes p),
              descriptor = ucast d, sq_entries = p_sq_entries p, cq_entries = p_cq_entries p,
              cq_mask = mask, batch_count = 0,
              sqes = sqes_at (mem s3) (ring_at sqes_map 0) (p_sq_entries p),
              cq_head = load32 (mem s3) (ring_at ring_map (p_cq_off_head p)),
              cq_tail = load32 (mem s3) (ring_at ring_map (p_cq_off_tail p)),
              cqes = cqes_at (mem s3) (ring_at ring_map (p_cq_off_cqes p)) (p_cq_entries p)\<rparr>, s3)))"

lemma scheduler_ring_create_same: "libuc_scheduler_ring_create K entries s = libuc_ring_create K entries s"
  by (simp only: libuc_scheduler_ring_create_def libuc_ring_create_def)

section \<open>Appending\<close>

text \<open>The slot is returned as its index: \<open>&ring->sqes[index]\<close>. \<open>None\<close> is the null pointer.\<close>

definition libuc_ring_append_sqe :: "ring \<Rightarrow> (u32 option \<times> ring) outcome" where
  "libuc_ring_append_sqe r =
     (if batch_count r = sq_entries r then Done (None, r)
      else if unat (batch_count r) < length (sqes r)
      then Done (Some (batch_count r),
             r\<lparr>sqes := (sqes r)[unat (batch_count r) := zero_sqe], batch_count := batch_count r + 1\<rparr>)
      else Fault)"

definition libuc_scheduler_ring_append :: "scheduler_ring \<Rightarrow> (u32 option \<times> scheduler_ring) outcome" where
  "libuc_scheduler_ring_append r =
     (if batch_count r = sq_entries r then Done (None, r)
      else if unat (batch_count r) < length (sqes r)
      then Done (Some (batch_count r),
             r\<lparr>sqes := (sqes r)[unat (batch_count r) := zero_sqe], batch_count := batch_count r + 1\<rparr>)
      else Fault)"

section \<open>Submitting\<close>

definition ring_enter ::
    "('k, 'y) ring_kernel_scheme \<Rightarrow> u32 \<Rightarrow> ring \<Rightarrow> 'k \<Rightarrow> i64 \<times> ring \<times> 'k" where
  "ring_enter K min_complete r k =
     (case k_enter K (descriptor r) (batch_count r) min_complete IORING_ENTER_GETEVENTS (sqes r)
             (cq_head r) (cq_tail r) (cqes r) k of
        (result, tail', cqes', k') \<Rightarrow> (result, r\<lparr>cq_tail := tail', cqes := cqes'\<rparr>, k'))"

text \<open>
  \<open>memmove(sqes, &sqes[submitted], (batch_count - submitted) * sizeof(*sqes))\<close> on the array of
  entries; the subtraction is at 32 bits.
\<close>

definition sqes_memmove :: "u32 \<Rightarrow> u32 \<Rightarrow> sqe list \<Rightarrow> sqe list option" where
  "sqes_memmove submitted batch xs =
     (let n = unat (batch - submitted) in
      if unat submitted + n \<le> length xs then Some (take n (drop (unat submitted) xs) @ drop n xs) else None)"

partial_function (option) libuc_ring_submit ::
    "('k, 'y) ring_kernel_scheme \<Rightarrow> u32 \<Rightarrow> ring \<Rightarrow> 'k \<Rightarrow> (i64 \<times> ring \<times> 'k) run" where
  "libuc_ring_submit K min_complete r k =
     (case ring_enter K min_complete r k of (result, r1, k1) \<Rightarrow>
      if result = minus_EINTR then libuc_ring_submit K min_complete r1 k1
      else if libuc_syscall_failed result then ret (result, r1, k1)
      else if (ucast result :: u32) = batch_count r1 then ret (result, r1\<lparr>batch_count := 0\<rparr>, k1)
      else case sqes_memmove (ucast result) (batch_count r1) (sqes r1) of
        None \<Rightarrow> Some Fault
      | Some xs \<Rightarrow> libuc_ring_submit K min_complete
                     (r1\<lparr>sqes := xs, batch_count := batch_count r1 - ucast result\<rparr>) k1)"

text \<open>The loop of \<open>shift_unsubmitted\<close>; indices are 32-bit.\<close>

function shift_from :: "u32 \<Rightarrow> u32 \<Rightarrow> u32 \<Rightarrow> sqe list \<Rightarrow> sqe list option" where
  "shift_from submitted remaining index xs =
     (if index < remaining
      then if unat index < length xs \<and> unat (submitted + index) < length xs
           then shift_from submitted remaining (index + 1) (xs[unat index := xs ! unat (submitted + index)])
           else None
      else Some xs)"
  by auto
termination
  by (relation "measure (\<lambda>(s, r, i, xs). unat r - unat i)")
    (auto simp: unat_Suc_less word_less_nat_alt)

declare shift_from.simps [simp del]

definition shift_unsubmitted :: "ring \<Rightarrow> u32 \<Rightarrow> ring option" where
  "shift_unsubmitted r submitted =
     (let remaining = batch_count r - submitted in
      case shift_from submitted remaining 0 (sqes r) of
        None \<Rightarrow> None
      | Some xs \<Rightarrow> Some (r\<lparr>sqes := xs, batch_count := remaining\<rparr>))"

partial_function (option) libuc_scheduler_ring_submit ::
    "('k, 'y) ring_kernel_scheme \<Rightarrow> u32 \<Rightarrow> scheduler_ring \<Rightarrow> 'k \<Rightarrow> (i64 \<times> scheduler_ring \<times> 'k) run" where
  "libuc_scheduler_ring_submit K min_complete r k =
     (case ring_enter K min_complete r k of (result, r1, k1) \<Rightarrow>
      if result = minus_EINTR then libuc_scheduler_ring_submit K min_complete r1 k1
      else if libuc_syscall_failed result then ret (result, r1, k1)
      else if (ucast result :: u32) = batch_count r1 then ret (result, r1\<lparr>batch_count := 0\<rparr>, k1)
      else case shift_unsubmitted r1 (ucast result) of
        None \<Rightarrow> Some Fault
      | Some r2 \<Rightarrow> libuc_scheduler_ring_submit K min_complete r2 k1)"

section \<open>Reaping\<close>

definition libuc_ring_reap :: "ring \<Rightarrow> (cqe option \<times> ring) outcome" where
  "libuc_ring_reap r =
     (let head = cq_head r; tail = cq_tail r in
      if head = tail then Done (None, r)
      else let i = unat (head AND cq_mask r) in
        if i < length (cqes r) then Done (Some (cqes r ! i), r\<lparr>cq_head := head + 1\<rparr>) else Fault)"

definition libuc_scheduler_ring_reap :: "scheduler_ring \<Rightarrow> (cqe option \<times> scheduler_ring) outcome" where
  "libuc_scheduler_ring_reap r =
     (let head = cq_head r; tail = cq_tail r in
      if head = tail then Done (None, r)
      else let i = unat (head AND cq_mask r) in
        if i < length (cqes r) then Done (Some (cqes r ! i), r\<lparr>cq_head := head + 1\<rparr>) else Fault)"

section \<open>Well-formed rings\<close>

text \<open>The entries written since the last enter, and the completions posted and not yet reaped.\<close>

definition sq_batch :: "ring \<Rightarrow> sqe list" where
  "sq_batch r = take (unat (batch_count r)) (sqes r)"

definition cq_view :: "u32 \<Rightarrow> u32 \<Rightarrow> cqe list \<Rightarrow> cqe list" where
  "cq_view head tail cs = map (\<lambda>i. cs ! (unat (head + of_nat i) mod length cs)) [0..<unat (tail - head)]"

definition cq_pending :: "ring \<Rightarrow> cqe list" where
  "cq_pending r = cq_view (cq_head r) (cq_tail r) (cqes r)"

definition ring_wf :: "ring \<Rightarrow> bool" where
  "ring_wf r \<longleftrightarrow> length (sqes r) = unat (sq_entries r) \<and> 0 < sq_entries r \<and> batch_count r \<le> sq_entries r \<and>
     length (cqes r) = unat (cq_entries r) \<and> (\<exists>k < 32. cq_entries r = 2 ^ k) \<and> cq_mask r = cq_entries r - 1 \<and>
     unat (cq_tail r - cq_head r) \<le> length (cqes r)"

lemma length_sq_batch [simp]: "ring_wf r \<Longrightarrow> length (sq_batch r) = unat (batch_count r)"
  by (simp add: ring_wf_def sq_batch_def word_le_nat_alt)

lemma ring_wf_batch_le: "ring_wf r \<Longrightarrow> unat (batch_count r) \<le> length (sqes r)"
  by (simp add: ring_wf_def word_le_nat_alt)

lemma and_mask_u32:
  fixes w :: u32
  assumes "k < 32"
  shows "unat (w AND (2 ^ k - 1)) = unat w mod 2 ^ k"
proof -
  have "w AND (2 ^ k - 1) = take_bit k w"
    by (simp only: take_bit_eq_mask mask_eq_exp_minus_1)
  then show ?thesis by (simp only: unsigned_take_bit_eq) (simp only: take_bit_eq_mod)
qed

lemma unat_pow2_u32: "k < 32 \<Longrightarrow> unat (2 ^ k :: u32) = 2 ^ k"
proof -
  assume k: "k < 32"
  have "(2 ^ k :: nat) < 2 ^ 32" using k by (intro power_strict_increasing) auto
  moreover have "(2 ^ k :: u32) = of_nat (2 ^ k)" by simp
  ultimately show ?thesis by (simp only: unat_of_nat) simp
qed

lemma ring_wf_index:
  assumes "ring_wf r"
  shows "unat (w AND cq_mask r) = unat w mod length (cqes r)" and "0 < length (cqes r)"
proof -
  obtain k where "k < 32" "cq_entries r = 2 ^ k" using assms by (auto simp: ring_wf_def)
  moreover have "unat (2 ^ k :: u32) = 2 ^ k" using \<open>k < 32\<close> by (rule unat_pow2_u32)
  ultimately show "unat (w AND cq_mask r) = unat w mod length (cqes r)" "0 < length (cqes r)"
    using assms by (simp_all add: ring_wf_def and_mask_u32)
qed

section \<open>What the kernel promises of the ring\<close>

text \<open>
  How completions relate to operations in flight: a completion is for an operation in flight, and
  takes it out of flight unless its flags announce that more will follow.
\<close>

definition IORING_CQE_F_MORE :: u32 where "IORING_CQE_F_MORE = 2"

definition last_completion :: "cqe \<Rightarrow> bool" where
  "last_completion c \<longleftrightarrow> cq_flags c AND IORING_CQE_F_MORE = 0"

inductive posts :: "u64 multiset \<Rightarrow> cqe list \<Rightarrow> u64 multiset \<Rightarrow> bool" where
  none: "posts M [] M"
| more: "\<not> last_completion c \<Longrightarrow> cq_user_data c \<in># M \<Longrightarrow> posts M cs M' \<Longrightarrow> posts M (c # cs) M'"
| last: "last_completion c \<Longrightarrow> posts M cs M' \<Longrightarrow> posts (add_mset (cq_user_data c) M) (c # cs) M'"

inductive_simps posts_Nil [simp]: "posts M [] M'"
inductive_simps posts_Cons: "posts M (c # cs) M'"

lemma posts_empty [simp]: "posts {#} cs M \<longleftrightarrow> cs = [] \<and> M = {#}"
  by (cases cs) (auto simp: posts_Cons)

lemma posts_add: "posts M cs M' \<Longrightarrow> posts (M + T) cs (M' + T)"
  by (induction rule: posts.induct) (auto intro: posts.intros)

lemma posts_append: "posts M xs M1 \<Longrightarrow> posts M1 ys M2 \<Longrightarrow> posts M (xs @ ys) M2"
  by (induction rule: posts.induct) (auto intro: posts.intros)

lemma posts_chain:
  assumes "posts (a + b) p c" "posts (c + d) p' e"
  shows "posts (a + (b + d)) (p @ p') e"
  using posts_append [OF posts_add [OF assms(1), of d] assms(2)] by (simp add: add.assoc)

lemma posts_size: "posts M cs M' \<Longrightarrow> size M \<le> size M' + length cs"
  by (induction rule: posts.induct) auto

lemma posts_single:
  assumes "\<forall>c \<in> set cs. last_completion c"
  shows "posts M cs M' \<longleftrightarrow> M = M' + mset (map cq_user_data cs)"
  using assms by (induction cs arbitrary: M) (auto simp: posts_Cons)

text \<open>
  Views of the kernel's state: the mapped addresses, the entries it has accepted so far in order,
  the operations in flight by their \<open>user_data\<close>, how many more times a wait can be interrupted before
  it is not; and which completions the operations given to the ring can have.
\<close>

record 'k kernel_view =
  v_mapped :: "'k \<Rightarrow> u64 set"
  v_accepted :: "'k \<Rightarrow> sqe list"
  v_inflight :: "'k \<Rightarrow> u64 multiset"
  v_patience :: "'k \<Rightarrow> nat"
  v_posts :: "cqe \<Rightarrow> bool"

text \<open>
  \<open>io_uring_enter(2)\<close> with the flags of this library: a failure accepts nothing; a success returns
  how many entries were accepted, from slot zero on, at least one when any was offered (what the
  comment in \<open>__libuc_ring_submit\<close> derives); completions are appended to the completion queue, never
  more than it holds, each for an operation in flight, and entries not yet reaped stay. No mapping
  changes.
\<close>

definition enter_ok :: "'k kernel_view \<Rightarrow> ('k, 'y) ring_kernel_scheme \<Rightarrow> bool" where
  "enter_ok V K \<longleftrightarrow> (\<forall>d n minc sq head tail cs k r tail' cs' k'.
     k_enter K d n minc IORING_ENTER_GETEVENTS sq head tail cs k = (r, tail', cs', k') \<longrightarrow>
     unat n \<le> length sq \<longrightarrow> unat (tail - head) \<le> length cs \<longrightarrow> (\<exists>j < 32. length cs = 2 ^ j) \<longrightarrow>
     (let taken = (if libuc_syscall_failed r then [] else take (unat r) sq) in
      (libuc_syscall_failed r \<or> (unat r \<le> unat n \<and> (n \<noteq> 0 \<longrightarrow> r \<noteq> 0))) \<and>
      (r = minus_EINTR \<longrightarrow> v_patience V k' < v_patience V k) \<and>
      v_mapped V k' = v_mapped V k \<and>
      v_accepted V k' = v_accepted V k @ taken \<and>
      length cs' = length cs \<and> unat (tail' - head) \<le> length cs \<and>
      (\<exists>posted. cq_view head tail' cs' = cq_view head tail cs @ posted \<and>
         posts (v_inflight V k + mset (map sq_user_data taken)) posted (v_inflight V k') \<and>
         (\<forall>c \<in> set posted. v_posts V c))))"

lemma ring_enter_ok:
  assumes ok: "enter_ok V K" and wf: "ring_wf r" and e: "ring_enter K minc r k = (result, r1, k1)"
  defines "taken \<equiv> if libuc_syscall_failed result then [] else take (unat result) (sqes r)"
  shows "ring_wf r1" "sqes r1 = sqes r" "batch_count r1 = batch_count r" "sq_entries r1 = sq_entries r"
    "cq_entries r1 = cq_entries r"
    "\<not> libuc_syscall_failed result \<Longrightarrow> unat result \<le> unat (batch_count r)"
    "\<not> libuc_syscall_failed result \<Longrightarrow> batch_count r \<noteq> 0 \<Longrightarrow> result \<noteq> 0"
    "result = minus_EINTR \<Longrightarrow> v_patience V k1 < v_patience V k"
    "v_mapped V k1 = v_mapped V k" "v_accepted V k1 = v_accepted V k @ taken"
    "\<exists>posted. cq_pending r1 = cq_pending r @ posted \<and>
       posts (v_inflight V k + mset (map sq_user_data taken)) posted (v_inflight V k1) \<and>
       (\<forall>c \<in> set posted. v_posts V c)"
proof -
  obtain tail' cs' where k: "k_enter K (descriptor r) (batch_count r) minc IORING_ENTER_GETEVENTS (sqes r)
      (cq_head r) (cq_tail r) (cqes r) k = (result, tail', cs', k1)"
    and r1: "r1 = r\<lparr>cq_tail := tail', cqes := cs'\<rparr>"
    using e by (auto simp: ring_enter_def split: prod.splits)
  have l: "unat (cq_tail r - cq_head r) \<le> length (cqes r)" "\<exists>j < 32. length (cqes r) = 2 ^ j"
    using wf unat_pow2_u32 by (auto simp: ring_wf_def)
  note c = ok [unfolded enter_ok_def, rule_format, OF k ring_wf_batch_le [OF wf] l,
      unfolded Let_def, folded taken_def]
  from c wf show "ring_wf r1" "sqes r1 = sqes r" "batch_count r1 = batch_count r" "sq_entries r1 = sq_entries r"
    "cq_entries r1 = cq_entries r" "v_mapped V k1 = v_mapped V k" "v_accepted V k1 = v_accepted V k @ taken"
    by (simp_all add: r1 ring_wf_def)
  show "\<not> libuc_syscall_failed result \<Longrightarrow> unat result \<le> unat (batch_count r)"
    "\<not> libuc_syscall_failed result \<Longrightarrow> batch_count r \<noteq> 0 \<Longrightarrow> result \<noteq> 0"
    "result = minus_EINTR \<Longrightarrow> v_patience V k1 < v_patience V k"
    using c by blast+
  show "\<exists>posted. cq_pending r1 = cq_pending r @ posted \<and>
       posts (v_inflight V k + mset (map sq_user_data taken)) posted (v_inflight V k1) \<and>
       (\<forall>c \<in> set posted. v_posts V c)"
    using c by (simp add: cq_pending_def r1)
qed

section \<open>Submission\<close>

text \<open>
  The bookkeeping every ring operation keeps: the entries added to the batch (\<open>new\<close>) and those
  that left it for the kernel are accounted for in order, completions only ever join the end of
  the completion queue, and every operation accepted is in flight or completed.
\<close>

definition ring_step :: "'k kernel_view \<Rightarrow> sqe list \<Rightarrow> ring \<Rightarrow> 'k \<Rightarrow> ring \<Rightarrow> 'k \<Rightarrow> bool" where
  "ring_step V new r k r' k' \<longleftrightarrow> ring_wf r' \<and> sq_entries r' = sq_entries r \<and> cq_entries r' = cq_entries r \<and>
     v_mapped V k' = v_mapped V k \<and>
     (\<exists>taken posted. sq_batch r @ new = taken @ sq_batch r' \<and> v_accepted V k' = v_accepted V k @ taken \<and>
        cq_pending r' = cq_pending r @ posted \<and>
        posts (v_inflight V k + mset (map sq_user_data taken)) posted (v_inflight V k') \<and>
        (\<forall>c \<in> set posted. v_posts V c))"

lemma ring_step_trans:
  assumes "ring_step V new r k r1 k1" "ring_step V new' r1 k1 r2 k2"
  shows "ring_step V (new @ new') r k r2 k2"
proof -
  obtain t p where 1: "sq_batch r @ new = t @ sq_batch r1" "v_accepted V k1 = v_accepted V k @ t"
    "cq_pending r1 = cq_pending r @ p" "\<forall>c \<in> set p. v_posts V c"
    "posts (v_inflight V k + mset (map sq_user_data t)) p (v_inflight V k1)"
    using assms(1) by (auto simp: ring_step_def)
  obtain t' p' where 2: "sq_batch r1 @ new' = t' @ sq_batch r2" "v_accepted V k2 = v_accepted V k1 @ t'"
    "cq_pending r2 = cq_pending r1 @ p'" "\<forall>c \<in> set p'. v_posts V c"
    "posts (v_inflight V k1 + mset (map sq_user_data t')) p' (v_inflight V k2)"
    using assms(2) by (auto simp: ring_step_def)
  have "sq_batch r @ new @ new' = (t @ t') @ sq_batch r2" using 1(1) 2(1) by (metis append.assoc)
  moreover have "posts (v_inflight V k + mset (map sq_user_data (t @ t'))) (p @ p') (v_inflight V k2)"
    using posts_chain [OF 1(5) 2(5)] by simp
  ultimately show ?thesis
    using assms 1 2 unfolding ring_step_def
    by (intro conjI exI [of _ "t @ t'"] exI [of _ "p @ p'"]) auto
qed

lemma ring_enter_step:
  assumes "enter_ok V K" "ring_wf r" "ring_enter K minc r k = (result, r1, k1)" "libuc_syscall_failed result"
  shows "ring_step V [] r k r1 k1"
  using ring_enter_ok [OF assms(1-3)] assms(4) by (auto simp: ring_step_def sq_batch_def)

text \<open>Dropping the accepted entries: the remainder moves to slot zero.\<close>

definition memmove_unsubmitted :: "ring \<Rightarrow> u32 \<Rightarrow> ring option" where
  "memmove_unsubmitted r submitted =
     map_option (\<lambda>xs. r\<lparr>sqes := xs, batch_count := batch_count r - submitted\<rparr>)
       (sqes_memmove submitted (batch_count r) (sqes r))"

lemma memmove_remainder:
  assumes "ring_wf r" "n \<le> batch_count r"
  obtains xs where "memmove_unsubmitted r n = Some (r\<lparr>sqes := xs, batch_count := batch_count r - n\<rparr>)"
    "length xs = length (sqes r)" "take (unat (batch_count r) - unat n) xs = drop (unat n) (sq_batch r)"
    "unat (batch_count r - n) = unat (batch_count r) - unat n"
proof -
  have u: "unat (batch_count r - n) = unat (batch_count r) - unat n" "unat n \<le> unat (batch_count r)"
    using assms(2) by (simp_all add: unat_sub word_le_nat_alt)
  then show ?thesis
    using ring_wf_batch_le [OF assms(1)]
    by (intro that [of "take (unat (batch_count r) - unat n) (drop (unat n) (sqes r)) @
          drop (unat (batch_count r) - unat n) (sqes r)"])
      (auto simp: memmove_unsubmitted_def sqes_memmove_def Let_def sq_batch_def drop_take min_def)
qed

lemma ring_shift_step:
  assumes ok: "enter_ok V K" and wf: "ring_wf r" and e: "ring_enter K minc r k = (result, r1, k1)"
    and s: "\<not> libuc_syscall_failed result"
  obtains r2 where "memmove_unsubmitted r1 (ucast result) = Some r2" "ring_step V [] r k r2 k1"
    "unat (ucast result :: u32) = unat result" "unat result \<le> unat (batch_count r1)"
    "unat (batch_count r2) = unat (batch_count r) - unat result"
proof -
  note c = ring_enter_ok [OF ok wf e]
  have le: "unat result \<le> unat (batch_count r1)" using c s by simp
  note u = unat_ucast_u32 [OF le]
  have "(ucast result :: u32) \<le> batch_count r1" using le u by (simp add: word_le_nat_alt)
  from memmove_remainder [OF c(1) this, unfolded u] obtain xs where
    m: "memmove_unsubmitted r1 (ucast result) = Some (r1\<lparr>sqes := xs, batch_count := batch_count r1 - ucast result\<rparr>)"
    and xs: "length xs = length (sqes r1)"
      "take (unat (batch_count r1) - unat result) xs = drop (unat result) (sq_batch r1)"
    and n: "unat (batch_count r1 - ucast result) = unat (batch_count r1) - unat result"
    by blast
  let ?r2 = "r1\<lparr>sqes := xs, batch_count := batch_count r1 - ucast result\<rparr>"
  have "sq_batch r1 = take (unat result) (sqes r) @ sq_batch ?r2"
    using xs(2) le c(2) append_take_drop_id [of "unat result" "sq_batch r1"]
    by (simp add: sq_batch_def n min_def)
  moreover have "ring_wf ?r2" using c(1) xs(1) n by (auto simp: ring_wf_def word_le_nat_alt)
  moreover have "sq_batch r1 = sq_batch r" using c by (simp add: sq_batch_def)
  ultimately have "ring_step V [] r k ?r2 k1"
    using c s by (simp add: ring_step_def cq_pending_def)
  with m u le n c(3) show ?thesis by (intro that [of ?r2]) simp_all
qed

lemma failed_EINTR [simp]: "libuc_syscall_failed minus_EINTR"
  using sint_of_neg_nat [of 4] by (simp add: libuc_syscall_failed_def minus_EINTR_def)

text \<open>
  Induction over the passes of the submission loop: an interrupted pass uses up patience, a short
  pass shrinks the batch, every other pass ends the loop.
\<close>

lemma submit_induct [consumes 2, case_names interrupted failed whole short]:
  assumes ok: "enter_ok V K" and wf: "ring_wf r"
    and interrupted: "\<And>r k r1 k1. ring_wf r \<Longrightarrow> ring_enter K minc r k = (minus_EINTR, r1, k1) \<Longrightarrow>
      ring_step V [] r k r1 k1 \<Longrightarrow> P r1 k1 \<Longrightarrow> P r k"
    and failed: "\<And>r k result r1 k1. ring_wf r \<Longrightarrow> ring_enter K minc r k = (result, r1, k1) \<Longrightarrow>
      result \<noteq> minus_EINTR \<Longrightarrow> libuc_syscall_failed result \<Longrightarrow> ring_step V [] r k r1 k1 \<Longrightarrow> P r k"
    and whole: "\<And>r k result r1 k1. ring_wf r \<Longrightarrow> ring_enter K minc r k = (result, r1, k1) \<Longrightarrow>
      \<not> libuc_syscall_failed result \<Longrightarrow> (ucast result :: u32) = batch_count r1 \<Longrightarrow>
      ring_step V [] r k (r1\<lparr>batch_count := 0\<rparr>) k1 \<Longrightarrow> P r k"
    and short: "\<And>r k result r1 k1 r2. ring_wf r \<Longrightarrow> ring_enter K minc r k = (result, r1, k1) \<Longrightarrow>
      \<not> libuc_syscall_failed result \<Longrightarrow> (ucast result :: u32) \<noteq> batch_count r1 \<Longrightarrow> ring_wf r1 \<Longrightarrow>
      (ucast result :: u32) \<le> batch_count r1 \<Longrightarrow> memmove_unsubmitted r1 (ucast result) = Some r2 \<Longrightarrow>
      ring_step V [] r k r2 k1 \<Longrightarrow> P r2 k1 \<Longrightarrow> P r k"
  shows "P r k"
  using wf
proof (induction "(unat (batch_count r), v_patience V k)" arbitrary: r k
    rule: wf_induct_rule [OF wf_lex_prod [OF wf_less_than wf_less_than]])
  case 1
  obtain result r1 k1 where e: "ring_enter K minc r k = (result, r1, k1)" by (cases "ring_enter K minc r k")
  note c = ring_enter_ok [OF ok 1(2) e]
  show ?case
  proof (cases "libuc_syscall_failed result")
    case f: True
    note step = ring_enter_step [OF ok 1(2) e f]
    show ?thesis
    proof (cases "result = minus_EINTR")
      case True
      then have "P r1 k1" using c by (intro 1(1)) simp_all
      then show ?thesis using e step True by (intro interrupted [OF 1(2)]) simp_all
    qed (use failed [OF 1(2) e _ f step] in blast)
  next
    case s: False
    obtain r2 where m: "memmove_unsubmitted r1 (ucast result) = Some r2" and step: "ring_step V [] r k r2 k1"
      and u: "unat (ucast result :: u32) = unat result" "unat result \<le> unat (batch_count r1)"
        "unat (batch_count r2) = unat (batch_count r) - unat result"
      by (rule ring_shift_step [OF ok 1(2) e s])
    show ?thesis
    proof (cases "(ucast result :: u32) = batch_count r1")
      case True
      have "ring_step V [] r k (r1\<lparr>batch_count := 0\<rparr>) k1"
        using step m True by (auto simp: ring_step_def memmove_unsubmitted_def sqes_memmove_def Let_def
            sq_batch_def cq_pending_def ring_wf_def split: if_splits)
      then show ?thesis by (rule whole [OF 1(2) e s True])
    next
      case False
      have b: "batch_count r \<noteq> 0" using u False c(3) by (metis le_zero_eq unat_0 word_unat_eq_iff)
      then have "unat (batch_count r2) < unat (batch_count r)" using u c(7) [OF s] by (simp add: unat_gt_0)
      moreover have "ring_wf r2" using step by (simp add: ring_step_def)
      ultimately have "P r2 k1" by (intro 1(1)) simp_all
      moreover have "(ucast result :: u32) \<le> batch_count r1" using u by (simp add: word_le_nat_alt)
      ultimately show ?thesis by (intro short [OF 1(2) e s False c(1) _ m step])
    qed
  qed
qed

lemma ring_submit_unfold:
  "libuc_ring_submit K minc r k =
     (case ring_enter K minc r k of (result, r1, k1) \<Rightarrow>
      if result = minus_EINTR then libuc_ring_submit K minc r1 k1
      else if libuc_syscall_failed result then ret (result, r1, k1)
      else if (ucast result :: u32) = batch_count r1 then ret (result, r1\<lparr>batch_count := 0\<rparr>, k1)
      else case memmove_unsubmitted r1 (ucast result) of None \<Rightarrow> Some Fault
        | Some r2 \<Rightarrow> libuc_ring_submit K minc r2 k1)"
  by (subst libuc_ring_submit.simps)
    (auto simp: memmove_unsubmitted_def split: prod.splits option.splits)

lemma ring_submit_returns:
  assumes "enter_ok V K" "ring_wf r"
  shows "\<exists>result r' k'. libuc_ring_submit K minc r k = ret (result, r', k') \<and> result \<noteq> minus_EINTR \<and>
    ring_step V [] r k r' k' \<and> (libuc_syscall_failed result \<or> batch_count r' = 0)"
  using assms
proof (induction rule: submit_induct [where minc = minc])
  case (interrupted r k r1 k1)
  then show ?case using ring_step_trans [OF interrupted(3)] by (subst ring_submit_unfold) fastforce
next
  case (failed r k result r1 k1)
  then show ?case by (subst ring_submit_unfold) simp
next
  case (whole r k result r1 k1)
  then show ?case by (subst ring_submit_unfold) (auto simp: ring_step_def)
next
  case (short r k result r1 k1 r2)
  moreover have "result \<noteq> minus_EINTR" using short(3) by auto
  ultimately show ?case using ring_step_trans [OF short(8)] by (subst ring_submit_unfold) fastforce
qed

text \<open>
  Waiting: an enter that accepts everything it was offered returns with as many completions in the
  queue as it was asked to wait for, if as many operations were in flight or completed. A short one
  does not wait.
\<close>

definition enter_waits :: "'k kernel_view \<Rightarrow> ('k, 'y) ring_kernel_scheme \<Rightarrow> bool" where
  "enter_waits V K \<longleftrightarrow> (\<forall>d n minc sq head tail cs k r tail' cs' k'.
     k_enter K d n minc IORING_ENTER_GETEVENTS sq head tail cs k = (r, tail', cs', k') \<longrightarrow>
     unat n \<le> length sq \<longrightarrow> unat (tail - head) \<le> length cs \<longrightarrow> (\<exists>j < 32. length cs = 2 ^ j) \<longrightarrow>
     \<not> libuc_syscall_failed r \<longrightarrow> unat r = unat n \<longrightarrow>
     unat minc \<le> unat (tail - head) + size (v_inflight V k) + unat n \<longrightarrow> unat minc \<le> length cs \<longrightarrow>
     unat minc \<le> unat (tail' - head))"

text \<open>The operations a ring and the kernel hold never get fewer by submitting.\<close>

definition outstanding :: "'k kernel_view \<Rightarrow> ring \<Rightarrow> 'k \<Rightarrow> nat" where
  "outstanding V r k = length (sq_batch r) + size (v_inflight V k) + length (cq_pending r)"

lemma outstanding_step:
  assumes "ring_step V new r k r' k'"
  shows "outstanding V r k \<le> outstanding V r' k'"
proof -
  obtain t p where 1: "sq_batch r @ new = t @ sq_batch r'" "cq_pending r' = cq_pending r @ p"
    "posts (v_inflight V k + mset (map sq_user_data t)) p (v_inflight V k')"
    using assms by (auto simp: ring_step_def)
  have "length (sq_batch r) \<le> length t + length (sq_batch r')" using arg_cong [OF 1(1), of length] by simp
  then show ?thesis using posts_size [OF 1(3)] by (simp add: outstanding_def 1(2))
qed

lemma submit_waits:
  assumes "enter_ok V K" "ring_wf r" and W: "enter_waits V K"
  shows "libuc_ring_submit K minc r k = ret (result, r', k') \<Longrightarrow> \<not> libuc_syscall_failed result \<Longrightarrow>
    unat minc \<le> outstanding V r k \<Longrightarrow> unat minc \<le> unat (cq_entries r) \<Longrightarrow> unat minc \<le> length (cq_pending r')"
  using assms(1,2)
proof (induction rule: submit_induct [where minc = minc])
  case (interrupted r k r1 k1)
  have "libuc_ring_submit K minc r1 k1 = ret (result, r', k')"
    using interrupted(5) unfolding ring_submit_unfold [of K minc r k] by (simp add: interrupted(2))
  then show ?case
    using interrupted outstanding_step [OF interrupted(3)] by (auto simp: ring_step_def)
next
  case (failed r k res r1 k1)
  then show ?case unfolding ring_submit_unfold [of K minc r k] by simp
next
  case (whole r k res r1 k1)
  have ne: "res \<noteq> minus_EINTR" using whole(3) by auto
  then have e: "res = result" "r' = r1\<lparr>batch_count := 0\<rparr>"
    using whole(6) unfolding ring_submit_unfold [of K minc r k] by (simp_all add: whole(2-4))
  note c = ring_enter_ok [OF assms(1) whole(1,2)]
  obtain tail' cs' where k: "k_enter K (descriptor r) (batch_count r) minc IORING_ENTER_GETEVENTS (sqes r)
      (cq_head r) (cq_tail r) (cqes r) k = (res, tail', cs', k1)" and r1: "r1 = r\<lparr>cq_tail := tail', cqes := cs'\<rparr>"
    using whole(2) by (auto simp: ring_enter_def split: prod.splits)
  have wf: "unat (cq_tail r - cq_head r) \<le> length (cqes r)" "\<exists>j < 32. length (cqes r) = 2 ^ j"
    "unat (batch_count r) \<le> length (sqes r)" "length (cqes r) = unat (cq_entries r)"
    using whole(1) unat_pow2_u32 ring_wf_batch_le by (auto simp: ring_wf_def)
  have "unat res \<le> unat (batch_count r1)" using c(3,6) whole(3) by simp
  from unat_ucast_u32 [OF this] have "unat res = unat (batch_count r)" using whole(4) c(3) by simp
  moreover have "unat minc \<le> unat (cq_tail r - cq_head r) + size (v_inflight V k) + unat (batch_count r)"
    using whole(1,8) by (simp add: outstanding_def cq_pending_def cq_view_def)
  ultimately have "unat minc \<le> unat (tail' - cq_head r)"
    using W [unfolded enter_waits_def, rule_format, OF k wf(3,1,2) whole(3)] whole(9) wf(4) by simp
  then show ?case by (simp add: e r1 cq_pending_def cq_view_def)
next
  case (short r k res r1 k1 r2)
  then have "res \<noteq> minus_EINTR" by auto
  then have "libuc_ring_submit K minc r2 k1 = ret (result, r', k')"
    using short(10) unfolding ring_submit_unfold [of K minc r k] by (simp add: short(2,3,4,7))
  then show ?case
    using short outstanding_step [OF short(8)] by (auto simp: ring_step_def)
qed

text \<open>Any loop of this shape whose shift agrees with the reference is the same function.\<close>

locale ring_submit =
  fixes shift :: "ring \<Rightarrow> u32 \<Rightarrow> ring option"
    and submit :: "('k, 'y) ring_kernel_scheme \<Rightarrow> u32 \<Rightarrow> ring \<Rightarrow> 'k \<Rightarrow> (i64 \<times> ring \<times> 'k) run"
  assumes shift_reference: "ring_wf r \<Longrightarrow> n \<le> batch_count r \<Longrightarrow> shift r n = memmove_unsubmitted r n"
    and submit_unfold: "submit K minc r k =
      (case ring_enter K minc r k of (result, r1, k1) \<Rightarrow>
       if result = minus_EINTR then submit K minc r1 k1
       else if libuc_syscall_failed result then ret (result, r1, k1)
       else if (ucast result :: u32) = batch_count r1 then ret (result, r1\<lparr>batch_count := 0\<rparr>, k1)
       else case shift r1 (ucast result) of None \<Rightarrow> Some Fault | Some r2 \<Rightarrow> submit K minc r2 k1)"
begin

lemma submit_reference:
  assumes "enter_ok V K" "ring_wf r"
  shows "submit K minc r k = libuc_ring_submit K minc r k"
  using assms
proof (induction rule: submit_induct [where minc = minc])
  case (interrupted r k r1 k1)
  then show ?case by (subst submit_unfold, subst ring_submit_unfold) simp
next
  case (failed r k result r1 k1)
  then show ?case by (subst submit_unfold, subst ring_submit_unfold) simp
next
  case (whole r k result r1 k1)
  then show ?case by (subst submit_unfold, subst ring_submit_unfold) auto
next
  case (short r k result r1 k1 r2)
  then show ?case using shift_reference [OF short(5,6)] by (subst submit_unfold, subst ring_submit_unfold) auto
qed

end

subsection \<open>Both rings shift the same way\<close>

text \<open>The loop has copied the first \<open>index\<close> entries; the source of the rest is still untouched.\<close>

lemma shift_from_spec:
  assumes "unat submitted + unat remaining \<le> length xs" "length xs < 2 ^ 32" "index \<le> remaining"
  shows "shift_from submitted remaining index xs =
    Some (take (unat index) xs @ take (unat remaining - unat index) (drop (unat submitted + unat index) xs) @
      drop (unat remaining) xs)"
  using assms
proof (induction submitted remaining index xs rule: shift_from.induct)
  case (1 submitted remaining index xs)
  show ?case
  proof (cases "index < remaining")
    case True
    let ?s = "unat submitted" and ?n = "unat remaining" and ?i = "unat index"
    have i: "?i < ?n" using True by (simp add: word_less_nat_alt)
    have si: "unat (submitted + index) = ?s + ?i"
      using 1(2,3) i by (subst unat_add_lem [THEN iffD1]) auto
    have bounds: "?i < length xs" "?s + ?i < length xs" using 1(2) i by linarith+
    let ?ys = "xs[?i := xs ! (?s + ?i)]"
    have suc: "unat (index + 1) = Suc ?i" using True by (rule unat_Suc_less)
    have "index + 1 \<le> remaining" using i by (simp add: word_le_nat_alt suc)
    then have "shift_from submitted remaining (index + 1) ?ys =
      Some (take (Suc ?i) ?ys @ take (?n - Suc ?i) (drop (?s + Suc ?i) ?ys) @ drop ?n ?ys)"
      using 1(1) [OF True] 1(2,3) bounds by (simp add: suc si)
    moreover have "take (Suc ?i) ?ys = take ?i xs @ [xs ! (?s + ?i)]"
      using bounds by (simp add: take_Suc_conv_app_nth)
    moreover have "take (?n - ?i) (drop (?s + ?i) xs) =
        xs ! (?s + ?i) # take (?n - Suc ?i) (drop (?s + Suc ?i) xs)"
      using bounds i by (simp add: Cons_nth_drop_Suc [symmetric] Suc_diff_Suc [symmetric])
    moreover have "drop ?n ?ys = drop ?n xs" "drop (?s + Suc ?i) ?ys = drop (?s + Suc ?i) xs"
      using i by simp_all
    ultimately show ?thesis
      using True bounds by (subst shift_from.simps) (simp add: si)
  next
    case False
    then have "index = remaining" using 1(4) by simp
    then show ?thesis by (subst shift_from.simps) simp
  qed
qed

lemma shift_reference:
  assumes "n \<le> batch_count r" "unat (batch_count r) \<le> length (sqes r)" "length (sqes r) < 2 ^ 32"
  shows "shift_unsubmitted r n = memmove_unsubmitted r n"
proof -
  have u: "unat (batch_count r - n) = unat (batch_count r) - unat n" "unat n \<le> unat (batch_count r)"
    using assms(1) by (simp_all add: unat_sub word_le_nat_alt)
  then have l: "unat n + unat (batch_count r - n) \<le> length (sqes r)" using assms(2) by simp
  show ?thesis
    using shift_from_spec [OF l assms(3), of 0] l
    by (simp add: shift_unsubmitted_def memmove_unsubmitted_def sqes_memmove_def Let_def)
qed

interpretation ring: ring_submit memmove_unsubmitted libuc_ring_submit
  by unfold_locales (rule refl, rule ring_submit_unfold)

interpretation scheduler_ring: ring_submit shift_unsubmitted libuc_scheduler_ring_submit
proof unfold_locales
  fix r n assume "ring_wf r" "n \<le> batch_count r"
  then show "shift_unsubmitted r n = memmove_unsubmitted r n"
    using ring_wf_batch_le [of r] by (intro shift_reference) (simp_all add: ring_wf_def)
qed (rule libuc_scheduler_ring_submit.simps)

text \<open>The completion queue across the wrap-around of its 32-bit indices.\<close>

lemma unat_add_mod_pow2:
  fixes h :: u32
  assumes "j < 32"
  shows "unat (h + of_nat i) mod 2 ^ j = (unat h + i) mod 2 ^ j"
proof -
  have "(2 ^ j :: nat) dvd 2 ^ 32" using assms by (intro le_imp_power_dvd) simp
  then show ?thesis
    by (simp add: unat_word_ariths unat_of_nat mod_mod_cancel mod_add_right_eq)
qed

lemma cq_view_step:
  assumes j: "j < 32" "length cs = 2 ^ j" and n: "unat (tail - head) < length cs"
  shows "unat (tail + 1 - head) = Suc (unat (tail - head))"
    and "cq_view head (tail + 1) (cs[unat tail mod length cs := c]) = cq_view head tail cs @ [c]"
proof -
  let ?n = "unat (tail - head)"
  have "(2 ^ j :: nat) < 2 ^ 32" using j by (intro power_strict_increasing) auto
  then have "Suc ?n < 2 ^ 32" using n j by linarith
  moreover have "tail + 1 - head = (tail - head) + 1" by (simp add: algebra_simps)
  ultimately show suc: "unat (tail + 1 - head) = Suc ?n" by (simp only: unat_word_ariths) simp
  have tail: "head + of_nat ?n = tail" by simp
  have idx: "unat (head + of_nat i) mod length cs = (unat head + i) mod length cs" for i
    using unat_add_mod_pow2 [OF j(1)] by (simp add: j)
  have t: "unat tail mod length cs = (unat head + ?n) mod length cs"
    using idx [of ?n] by (simp only: tail)
  have "(unat head + ?n) mod length cs \<noteq> (unat head + i) mod length cs" if "i < ?n" for i
  proof
    assume "(unat head + ?n) mod length cs = (unat head + i) mod length cs"
    then have "length cs dvd (unat head + ?n) - (unat head + i)"
      using that by (subst mod_eq_dvd_iff_nat [symmetric]) auto
    then have "length cs dvd ?n - i" by simp
    then show False using that n nat_dvd_not_less [of "?n - i" "length cs"] by simp
  qed
  moreover have "0 < length cs" by (simp add: j)
  ultimately show "cq_view head (tail + 1) (cs[unat tail mod length cs := c]) = cq_view head tail cs @ [c]"
    by (simp add: cq_view_def suc t idx)
qed

section \<open>Appending and reaping\<close>

lemma append_full: "batch_count r = sq_entries r \<Longrightarrow> libuc_ring_append_sqe r = Done (None, r)"
  by (simp add: libuc_ring_append_sqe_def)

text \<open>Writing a whole entry into the slot just appended, as the callers do.\<close>

definition fill_slot :: "u32 \<Rightarrow> sqe \<Rightarrow> ring \<Rightarrow> ring" where
  "fill_slot i e r = r\<lparr>sqes := (sqes r)[unat i := e]\<rparr>"

lemma append_slot_bound:
  assumes "ring_wf r" "batch_count r \<noteq> sq_entries r" "libuc_ring_append_sqe r = Done (Some i, r')"
  shows "unat i < length (sqes r')" "i = batch_count r"
  using assms by (auto simp: libuc_ring_append_sqe_def split: if_splits)

lemma append_slot:
  assumes wf: "ring_wf r" and n: "batch_count r \<noteq> sq_entries r"
  shows "\<exists>r'. libuc_ring_append_sqe r = Done (Some (batch_count r), r') \<and>
    ring_step V [zero_sqe] r k r' k \<and> (\<forall>e. ring_step V [e] r k (fill_slot (batch_count r) e r') k)"
proof -
  have b: "batch_count r < sq_entries r" using wf n by (simp add: ring_wf_def order.strict_iff_order)
  have suc: "unat (batch_count r + 1) = Suc (unat (batch_count r))" by (rule unat_Suc_less [OF b])
  have l: "unat (batch_count r) < length (sqes r)" using wf b by (simp add: ring_wf_def word_less_nat_alt)
  let ?r = "r\<lparr>sqes := (sqes r)[unat (batch_count r) := zero_sqe], batch_count := batch_count r + 1\<rparr>"
  have batch: "sq_batch (fill_slot (batch_count r) x ?r) = sq_batch r @ [x]"
    "sq_batch ?r = sq_batch r @ [zero_sqe]" for x
    using l by (simp_all add: sq_batch_def fill_slot_def suc take_Suc_conv_app_nth)
  moreover have "ring_wf ?r" "ring_wf (fill_slot (batch_count r) x ?r)" for x
    using wf l b by (auto simp: ring_wf_def fill_slot_def word_le_nat_alt word_less_nat_alt suc)
  ultimately show ?thesis
    using n l by (auto simp: libuc_ring_append_sqe_def ring_step_def cq_pending_def fill_slot_def)
qed

lemma reap_pending:
  assumes wf: "ring_wf r"
  shows "libuc_ring_reap r = (case cq_pending r of [] \<Rightarrow> Done (None, r)
      | c # _ \<Rightarrow> Done (Some c, r\<lparr>cq_head := cq_head r + 1\<rparr>))"
    and "cq_pending r = c # cs \<Longrightarrow> cq_pending (r\<lparr>cq_head := cq_head r + 1\<rparr>) = cs"
    and "cq_pending r \<noteq> [] \<Longrightarrow> ring_wf (r\<lparr>cq_head := cq_head r + 1\<rparr>)"
proof -
  let ?n = "unat (cq_tail r - cq_head r)"
  have len: "length (cq_pending r) = ?n" by (simp add: cq_pending_def cq_view_def)
  have empty: "cq_pending r = [] \<longleftrightarrow> cq_head r = cq_tail r"
    by (auto simp: cq_pending_def cq_view_def unat_eq_0)
  have hd: "cq_pending r ! 0 = cqes r ! unat (cq_head r AND cq_mask r)" if "cq_pending r \<noteq> []"
    using that len ring_wf_index(1) [OF wf, of "cq_head r"]
    by (simp add: cq_pending_def cq_view_def)
  have i: "unat (cq_head r AND cq_mask r) < length (cqes r)"
    using ring_wf_index [OF wf] by simp
  show "libuc_ring_reap r = (case cq_pending r of [] \<Rightarrow> Done (None, r)
      | c # _ \<Rightarrow> Done (Some c, r\<lparr>cq_head := cq_head r + 1\<rparr>))"
    using hd i empty by (cases "cq_pending r") (auto simp: libuc_ring_reap_def Let_def)
  have pred: "unat (cq_tail r - (cq_head r + 1)) = ?n - 1" if "cq_pending r \<noteq> []"
  proof -
    have "cq_tail r - cq_head r \<noteq> 0" using that empty by simp
    from unat_pred_pos [OF this] show ?thesis by (simp add: algebra_simps)
  qed
  show "ring_wf (r\<lparr>cq_head := cq_head r + 1\<rparr>)" if "cq_pending r \<noteq> []"
    using wf pred [OF that] by (auto simp: ring_wf_def)
  assume c: "cq_pending r = c # cs"
  have "cq_pending (r\<lparr>cq_head := cq_head r + 1\<rparr>) =
      map (\<lambda>i. cqes r ! (unat (cq_head r + of_nat (Suc i)) mod length (cqes r))) [0..<?n - 1]"
    using c by (simp add: cq_pending_def [of "r\<lparr>cq_head := cq_head r + 1\<rparr>"] cq_view_def pred add.assoc)
  also have "\<dots> = map (\<lambda>i. cqes r ! (unat (cq_head r + of_nat i) mod length (cqes r))) (map Suc [0..<?n - 1])"
    by simp
  also have "map Suc [0..<?n - 1] = [1..<?n]"
    using len c by (subst map_Suc_upt) simp
  also have "map (\<lambda>i. cqes r ! (unat (cq_head r + of_nat i) mod length (cqes r))) [1..<?n] = tl (cq_pending r)"
    by (simp add: cq_pending_def cq_view_def map_tl [symmetric] tl_upt)
  finally have "cq_pending (r\<lparr>cq_head := cq_head r + 1\<rparr>) = tl (cq_pending r)" .
  then show "cq_pending (r\<lparr>cq_head := cq_head r + 1\<rparr>) = cs" by (simp add: c)
qed

lemma scheduler_ring_same [simp]:
  "libuc_scheduler_ring_append = libuc_ring_append_sqe" "libuc_scheduler_ring_reap = libuc_ring_reap"
  by (rule ext, simp add: libuc_scheduler_ring_append_def libuc_ring_append_sqe_def
      libuc_scheduler_ring_reap_def libuc_ring_reap_def)+

section \<open>Claiming a slot\<close>

text \<open>
  What both schedulers do to get a slot: append; on a full batch submit without waiting and append
  again; trap when the submission fails or there is still no slot.
\<close>

definition append_or_flush ::
    "(ring \<Rightarrow> (u32 option \<times> ring) outcome) \<Rightarrow> (u32 \<Rightarrow> ring \<Rightarrow> 'k \<Rightarrow> (i64 \<times> ring \<times> 'k) run) \<Rightarrow> ring \<Rightarrow> 'k \<Rightarrow>
     (u32 \<times> ring \<times> 'k) run" where
  "append_or_flush app submit r k =
     rbind (Some (app r)) (\<lambda>(slot, r1).
       case slot of
         Some i \<Rightarrow> ret (i, r1, k)
       | None \<Rightarrow>
           rbind (submit 0 r1 k) (\<lambda>(result, r2, k2).
             if libuc_syscall_failed result then Some Trap
             else rbind (Some (app r2)) (\<lambda>(slot, r3).
               case slot of None \<Rightarrow> Some Trap | Some i \<Rightarrow> ret (i, r3, k2))))"

text \<open>Under the kernel's contract a slot is always found, unless the submission itself failed.\<close>

context ring_submit
begin

lemma slot_claimed:
  assumes ok: "enter_ok V K" and wf: "ring_wf r"
  shows "(\<exists>result r' k'. submit K 0 r k = ret (result, r', k') \<and> libuc_syscall_failed result \<and>
      batch_count r = sq_entries r \<and> append_or_flush libuc_ring_append_sqe (submit K) r k = Some Trap) \<or>
    (\<exists>i r' k'. append_or_flush libuc_ring_append_sqe (submit K) r k = ret (i, r', k') \<and>
      unat i < length (sqes r') \<and> (\<forall>e. ring_step V [e] r k (fill_slot i e r') k'))"
proof (cases "batch_count r = sq_entries r")
  case False
  obtain r' where "libuc_ring_append_sqe r = Done (Some (batch_count r), r')"
    "\<forall>e. ring_step V [e] r k (fill_slot (batch_count r) e r') k"
    using append_slot [OF wf False, of V k] by auto
  with append_slot_bound(1) [OF wf False] show ?thesis by (simp add: append_or_flush_def)
next
  case True
  obtain result r1 k1 where s: "submit K 0 r k = ret (result, r1, k1)"
    and step: "ring_step V [] r k r1 k1" and e: "libuc_syscall_failed result \<or> batch_count r1 = 0"
    using ring_submit_returns [OF ok wf, of 0 k] submit_reference [OF ok wf, of 0 k] by auto
  show ?thesis
  proof (cases "libuc_syscall_failed result")
    case f: True
    then show ?thesis using True s by (simp add: append_or_flush_def append_full)
  next
    case False
    have wf1: "ring_wf r1" using step by (simp add: ring_step_def)
    have n: "batch_count r1 \<noteq> sq_entries r1" using e False wf1 by (auto simp: ring_wf_def)
    obtain r' where a: "libuc_ring_append_sqe r1 = Done (Some (batch_count r1), r')"
      "\<forall>e. ring_step V [e] r1 k1 (fill_slot (batch_count r1) e r') k1"
      using append_slot [OF wf1 n, of V k1] by auto
    have "\<forall>e. ring_step V [e] r k (fill_slot (batch_count r1) e r') k1"
      using a(2) ring_step_trans [OF step] by fastforce
    with a(1) append_slot_bound(1) [OF wf1 n] True s False show ?thesis
      by (simp add: append_or_flush_def append_full)
  qed
qed

end

end
