(* ===== verification/Uc_Context.thy ===== *)
theory Uc_Context
  imports Uc_Prelude
begin

text \<open>
  The context switch of \<open>src/arch/*/fiber_arch.h\<close>, instruction by instruction, on both
  architectures: \<open>fiber_switch\<close> saves the callee-saved registers, stack pointer and return
  address of the caller into one context and continues from another; \<open>fiber_start\<close> is where a
  context built by \<open>fiber_context_make\<close> begins. The generated code is shown to be a pair of pure
  functions, \<open>save\<close> and \<open>load\<close>, which the fiber model uses.

  Memory is a store of 8-byte cells: every access of this code is an aligned 8-byte access.
\<close>

type_synonym cells = "u64 \<Rightarrow> u64"

section \<open>x86-64\<close>

datatype x86_reg = RAX | RBX | RBP | RSP | RDI | RSI | RDX | R12 | R13 | R14 | R15

record x86_state =
  xr :: "x86_reg \<Rightarrow> u64"
  xip :: u64
  xmem :: cells

record x86_context =
  c_rbx :: u64
  c_rbp :: u64
  c_r12 :: u64
  c_r13 :: u64
  c_r14 :: u64
  c_r15 :: u64
  c_rsp :: u64
  c_rip :: u64

text \<open>\<open>offsetof\<close> of each field, in the order of the struct.\<close>

definition x86_context_at :: "cells \<Rightarrow> u64 \<Rightarrow> x86_context" where
  "x86_context_at m p = \<lparr>c_rbx = m p, c_rbp = m (p + 8), c_r12 = m (p + 16), c_r13 = m (p + 24),
     c_r14 = m (p + 32), c_r15 = m (p + 40), c_rsp = m (p + 48), c_rip = m (p + 56)\<rparr>"

datatype x86_instr =
    Store x86_reg u64 x86_reg    \<comment> \<open>\<open>movq %r, off(%b)\<close>\<close>
  | Load u64 x86_reg x86_reg     \<comment> \<open>\<open>movq off(%b), %r\<close>\<close>
  | Lea u64 x86_reg x86_reg      \<comment> \<open>\<open>leaq off(%b), %r\<close>\<close>
  | Mov x86_reg x86_reg          \<comment> \<open>\<open>movq %s, %d\<close>\<close>
  | JmpMem u64 x86_reg           \<comment> \<open>\<open>jmpq *off(%b)\<close>\<close>
  | JmpReg x86_reg               \<comment> \<open>\<open>jmpq *%r\<close>\<close>
  | ZeroReg x86_reg              \<comment> \<open>\<open>xorl %r, %r\<close>\<close>
  | PushZero                     \<comment> \<open>\<open>pushq $0\<close>\<close>

fun x86_step :: "x86_instr \<Rightarrow> x86_state \<Rightarrow> x86_state" where
  "x86_step (Store r off b) s = s\<lparr>xmem := (xmem s)(xr s b + off := xr s r)\<rparr>"
| "x86_step (Load off b r) s = s\<lparr>xr := (xr s)(r := xmem s (xr s b + off))\<rparr>"
| "x86_step (Lea off b r) s = s\<lparr>xr := (xr s)(r := xr s b + off)\<rparr>"
| "x86_step (Mov r d) s = s\<lparr>xr := (xr s)(d := xr s r)\<rparr>"
| "x86_step (JmpMem off b) s = s\<lparr>xip := xmem s (xr s b + off)\<rparr>"
| "x86_step (JmpReg r) s = s\<lparr>xip := xr s r\<rparr>"
| "x86_step (ZeroReg r) s = s\<lparr>xr := (xr s)(r := 0)\<rparr>"
| "x86_step PushZero s = s\<lparr>xr := (xr s)(RSP := xr s RSP - 8), xmem := (xmem s)(xr s RSP - 8 := 0)\<rparr>"

definition x86_64_fiber_switch :: "x86_instr list" where
  "x86_64_fiber_switch =
     [Store RBX 0 RDI, Store RBP 8 RDI, Store R12 16 RDI, Store R13 24 RDI, Store R14 32 RDI,
      Store R15 40 RDI, Load 0 RSP RAX, Store RAX 56 RDI, Lea 8 RSP RAX, Store RAX 48 RDI,
      Load 0 RSI RBX, Load 8 RSI RBP, Load 16 RSI R12, Load 24 RSI R13, Load 32 RSI R14,
      Load 40 RSI R15, Load 48 RSI RSP,
      Mov RDX RAX, JmpMem 56 RSI]"

definition x86_64_fiber_start :: "x86_instr list" where
  "x86_64_fiber_start = [ZeroReg RBP, PushZero, Mov R13 RDI, JmpReg R12]"

text \<open>\<open>fiber_context_make\<close>; \<open>start\<close> is the address of \<open>fiber_start\<close>.\<close>

definition x86_64_fiber_context_make :: "u64 \<Rightarrow> u64 \<Rightarrow> u64 \<Rightarrow> u64 \<Rightarrow> x86_context" where
  "x86_64_fiber_context_make start stack_top function argument =
     \<lparr>c_rbx = 0, c_rbp = 0, c_r12 = function, c_r13 = argument, c_r14 = 0, c_r15 = 0,
      c_rsp = stack_top AND NOT 15, c_rip = start\<rparr>"

definition x86_run :: "x86_instr list \<Rightarrow> x86_state \<Rightarrow> x86_state" where
  "x86_run is s = fold x86_step is s"

section \<open>AArch64\<close>

text \<open>General registers \<open>X n\<close>, vector registers' low halves \<open>D n\<close>, and the stack pointer.\<close>

datatype a64_reg = X nat | D nat | SP

record a64_state =
  ar :: "a64_reg \<Rightarrow> u64"
  apc :: u64
  amem :: cells

record a64_context =
  c_gp :: "u64 list"
  c_fp :: u64
  c_lr :: u64
  c_sp :: u64
  c_d :: "u64 list"

definition a64_context_at :: "cells \<Rightarrow> u64 \<Rightarrow> a64_context" where
  "a64_context_at m p = \<lparr>c_gp = map (\<lambda>i. m (p + 8 * of_nat i)) [0..<10], c_fp = m (p + 80), c_lr = m (p + 88),
     c_sp = m (p + 96), c_d = map (\<lambda>i. m (p + (104 + 8 * of_nat i))) [0..<8]\<rparr>"

datatype a64_instr =
    Stp a64_reg a64_reg a64_reg u64   \<comment> \<open>\<open>stp r1, r2, [b, #off]\<close>\<close>
  | Ldp a64_reg a64_reg a64_reg u64   \<comment> \<open>\<open>ldp r1, r2, [b, #off]\<close>\<close>
  | Str a64_reg a64_reg u64           \<comment> \<open>\<open>str r, [b, #off]\<close>\<close>
  | Ldr a64_reg a64_reg u64           \<comment> \<open>\<open>ldr r, [b, #off]\<close>\<close>
  | MovR a64_reg a64_reg              \<comment> \<open>\<open>mov d, s\<close>\<close>
  | MovZ a64_reg                      \<comment> \<open>\<open>mov d, xzr\<close>\<close>
  | Br a64_reg                        \<comment> \<open>\<open>br r\<close>; \<open>ret\<close> is \<open>br x30\<close>\<close>

fun a64_step :: "a64_instr \<Rightarrow> a64_state \<Rightarrow> a64_state" where
  "a64_step (Stp r1 r2 b off) s =
     s\<lparr>amem := (amem s)(ar s b + off := ar s r1, ar s b + (off + 8) := ar s r2)\<rparr>"
| "a64_step (Ldp r1 r2 b off) s =
     s\<lparr>ar := (ar s)(r1 := amem s (ar s b + off), r2 := amem s (ar s b + (off + 8)))\<rparr>"
| "a64_step (Str r b off) s = s\<lparr>amem := (amem s)(ar s b + off := ar s r)\<rparr>"
| "a64_step (Ldr r b off) s = s\<lparr>ar := (ar s)(r := amem s (ar s b + off))\<rparr>"
| "a64_step (MovR d r) s = s\<lparr>ar := (ar s)(d := ar s r)\<rparr>"
| "a64_step (MovZ d) s = s\<lparr>ar := (ar s)(d := 0)\<rparr>"
| "a64_step (Br r) s = s\<lparr>apc := ar s r\<rparr>"

definition aarch64_fiber_switch :: "a64_instr list" where
  "aarch64_fiber_switch =
     [Stp (X 19) (X 20) (X 0) 0, Stp (X 21) (X 22) (X 0) 16, Stp (X 23) (X 24) (X 0) 32,
      Stp (X 25) (X 26) (X 0) 48, Stp (X 27) (X 28) (X 0) 64, Stp (X 29) (X 30) (X 0) 80,
      MovR (X 3) SP, Str (X 3) (X 0) 96,
      Stp (D 8) (D 9) (X 0) 104, Stp (D 10) (D 11) (X 0) 120, Stp (D 12) (D 13) (X 0) 136,
      Stp (D 14) (D 15) (X 0) 152,
      Ldp (X 19) (X 20) (X 1) 0, Ldp (X 21) (X 22) (X 1) 16, Ldp (X 23) (X 24) (X 1) 32,
      Ldp (X 25) (X 26) (X 1) 48, Ldp (X 27) (X 28) (X 1) 64, Ldp (X 29) (X 30) (X 1) 80,
      Ldr (X 3) (X 1) 96, MovR SP (X 3),
      Ldp (D 8) (D 9) (X 1) 104, Ldp (D 10) (D 11) (X 1) 120, Ldp (D 12) (D 13) (X 1) 136,
      Ldp (D 14) (D 15) (X 1) 152,
      MovR (X 0) (X 2), Br (X 30)]"

definition aarch64_fiber_start :: "a64_instr list" where
  "aarch64_fiber_start = [MovZ (X 29), MovZ (X 30), MovR (X 0) (X 20), Br (X 19)]"

definition aarch64_fiber_context_make :: "u64 \<Rightarrow> u64 \<Rightarrow> u64 \<Rightarrow> u64 \<Rightarrow> a64_context" where
  "aarch64_fiber_context_make start stack_top function argument =
     \<lparr>c_gp = [function, argument, 0, 0, 0, 0, 0, 0, 0, 0], c_fp = 0, c_lr = start,
      c_sp = stack_top AND NOT 15, c_d = replicate 8 0\<rparr>"

definition a64_run :: "a64_instr list \<Rightarrow> a64_state \<Rightarrow> a64_state" where
  "a64_run is s = fold a64_step is s"

section \<open>The switch as save and load\<close>

definition x86_save :: "x86_state \<Rightarrow> x86_context" where
  "x86_save s = \<lparr>c_rbx = xr s RBX, c_rbp = xr s RBP, c_r12 = xr s R12, c_r13 = xr s R13, c_r14 = xr s R14,
     c_r15 = xr s R15, c_rsp = xr s RSP + 8, c_rip = xmem s (xr s RSP)\<rparr>"

definition x86_load :: "x86_context \<Rightarrow> u64 \<Rightarrow> x86_state \<Rightarrow> x86_state" where
  "x86_load c token s = s\<lparr>xr := (xr s)(RBX := c_rbx c, RBP := c_rbp c, R12 := c_r12 c, R13 := c_r13 c,
     R14 := c_r14 c, R15 := c_r15 c, RSP := c_rsp c, RAX := token), xip := c_rip c\<rparr>"

definition a64_save :: "a64_state \<Rightarrow> a64_context" where
  "a64_save s = \<lparr>c_gp = map (\<lambda>i. ar s (X (19 + i))) [0..<10], c_fp = ar s (X 29), c_lr = ar s (X 30), c_sp = ar s SP,
     c_d = map (\<lambda>i. ar s (D (8 + i))) [0..<8]\<rparr>"

definition a64_load :: "a64_context \<Rightarrow> u64 \<Rightarrow> a64_state \<Rightarrow> a64_state" where
  "a64_load c token s = s\<lparr>ar := (ar s)(
     X 19 := c_gp c ! 0, X 20 := c_gp c ! 1, X 21 := c_gp c ! 2, X 22 := c_gp c ! 3, X 23 := c_gp c ! 4,
     X 24 := c_gp c ! 5, X 25 := c_gp c ! 6, X 26 := c_gp c ! 7, X 27 := c_gp c ! 8, X 28 := c_gp c ! 9,
     X 29 := c_fp c, X 30 := c_lr c, X 3 := c_sp c, SP := c_sp c,
     D 8 := c_d c ! 0, D 9 := c_d c ! 1, D 10 := c_d c ! 2, D 11 := c_d c ! 3,
     D 12 := c_d c ! 4, D 13 := c_d c ! 5, D 14 := c_d c ! 6, D 15 := c_d c ! 7,
     X 0 := token), apc := c_lr c\<rparr>"

section \<open>The generated code is save and load\<close>

text \<open>Two address ranges that do not overlap: no cell of one is a cell of the other.\<close>

lemma region_cells_neq:
  assumes "region p n \<inter> region q k = {}" "a < n" "b < k"
  shows "p + a \<noteq> q + b"
proof
  assume "p + a = q + b"
  moreover have "p + a \<in> region p n" "q + b \<in> region q k" using assms(2,3) by (simp_all add: region_simps)
  ultimately show False using assms(1) by auto
qed

lemmas region_cells_neqs =
  region_cells_neq region_cells_neq [where a = 0, simplified] region_cells_neq [where b = 0, simplified]
  region_cells_neq [where a = 0 and b = 0, simplified]

lemma notin_region_cell: "x \<notin> region p n \<Longrightarrow> a < n \<Longrightarrow> x \<noteq> p + a"
  by (auto simp: region_simps)

lemmas notin_region_cells = notin_region_cell notin_region_cell [where a = 0, simplified]

text \<open>Both switches are a run of stores followed by a run of loads.\<close>

definition x86_saved :: "x86_state \<Rightarrow> cells" where
  "x86_saved s = (let p = xr s RDI in
     (xmem s)(p := xr s RBX, p + 8 := xr s RBP, p + 16 := xr s R12, p + 24 := xr s R13, p + 32 := xr s R14,
       p + 40 := xr s R15, p + 56 := xmem s (xr s RSP), p + 48 := xr s RSP + 8))"

lemma x86_switch_saves:
  assumes "xr s RSP \<notin> region (xr s RDI) 64"
  shows "x86_run (take 10 x86_64_fiber_switch) s =
    s\<lparr>xmem := x86_saved s, xr := (xr s)(RAX := xr s RSP + 8)\<rparr>"
  by (simp add: x86_run_def x86_64_fiber_switch_def x86_saved_def Let_def notin_region_cells [OF assms])

lemma x86_switch_loads:
  "x86_run (drop 10 x86_64_fiber_switch) s = x86_load (x86_context_at (xmem s) (xr s RSI)) (xr s RDX) s"
  by (simp add: x86_run_def x86_64_fiber_switch_def x86_load_def x86_context_at_def fun_upd_twist)

lemma x86_switch_run:
  assumes "xr s RSP \<notin> region (xr s RDI) 64"
  shows "x86_run x86_64_fiber_switch s =
    x86_load (x86_context_at (x86_saved s) (xr s RSI)) (xr s RDX) (s\<lparr>xmem := x86_saved s\<rparr>)"
proof -
  have "x86_run x86_64_fiber_switch s =
      x86_run (drop 10 x86_64_fiber_switch) (x86_run (take 10 x86_64_fiber_switch) s)"
    by (simp only: x86_run_def fold_append [symmetric, THEN fun_cong, unfolded comp_apply]
        append_take_drop_id)
  then show ?thesis
    by (simp add: x86_switch_saves [OF assms] x86_switch_loads x86_load_def fun_upd_twist)
qed

lemma x86_saved_frame: "a \<notin> region (xr s RDI) 64 \<Longrightarrow> x86_saved s a = xmem s a"
  by (simp add: x86_saved_def Let_def notin_region_cells)

lemma x86_saved_context: "x86_context_at (x86_saved s) (xr s RDI) = x86_save s"
  by (simp add: x86_context_at_def x86_saved_def x86_save_def Let_def)

lemma x86_context_at_cong:
  "(\<And>a. a \<in> region p 64 \<Longrightarrow> m a = m' a) \<Longrightarrow> x86_context_at m p = x86_context_at m' p"
  by (simp add: x86_context_at_def region_simps)

lemma x86_saved_other:
  assumes "region (xr s RDI) 64 \<inter> region q 64 = {}"
  shows "x86_context_at (x86_saved s) q = x86_context_at (xmem s) q"
  using assms by (intro x86_context_at_cong x86_saved_frame) auto

definition a64_saved :: "a64_state \<Rightarrow> cells" where
  "a64_saved s = (let p = ar s (X 0) in
     (amem s)(p := ar s (X 19), p + 8 := ar s (X 20), p + 16 := ar s (X 21), p + 24 := ar s (X 22),
       p + 32 := ar s (X 23), p + 40 := ar s (X 24), p + 48 := ar s (X 25), p + 56 := ar s (X 26),
       p + 64 := ar s (X 27), p + 72 := ar s (X 28), p + 80 := ar s (X 29), p + 88 := ar s (X 30),
       p + 96 := ar s SP, p + 104 := ar s (D 8), p + 112 := ar s (D 9), p + 120 := ar s (D 10),
       p + 128 := ar s (D 11), p + 136 := ar s (D 12), p + 144 := ar s (D 13), p + 152 := ar s (D 14),
       p + 160 := ar s (D 15)))"

lemma a64_switch_saves:
  "a64_run (take 12 aarch64_fiber_switch) s = s\<lparr>amem := a64_saved s, ar := (ar s)(X 3 := ar s SP)\<rparr>"
  by (simp add: a64_run_def aarch64_fiber_switch_def a64_saved_def Let_def)

lemma a64_switch_loads:
  "a64_run (drop 12 aarch64_fiber_switch) s =
    a64_load (a64_context_at (amem s) (ar s (X 1))) (ar s (X 2)) s"
  by (simp add: a64_run_def aarch64_fiber_switch_def a64_load_def a64_context_at_def upt_rec)

lemma a64_switch_run:
  "a64_run aarch64_fiber_switch s =
    a64_load (a64_context_at (a64_saved s) (ar s (X 1))) (ar s (X 2)) (s\<lparr>amem := a64_saved s\<rparr>)"
proof -
  have "a64_run aarch64_fiber_switch s =
      a64_run (drop 12 aarch64_fiber_switch) (a64_run (take 12 aarch64_fiber_switch) s)"
    by (simp only: a64_run_def fold_append [symmetric, THEN fun_cong, unfolded comp_apply]
        append_take_drop_id)
  then show ?thesis
    by (simp add: a64_switch_saves a64_switch_loads a64_load_def fun_upd_twist)
qed

lemma a64_saved_frame: "a \<notin> region (ar s (X 0)) 168 \<Longrightarrow> a64_saved s a = amem s a"
  by (simp add: a64_saved_def Let_def notin_region_cells)

lemma a64_saved_context: "a64_context_at (a64_saved s) (ar s (X 0)) = a64_save s"
  by (simp add: a64_context_at_def a64_saved_def a64_save_def Let_def upt_rec)

lemma a64_context_at_cong:
  "(\<And>a. a \<in> region p 168 \<Longrightarrow> m a = m' a) \<Longrightarrow> a64_context_at m p = a64_context_at m' p"
  by (simp add: a64_context_at_def region_simps upt_rec)

lemma a64_saved_other:
  assumes "region (ar s (X 0)) 168 \<inter> region q 168 = {}"
  shows "a64_context_at (a64_saved s) q = a64_context_at (amem s) q"
  using assms by (intro a64_context_at_cong a64_saved_frame) auto

section \<open>The switch contract\<close>

text \<open>
  What the fiber code relies on: loading a context someone saved brings back exactly the frame
  that saver's caller expects after the call (callee-saved registers, stack pointer and the
  address to continue at), with the token as the call's result; and loading a made context and
  executing the start code enters the function with its argument, on an aligned stack below the
  given top, with a null return address.
\<close>

locale context_switch =
  fixes save :: "'s \<Rightarrow> 'c"
    and load :: "'c \<Rightarrow> u64 \<Rightarrow> 's \<Rightarrow> 's"
    and make :: "u64 \<Rightarrow> u64 \<Rightarrow> u64 \<Rightarrow> u64 \<Rightarrow> 'c"
    and start_code :: "'s \<Rightarrow> 's"
    and frame_at_call :: "'s \<Rightarrow> u64 list"
    and frame_now :: "'s \<Rightarrow> u64 list"
    and result :: "'s \<Rightarrow> u64"
    and pc :: "'s \<Rightarrow> u64"
    and arg0 :: "'s \<Rightarrow> u64"
    and return_address :: "'s \<Rightarrow> u64"
    and abi_stack :: "u64 \<Rightarrow> 's \<Rightarrow> bool"
  assumes load_save: "frame_now (load (save s) t s') = frame_at_call s"
    and load_result: "result (load c t s) = t"
    and make_pc: "pc (load (make st stack_top f x) t s) = st"
    and start_enters: "pc (start_code (load (make st stack_top f x) t s)) = f"
    and start_arg: "arg0 (start_code (load (make st stack_top f x) t s)) = x"
    and start_return: "return_address (start_code (load (make st stack_top f x) t s)) = 0"
    and start_stack: "abi_stack stack_top (start_code (load (make st stack_top f x) t s))"
begin

text \<open>A switches to B, B runs on and switches back to A: A's call returns with B's token.\<close>

lemma there_and_back:
  assumes "b = load cb ta a" and "a' = load (save a) tb b'"
  shows "frame_now a' = frame_at_call a \<and> result b = ta \<and> result a' = tb"
  by (simp add: assms load_save load_result)

end

definition x86_frame_at_call :: "x86_state \<Rightarrow> u64 list" where
  "x86_frame_at_call s = map (xr s) [RBX, RBP, R12, R13, R14, R15] @ [xr s RSP + 8, xmem s (xr s RSP)]"

definition x86_frame_now :: "x86_state \<Rightarrow> u64 list" where
  "x86_frame_now s = map (xr s) [RBX, RBP, R12, R13, R14, R15] @ [xr s RSP, xip s]"

text \<open>At a function's entry \<open>rsp + 8\<close> is a multiple of 16.\<close>

definition x86_abi_stack :: "u64 \<Rightarrow> x86_state \<Rightarrow> bool" where
  "x86_abi_stack stack_top s \<longleftrightarrow> xr s RSP + 8 = align_down stack_top 16"

definition a64_frame_at_call :: "a64_state \<Rightarrow> u64 list" where
  "a64_frame_at_call s = map (\<lambda>i. ar s (X i)) [19..<30] @ map (\<lambda>i. ar s (D i)) [8..<16] @ [ar s SP, ar s (X 30)]"

definition a64_frame_now :: "a64_state \<Rightarrow> u64 list" where
  "a64_frame_now s = map (\<lambda>i. ar s (X i)) [19..<30] @ map (\<lambda>i. ar s (D i)) [8..<16] @ [ar s SP, apc s]"

definition a64_abi_stack :: "u64 \<Rightarrow> a64_state \<Rightarrow> bool" where
  "a64_abi_stack stack_top s \<longleftrightarrow> ar s SP = align_down stack_top 16"

interpretation x86_switch: context_switch x86_save x86_load x86_64_fiber_context_make
  "x86_run x86_64_fiber_start" x86_frame_at_call x86_frame_now "\<lambda>s. xr s RAX" xip "\<lambda>s. xr s RDI"
  "\<lambda>s. xmem s (xr s RSP)" x86_abi_stack
  by unfold_locales
    (simp_all add: x86_frame_now_def x86_frame_at_call_def x86_load_def x86_save_def x86_run_def
      x86_64_fiber_start_def x86_64_fiber_context_make_def x86_abi_stack_def align_down_def)

interpretation a64_switch: context_switch a64_save a64_load aarch64_fiber_context_make
  "a64_run aarch64_fiber_start" a64_frame_at_call a64_frame_now "\<lambda>s. ar s (X 0)" apc "\<lambda>s. ar s (X 0)"
  "\<lambda>s. ar s (X 30)" a64_abi_stack
  by unfold_locales
    (simp_all add: a64_frame_now_def a64_frame_at_call_def a64_load_def a64_save_def a64_run_def
      aarch64_fiber_start_def aarch64_fiber_context_make_def a64_abi_stack_def align_down_def upt_rec)

section \<open>Switching away and back, at instruction level\<close>

lemma region_empty_inter_commute: "region p n \<inter> region q k = {} \<longleftrightarrow> region q k \<inter> region p n = {}"
  by (simp add: Int_commute)

lemma x86_switch_effect:
  assumes "xr s RSP \<notin> region (xr s RDI) 64" and "region (xr s RDI) 64 \<inter> region (xr s RSI) 64 = {}"
  shows "x86_run x86_64_fiber_switch s =
    x86_load (x86_context_at (xmem s) (xr s RSI)) (xr s RDX) (s\<lparr>xmem := x86_saved s\<rparr>)"
  using assms by (simp add: x86_switch_run x86_saved_other)

lemma a64_switch_effect:
  assumes "region (ar s (X 0)) 168 \<inter> region (ar s (X 1)) 168 = {}"
  shows "a64_run aarch64_fiber_switch s =
    a64_load (a64_context_at (amem s) (ar s (X 1))) (ar s (X 2)) (s\<lparr>amem := a64_saved s\<rparr>)"
  using assms by (simp add: a64_switch_run a64_saved_other)

lemma x86_load_mem [simp]: "xmem (x86_load c t s) = xmem s"
  by (simp add: x86_load_def)

lemma a64_load_mem [simp]: "amem (a64_load c t s) = amem s"
  by (simp add: a64_load_def)

text \<open>
  C38. On x86-64, a call of \<open>fiber_switch\<close> made in state \<open>a\<close>, saving into the context at
  \<open>rdi\<close>, returns exactly when some later call (made in state \<open>s\<close>, by whoever runs then) names
  that context in \<open>rsi\<close>, provided nobody wrote the context's 64 bytes in between: the callee-saved
  registers, the stack pointer after the return and the return address are those of the first
  call, and \<open>rax\<close> is the second caller's token. Neither switch touches memory outside the
  context it saves into.
\<close>

theorem x86_switch_resumes:
  assumes stack: "xr a RSP \<notin> region (xr a RDI) 64" "xr s RSP \<notin> region (xr s RDI) 64"
    and apart: "region (xr a RDI) 64 \<inter> region (xr a RSI) 64 = {}"
      "region (xr s RDI) 64 \<inter> region (xr s RSI) 64 = {}"
    and same: "xr s RSI = xr a RDI"
    and kept: "\<And>p. p \<in> region (xr a RDI) 64 \<Longrightarrow> xmem s p = xmem (x86_run x86_64_fiber_switch a) p"
  shows "x86_frame_now (x86_run x86_64_fiber_switch s) = x86_frame_at_call a \<and>
    xr (x86_run x86_64_fiber_switch s) RAX = xr s RDX \<and>
    (\<forall>p. p \<in> region (xr s RDI) 64 \<or> xmem (x86_run x86_64_fiber_switch s) p = xmem s p)"
proof -
  have "x86_context_at (xmem s) (xr s RSI) = x86_save a"
    using x86_context_at_cong [of "xr a RDI" "xmem s" "x86_saved a"] kept stack apart
    by (simp add: same x86_switch_effect x86_saved_context)
  then show ?thesis
    using stack(2) apart(2) x86_saved_frame [of _ s]
    by (auto simp: x86_switch_effect x86_switch.load_save x86_switch.load_result)
qed

text \<open>
  C39. The same contract of the AArch64 switch: x19 to x29, the low halves of v8 to v15, the stack
  pointer and the link register come back, and x0 is the second caller's token.
\<close>

theorem a64_switch_resumes:
  assumes apart: "region (ar a (X 0)) 168 \<inter> region (ar a (X 1)) 168 = {}"
      "region (ar s (X 0)) 168 \<inter> region (ar s (X 1)) 168 = {}"
    and same: "ar s (X 1) = ar a (X 0)"
    and kept: "\<And>p. p \<in> region (ar a (X 0)) 168 \<Longrightarrow> amem s p = amem (a64_run aarch64_fiber_switch a) p"
  shows "a64_frame_now (a64_run aarch64_fiber_switch s) = a64_frame_at_call a \<and>
    ar (a64_run aarch64_fiber_switch s) (X 0) = ar s (X 2) \<and>
    (\<forall>p. p \<in> region (ar s (X 0)) 168 \<or> amem (a64_run aarch64_fiber_switch s) p = amem s p)"
proof -
  have "a64_context_at (amem s) (ar s (X 1)) = a64_save a"
    using a64_context_at_cong [of "ar a (X 0)" "amem s" "a64_saved a"] kept apart
    by (simp add: same a64_switch_effect a64_saved_context del: One_nat_def)
  then show ?thesis
    using apart(2) a64_saved_frame [of _ s]
    by (auto simp: a64_switch_effect a64_switch.load_save a64_switch.load_result simp del: One_nat_def)
qed

text \<open>
  C40. The first switch into a context built by \<open>fiber_context_make\<close> lands at \<open>fiber_start\<close>, whose
  instructions enter the function with its argument in the first argument register, with a null
  return address (so that returning faults), and with the stack pointer the ABI prescribes at a
  function's entry, at the 16-byte aligned top of the given stack; on both architectures.
\<close>

theorem fresh_context_enters:
  assumes "xr x RSP \<notin> region (xr x RDI) 64" "region (xr x RDI) 64 \<inter> region (xr x RSI) 64 = {}"
    and "x86_context_at (xmem x) (xr x RSI) = x86_64_fiber_context_make start stack_top f argument"
    and "region (ar y (X 0)) 168 \<inter> region (ar y (X 1)) 168 = {}"
    and "a64_context_at (amem y) (ar y (X 1)) = aarch64_fiber_context_make start stack_top f argument"
  shows "(let s = x86_run x86_64_fiber_switch x; e = x86_run x86_64_fiber_start s in
      xip s = start \<and> xip e = f \<and> xr e RDI = argument \<and> xmem e (xr e RSP) = 0 \<and>
      xr e RSP + 8 = align_down stack_top 16) \<and>
    (let s = a64_run aarch64_fiber_switch y; e = a64_run aarch64_fiber_start s in
      apc s = start \<and> apc e = f \<and> ar e (X 0) = argument \<and> ar e (X 30) = 0 \<and>
      ar e SP = align_down stack_top 16)"
  using assms x86_switch.start_stack a64_switch.start_stack
  by (simp add: Let_def x86_switch_effect a64_switch_effect x86_switch.make_pc x86_switch.start_enters
      x86_switch.start_arg x86_switch.start_return a64_switch.make_pc a64_switch.start_enters
      a64_switch.start_arg a64_switch.start_return x86_abi_stack_def a64_abi_stack_def)

subsection \<open>Concrete switches\<close>

text \<open>A caller with its stack at 0x8000 saves at 0x1000 and resumes 0x2000; the second state is the
  fiber at 0x2000 switching back.\<close>

definition x86_caller :: x86_state where
  "x86_caller = \<lparr>xr = (\<lambda>r. case r of RDI \<Rightarrow> 0x1000 | RSI \<Rightarrow> 0x2000 | RDX \<Rightarrow> 5 | RSP \<Rightarrow> 0x8000 | RBX \<Rightarrow> 11 | _ \<Rightarrow> 3),
     xip = 0, xmem = (\<lambda>p. 0)(0x8000 := 0x400123, 0x2010 := 0x401000, 0x2018 := 7, 0x2030 := 0x9000, 0x2038 := 0x400800)\<rparr>"

definition x86_returner :: x86_state where
  "x86_returner = (x86_run x86_64_fiber_switch x86_caller)\<lparr>xr := (\<lambda>r. case r of RDI \<Rightarrow> 0x2000 | RSI \<Rightarrow> 0x1000
     | RDX \<Rightarrow> 9 | RSP \<Rightarrow> 0x9000 | _ \<Rightarrow> 0)\<rparr>"

definition a64_caller :: a64_state where
  "a64_caller = \<lparr>ar = (\<lambda>r. if r = X 0 then 0x1000 else if r = X 1 then 0x2000 else if r = X 2 then 5
     else if r = SP then 0x8000 else if r = X 30 then 0x400123 else 3), apc = 0,
     amem = (\<lambda>p. 0)(0x2000 := 0x401000, 0x2008 := 7, 0x2058 := 0x400800, 0x2060 := 0x9000)\<rparr>"

definition a64_returner :: a64_state where
  "a64_returner = (a64_run aarch64_fiber_switch a64_caller)\<lparr>ar := (\<lambda>r. if r = X 0 then 0x2000
     else if r = X 1 then 0x1000 else if r = X 2 then 9 else if r = SP then 0x9000 else 0)\<rparr>"

lemma regions_apart_concrete:
  "region 0x1000 64 \<inter> region 0x2000 64 = {}" "region 0x1000 168 \<inter> region 0x2000 168 = {}"
  by (auto simp: in_region_nat)

lemmas concrete_apart = regions_apart_concrete regions_apart_concrete [unfolded Int_commute [of "region 0x1000 _"]]

lemma replicate_8: "replicate 8 x = [x, x, x, x, x, x, x, x]"
  by (simp add: numeral_eq_Suc)

lemma x86_concrete [simp]:
  "xr x86_caller RSP = 0x8000" "xr x86_caller RDI = 0x1000" "xr x86_caller RSI = 0x2000"
  "xr x86_returner RSP = 0x9000" "xr x86_returner RDI = 0x2000" "xr x86_returner RSI = 0x1000"
  "xr x86_returner RDX = 9" "xmem x86_returner = xmem (x86_run x86_64_fiber_switch x86_caller)"
  by (simp_all add: x86_caller_def x86_returner_def)

lemma a64_concrete [simp]:
  "ar a64_caller (X 0) = 0x1000" "ar a64_caller (X 1) = 0x2000" "ar a64_returner (X 0) = 0x2000"
  "ar a64_returner (X 1) = 0x1000" "ar a64_returner (X 2) = 9"
  "amem a64_returner = amem (a64_run aarch64_fiber_switch a64_caller)"
  by (simp_all add: a64_caller_def a64_returner_def)

theorem x86_switch_resumes_witness:
  "x86_frame_now (x86_run x86_64_fiber_switch x86_returner) = [11, 3, 3, 3, 3, 3, 0x8008, 0x400123] \<and>
   xr (x86_run x86_64_fiber_switch x86_returner) RAX = 9"
proof -
  have "x86_frame_at_call x86_caller = [11, 3, 3, 3, 3, 3, 0x8008, 0x400123]"
    by (simp add: x86_frame_at_call_def x86_caller_def)
  then show ?thesis
    using x86_switch_resumes [of x86_caller x86_returner] by (simp add: concrete_apart region_simps)
qed

theorem a64_switch_resumes_witness:
  "a64_frame_now (a64_run aarch64_fiber_switch a64_returner) = replicate 19 3 @ [0x8000, 0x400123] \<and>
   ar (a64_run aarch64_fiber_switch a64_returner) (X 0) = 9"
proof -
  have "a64_frame_at_call a64_caller = replicate 19 3 @ [0x8000, 0x400123]"
    by (simp add: a64_frame_at_call_def a64_caller_def upt_rec numeral_eq_Suc)
  then show ?thesis
    using a64_switch_resumes [of a64_caller a64_returner]
    by (simp add: concrete_apart region_simps del: One_nat_def)
qed

theorem fresh_context_enters_witness:
  "xip (x86_run x86_64_fiber_start (x86_run x86_64_fiber_switch x86_caller)) = 0x401000 \<and>
   apc (a64_run aarch64_fiber_start (a64_run aarch64_fiber_switch a64_caller)) = 0x401000"
proof -
  have "x86_context_at (xmem x86_caller) (xr x86_caller RSI) =
      x86_64_fiber_context_make 0x400800 0x9008 0x401000 7"
    by (simp add: x86_context_at_def x86_64_fiber_context_make_def x86_caller_def)
  moreover have "a64_context_at (amem a64_caller) (ar a64_caller (X 1)) =
      aarch64_fiber_context_make 0x400800 0x9008 0x401000 7"
    by (simp add: a64_context_at_def aarch64_fiber_context_make_def a64_caller_def upt_rec replicate_8)
  ultimately show ?thesis
    using fresh_context_enters [where x = x86_caller and y = a64_caller and start = "0x400800" and stack_top = "0x9008"
      and f = "0x401000" and argument = 7]
    by (simp add: concrete_apart region_simps Let_def del: One_nat_def)
qed

end
