(* ===== verification/Uc_Fiber.thy ===== *)
theory Uc_Fiber
  imports Uc_Ring Uc_Context
begin

text \<open>
  \<open>src/fiber\<close>: fiber records at the top of their own stack mappings, the requests a suspended
  fiber carries to its resumer, and the transfer between the two.

  Control flow: \<open>__libuc_fiber_resume\<close> switches to the fiber's context; the fiber runs the
  program's code until that calls a library function, which switches back with the address of
  a request. The program's code is a parameter: a function of the context it is resumed in, of
  what its pending call returns and of memory, giving the next call it makes and the memory it leaves. What the library does between the
  two switches is all here.
\<close>

section \<open>Records\<close>

datatype fiber_request_kind =
  REQUEST_YIELD | REQUEST_EXIT | REQUEST_AWAIT | REQUEST_SPAWN | REQUEST_JOIN | REQUEST_DETACH
  | REQUEST_PROCESS_EXIT

record fiber_spawn_request =
  sr_stack_length :: u64
  sr_entry :: u64
  sr_argument :: u64

text \<open>
  The union of a request: an \<open>argument\<close> is a pointer to a constant of the asking frame, which lives
  as long as the request does, so it is carried by value.
\<close>

datatype request_union =
  Nothing | Await_argument sqe | Spawn_argument fiber_spawn_request | Target u64 | Status i64

record fiber_request =
  r_kind :: fiber_request_kind
  r_ask :: request_union
  r_result :: i64
  r_fiber :: u64

datatype fiber_life = FIBER_LIVE | FIBER_DETACHED | FIBER_EXITED

record 'c fiber =
  f_context :: 'c
  f_entry :: u64
  f_argument :: u64
  f_stack :: u64
  f_stack_length :: u64
  f_block :: tl_block
  f_return_to :: u64
  f_ready_next :: u64
  f_joiner :: u64
  f_status :: i32
  f_life :: fiber_life

text \<open>
  What a saved context resumes into: the start of the fiber, or the return of the library call
  whose request is at the given address.
\<close>

datatype activation = At_entry | In_call u64

record ('k, 'c, 'w) fiber_machine = "'k machine" +
  fibers :: "u64 \<rightharpoonup> 'c fiber"
  requests :: "u64 \<rightharpoonup> fiber_request"
  activations :: "u64 \<rightharpoonup> activation"
  world :: 'w

text \<open>
  What differs between the architectures: how a context is saved from the registers at a switch
  (as proved of the switch code), how one is made, the all-zero context, \<open>sizeof(struct
  __libuc_fiber)\<close>, the thread-local placement; and the link-time address of \<open>run_fiber\<close>.
\<close>

record ('c, 'r) arch =
  a_save :: "'r \<Rightarrow> 'c"
  a_make :: "u64 \<Rightarrow> u64 \<Rightarrow> u64 \<Rightarrow> 'c"
  a_zero :: 'c
  a_fiber_size :: u64
  a_place :: "u64 \<Rightarrow> u64 \<Rightarrow> tl_placement option"
  a_run_fiber :: u64

definition x86_64_arch :: "u64 \<Rightarrow> u64 \<Rightarrow> (x86_context, x86_state) arch" where
  "x86_64_arch fiber_start run_fiber =
     \<lparr>a_save = x86_save, a_make = x86_64_fiber_context_make fiber_start,
      a_zero = \<lparr>c_rbx = 0, c_rbp = 0, c_r12 = 0, c_r13 = 0, c_r14 = 0, c_r15 = 0, c_rsp = 0, c_rip = 0\<rparr>,
      a_fiber_size = 160, a_place = x86_64_thread_local_place, a_run_fiber = run_fiber\<rparr>"

definition aarch64_arch :: "u64 \<Rightarrow> u64 \<Rightarrow> (a64_context, a64_state) arch" where
  "aarch64_arch fiber_start run_fiber =
     \<lparr>a_save = a64_save, a_make = aarch64_fiber_context_make fiber_start,
      a_zero = \<lparr>c_gp = replicate 10 0, c_fp = 0, c_lr = 0, c_sp = 0, c_d = replicate 8 0\<rparr>,
      a_fiber_size = 264, a_place = aarch64_thread_local_place, a_run_fiber = run_fiber\<rparr>"

definition alignof_fiber :: u64 where "alignof_fiber = 8"

type_synonym ('k, 'c, 'w, 'z) fstate = "('k, 'c, 'w, 'z) fiber_machine_scheme"

section \<open>Stores to records\<close>

text \<open>A store through a pointer to a fiber or a request: the object must be live.\<close>

definition set_fiber :: "u64 \<Rightarrow> ('c fiber \<Rightarrow> 'c fiber) \<Rightarrow> ('k, 'c, 'w, 'z) fstate \<Rightarrow> ('k, 'c, 'w, 'z) fstate outcome" where
  "set_fiber p g s = obind (deref (fibers s p)) (\<lambda>fb. Done (s\<lparr>fibers := (fibers s)(p \<mapsto> g fb)\<rparr>))"

definition set_request ::
    "u64 \<Rightarrow> (fiber_request \<Rightarrow> fiber_request) \<Rightarrow> ('k, 'c, 'w, 'z) fstate \<Rightarrow> ('k, 'c, 'w, 'z) fstate outcome" where
  "set_request p g s = obind (deref (requests s p)) (\<lambda>rq. Done (s\<lparr>requests := (requests s)(p \<mapsto> g rq)\<rparr>))"

definition set_tcb :: "u64 \<Rightarrow> (tcb \<Rightarrow> tcb) \<Rightarrow> ('k, 'z) machine_scheme \<Rightarrow> ('k, 'z) machine_scheme outcome" where
  "set_tcb p g s = obind (deref (tcbs s p)) (\<lambda>t. Done (s\<lparr>tcbs := (tcbs s)(p \<mapsto> g t)\<rparr>))"

text \<open>Records and requests in an unmapped range are gone with it.\<close>

definition forget_range :: "u64 \<Rightarrow> u64 \<Rightarrow> ('k, 'c, 'w, 'z) fstate \<Rightarrow> ('k, 'c, 'w, 'z) fstate" where
  "forget_range start len s =
     s\<lparr>fibers := fibers s |` (- region start len), requests := requests s |` (- region start len),
       activations := activations s |` (- region start len)\<rparr>"

definition munmap_objects ::
    "('k, 'y) kernel_scheme \<Rightarrow> u64 \<Rightarrow> u64 \<Rightarrow> ('k, 'c, 'w, 'z) fstate \<Rightarrow> i64 \<times> ('k, 'c, 'w, 'z) fstate" where
  "munmap_objects K start len s =
     (case munmap_range K start len s of
        (r, s') \<Rightarrow> (r, if libuc_syscall_failed r then s' else forget_range start len s'))"

definition block_destroy_objects ::
    "('k, 'y) kernel_scheme \<Rightarrow> tl_block \<Rightarrow> ('k, 'c, 'w, 'z) fstate \<Rightarrow> bool \<times> ('k, 'c, 'w, 'z) fstate" where
  "block_destroy_objects K b s =
     (case libuc_thread_local_block_destroy K b s of
        (ok, s') \<Rightarrow> (ok, if ok then forget_range (mapping b) (mapping_length b) s' else s'))"

section \<open>Creation and destruction\<close>

text \<open>\<open>(struct __libuc_fiber){.entry = ..., .argument = ..., .stack = ..., .stack_length = ...}\<close>.\<close>

definition new_fiber :: "('c, 'r) arch \<Rightarrow> u64 \<Rightarrow> u64 \<Rightarrow> u64 \<Rightarrow> u64 \<Rightarrow> 'c fiber" where
  "new_fiber A stk len ent arg =
     \<lparr>f_context = a_zero A, f_entry = ent, f_argument = arg, f_stack = stk, f_stack_length = len,
      f_block = \<lparr>mapping = 0, mapping_length = 0, tls_block = 0, thread_pointer = 0\<rparr>,
      f_return_to = 0, f_ready_next = 0, f_joiner = 0, f_status = 0, f_life = FIBER_LIVE\<rparr>"

text \<open>The record's place: the highest aligned address that leaves room for it in the mapping.\<close>

definition fiber_address :: "('c, 'r) arch \<Rightarrow> u64 \<Rightarrow> u64 \<Rightarrow> u64" where
  "fiber_address A stk len = align_down ((stk + len) - a_fiber_size A) alignof_fiber"

definition libuc_fiber_spawn ::
    "('k, 'y) kernel_scheme \<Rightarrow> ('c, 'r) arch \<Rightarrow> u64 \<Rightarrow> u64 \<Rightarrow> u64 \<Rightarrow> ('k, 'c, 'w, 'z) fstate \<Rightarrow>
     (u64 \<times> ('k, 'c, 'w, 'z) fstate) run" where
  "libuc_fiber_spawn K A len ent arg s =
     (if len \<le> a_fiber_size A then ret (0, s)
      else case mmap_anonymous K len s of (stk, s1) \<Rightarrow>
        if libuc_syscall_failed stk then ret (0, s1)
        else
          let f = fiber_address A stk len;
              s2 = s1\<lparr>fibers := (fibers s1)(f \<mapsto> new_fiber A stk len ent arg)\<rparr>
          in case libuc_thread_local_block_create K (a_place A) s2 of
               None \<Rightarrow> None
             | Some (None, s3) \<Rightarrow> ret (0, snd (munmap_objects K stk len s3))
             | Some (Some b, s3) \<Rightarrow> Some
                 (obind (set_fiber f (\<lambda>fb. fb\<lparr>f_block := b\<rparr>) s3) (\<lambda>s4.
                  obind (set_tcb (thread_pointer b) (\<lambda>t. t\<lparr>tcb_fiber := f\<rparr>) s4) (\<lambda>s5.
                  obind (set_fiber f (\<lambda>fb. fb\<lparr>f_context := a_make A f (a_run_fiber A) f\<rparr>) s5) (\<lambda>s6.
                  Done (f, s6\<lparr>activations := (activations s6)(f \<mapsto> At_entry)\<rparr>))))))"

definition libuc_fiber_destroy ::
    "('k, 'y) kernel_scheme \<Rightarrow> u64 \<Rightarrow> ('k, 'c, 'w, 'z) fstate \<Rightarrow> (bool \<times> ('k, 'c, 'w, 'z) fstate) outcome" where
  "libuc_fiber_destroy K f s =
     obind (deref (fibers s f)) (\<lambda>fb.
       case block_destroy_objects K (f_block fb) s of (block_destroyed, s1) \<Rightarrow>
       obind (deref (fibers s1 f)) (\<lambda>fb1.
       case munmap_objects K (f_stack fb1) (f_stack_length fb1) s1 of (r, s2) \<Rightarrow>
         Done (block_destroyed \<and> \<not> libuc_syscall_failed r, s2)))"

section \<open>The fiber's side\<close>

definition libuc_fiber_current :: "('k, 'z) machine_scheme \<Rightarrow> u64 outcome" where
  "libuc_fiber_current s =
     (let p = thread_local_read s in
      if p = 0 then Done 0 else obind (deref (tcbs s p)) (\<lambda>t. Done (tcb_fiber t)))"

definition new_request :: "fiber_request_kind \<Rightarrow> request_union \<Rightarrow> fiber_request" where
  "new_request k u = \<lparr>r_kind = k, r_ask = u, r_result = 0, r_fiber = 0\<rparr>"

text \<open>
  The common end of every call: a request is built in the calling frame, at \<open>q\<close>, and
  \<open>fiber_switch(&fiber->context, fiber->return_to, &request)\<close> saves the context and continues the
  resumer, whose context is in its frame at \<open>here\<close>. A return address that is not that frame is
  null or stale, and restoring from it faults.
\<close>

definition suspend ::
    "('c, 'r) arch \<Rightarrow> u64 \<Rightarrow> u64 \<Rightarrow> u64 \<Rightarrow> fiber_request \<Rightarrow> 'r \<Rightarrow> ('k, 'c, 'w, 'z) fstate \<Rightarrow>
     (u64 \<times> ('k, 'c, 'w, 'z) fstate) outcome" where
  "suspend A here f q rq regs s =
     obind (deref (fibers s f)) (\<lambda>fb.
       if f_return_to fb = here \<and> here \<noteq> 0
       then Done (q, s\<lparr>requests := (requests s)(q \<mapsto> rq),
                       fibers := (fibers s)(f \<mapsto> fb\<lparr>f_context := a_save A regs\<rparr>),
                       activations := (activations s)(f \<mapsto> In_call q)\<rparr>)
       else Fault)"

definition exit_fiber ::
    "('c, 'r) arch \<Rightarrow> u64 \<Rightarrow> u64 \<Rightarrow> i32 \<Rightarrow> u64 \<Rightarrow> 'r \<Rightarrow> ('k, 'c, 'w, 'z) fstate \<Rightarrow>
     (u64 \<times> ('k, 'c, 'w, 'z) fstate) outcome" where
  "exit_fiber A here f st q regs s =
     obind (set_fiber f (\<lambda>fb. fb\<lparr>f_status := st\<rparr>) s)
       (suspend A here f q (new_request REQUEST_EXIT Nothing) regs)"

definition libuc_fiber_exit where
  "libuc_fiber_exit A here st q regs s =
     obind (libuc_fiber_current s) (\<lambda>f. exit_fiber A here f st q regs s)"

definition libuc_fiber_yield where
  "libuc_fiber_yield A here q regs s =
     obind (libuc_fiber_current s) (\<lambda>f. suspend A here f q (new_request REQUEST_YIELD Nothing) regs s)"

definition libuc_fiber_await where
  "libuc_fiber_await A here sqe q regs s =
     obind (libuc_fiber_current s) (\<lambda>f.
       suspend A here f q (new_request REQUEST_AWAIT (Await_argument sqe)) regs s)"

definition libuc_fiber_join where
  "libuc_fiber_join A here target q regs s =
     obind (libuc_fiber_current s) (\<lambda>f.
       suspend A here f q (new_request REQUEST_JOIN (Target target)) regs s)"

definition libuc_fiber_detach where
  "libuc_fiber_detach A here target q regs s =
     obind (libuc_fiber_current s) (\<lambda>f.
       suspend A here f q (new_request REQUEST_DETACH (Target target)) regs s)"

definition libuc_fiber_start where
  "libuc_fiber_start A here len ent arg q regs s =
     obind (libuc_fiber_current s) (\<lambda>f.
       suspend A here f q (new_request REQUEST_SPAWN
         (Spawn_argument \<lparr>sr_stack_length = len, sr_entry = ent, sr_argument = arg\<rparr>)) regs s)"

text \<open>\<open>status\<close> is an \<open>int\<close> assigned to a \<open>long\<close> member: sign extension.\<close>

definition libuc_fiber_process_exit where
  "libuc_fiber_process_exit A here f st q regs s =
     suspend A here f q (new_request REQUEST_PROCESS_EXIT (Status (scast (st :: i32)))) regs s"

section \<open>The program\<close>

text \<open>
  The calls the program's code can make; \<open>Return\<close> is the return of the fiber's entry function to
  \<open>run_fiber\<close>.
\<close>

datatype call =
    Call_yield
  | Call_await sqe
  | Call_start u64 u64 u64
  | Call_join u64
  | Call_detach u64
  | Call_exit i32
  | Call_process_exit u64 i32
  | Return i32

text \<open>What resumed code sees: its entry with the argument, or its call's result.\<close>

datatype resumption = Enter u64 u64 | Answer i64

text \<open>
  One stretch of the program's code: from a resumption of the fiber at some address, which runs an
  entry function with its argument, in some context to its next call, with the registers at the
  switch, the thread pointer then installed, the address of the frame that will hold the request,
  the memory as the code leaves it, and the program's own state.
\<close>

record ('r, 'w) move =
  m_call :: call
  m_regs :: 'r
  m_tp :: u64
  m_frame :: u64
  m_mem :: mem
  m_world :: 'w

type_synonym ('k, 'c, 'r, 'w) prog = "u64 \<Rightarrow> u64 \<times> u64 \<Rightarrow> 'c \<Rightarrow> resumption \<Rightarrow> 'w \<Rightarrow> mem \<Rightarrow> 'k \<Rightarrow> ('r, 'w) move"

definition do_call ::
    "('c, 'r) arch \<Rightarrow> u64 \<Rightarrow> u64 \<Rightarrow> ('r, 'w) move \<Rightarrow> ('k, 'c, 'w, 'z) fstate \<Rightarrow> (u64 \<times> ('k, 'c, 'w, 'z) fstate) outcome" where
  "do_call A here f mv s =
     (let q = m_frame mv; regs = m_regs mv in
      case m_call mv of
        Call_yield \<Rightarrow> libuc_fiber_yield A here q regs s
      | Call_await sqe \<Rightarrow> libuc_fiber_await A here sqe q regs s
      | Call_start len ent arg \<Rightarrow> libuc_fiber_start A here len ent arg q regs s
      | Call_join t \<Rightarrow> libuc_fiber_join A here t q regs s
      | Call_detach t \<Rightarrow> libuc_fiber_detach A here t q regs s
      | Call_exit st \<Rightarrow> libuc_fiber_exit A here st q regs s
      | Call_process_exit g st \<Rightarrow> libuc_fiber_process_exit A here g st q regs s
      | Return st \<Rightarrow> exit_fiber A here f st q regs s)"

text \<open>
  Where a context resumes: \<open>run_fiber\<close> reads the entry and its argument from the record; a pending
  call returns the request's result, and one that must not return traps.
\<close>

definition resumes_as :: "u64 \<Rightarrow> ('k, 'c, 'w, 'z) fstate \<Rightarrow> resumption outcome" where
  "resumes_as f s =
     obind (deref (activations s f)) (\<lambda>a.
       case a of
         At_entry \<Rightarrow> obind (deref (fibers s f)) (\<lambda>fb. Done (Enter (f_entry fb) (f_argument fb)))
       | In_call q \<Rightarrow> obind (deref (requests s q)) (\<lambda>rq.
           if r_kind rq = REQUEST_EXIT \<or> r_kind rq = REQUEST_PROCESS_EXIT then Trap else Done (Answer (r_result rq))))"

definition run_program ::
    "('c, 'r) arch \<Rightarrow> ('k, 'c, 'r, 'w) prog \<Rightarrow> u64 \<Rightarrow> u64 \<Rightarrow> 'c \<Rightarrow> ('k, 'c, 'w, 'z) fstate \<Rightarrow>
     (u64 \<times> ('k, 'c, 'w, 'z) fstate) outcome" where
  "run_program A U here f c s =
     (if c = a_zero A then Fault
      else obind (resumes_as f s) (\<lambda>res.
        obind (deref (fibers s f)) (\<lambda>fb.
        let mv = U f (f_entry fb, f_argument fb) c res (world s) (mem s) (kern s) in
        do_call A here f mv (s\<lparr>mem := m_mem mv, tp := m_tp mv, world := m_world mv\<rparr>))))"

section \<open>The resumer's side\<close>

definition poison :: "('c, 'r) arch \<Rightarrow> 'c fiber \<Rightarrow> 'c fiber" where
  "poison A fb = fb\<lparr>f_context := a_zero A, f_life := (if f_life fb = FIBER_LIVE then FIBER_EXITED else f_life fb)\<rparr>"

definition libuc_fiber_resume ::
    "('c, 'r) arch \<Rightarrow> ('k, 'c, 'r, 'w) prog \<Rightarrow> u64 \<Rightarrow> u64 \<Rightarrow> ('k, 'c, 'w, 'z) fstate \<Rightarrow>
     (u64 \<times> ('k, 'c, 'w, 'z) fstate) outcome" where
  "libuc_fiber_resume A U here f s =
     obind (set_fiber f (\<lambda>fb. fb\<lparr>f_return_to := here\<rparr>) s) (\<lambda>s1.
     obind (deref (fibers s1 f)) (\<lambda>fb.
       let caller = thread_local_read s1;
           s2 = thread_local_install (thread_pointer (f_block fb)) s1
       in
       obind (run_program A U here f (f_context fb) s2) (\<lambda>(q, s3).
         let s4 = thread_local_install caller s3 in
         obind (trap_unless (q \<noteq> 0)) (\<lambda>_.
         obind (deref (requests s4 q)) (\<lambda>rq.
         obind (if r_kind rq = REQUEST_EXIT then set_fiber f (poison A) s4 else Done s4) (\<lambda>s5.
         obind (set_fiber f (\<lambda>fb. fb\<lparr>f_return_to := 0\<rparr>) s5) (\<lambda>s6.
         obind (set_request q (\<lambda>rq. rq\<lparr>r_fiber := f\<rparr>) s6) (\<lambda>s7.
         Done (q, s7)))))))))"

section \<open>Well-formed fibers\<close>

definition stack_range :: "'c fiber \<Rightarrow> u64 set" where
  "stack_range fb = region (f_stack fb) (f_stack_length fb)"

definition block_range :: "'c fiber \<Rightarrow> u64 set" where
  "block_range fb = region (mapping (f_block fb)) (mapping_length (f_block fb))"

definition footprint :: "'c fiber \<Rightarrow> u64 set" where
  "footprint fb = stack_range fb \<union> block_range fb"

text \<open>
  A fiber between resumes: its record is in its stack, its control block in its thread-local
  mapping names it, and nobody is waiting in a resume of it.
\<close>

definition fiber_wf :: "('k, 'c, 'w, 'z) fstate \<Rightarrow> u64 \<Rightarrow> 'c fiber \<Rightarrow> bool" where
  "fiber_wf s f fb \<longleftrightarrow>
     f \<noteq> 0 \<and> f \<in> stack_range fb \<and> stack_range fb \<inter> block_range fb = {} \<and> thread_pointer (f_block fb) \<noteq> 0 \<and>
     thread_pointer (f_block fb) \<in> block_range fb \<and>
     map_option tcb_fiber (tcbs s (thread_pointer (f_block fb))) = Some f \<and> f_return_to fb = 0"

text \<open>
  A fiber that can be resumed: its context resumes into its entry or into a call whose request is
  in its stack and names it.
\<close>

definition suspended_at :: "('k, 'c, 'w, 'z) fstate \<Rightarrow> u64 \<Rightarrow> 'c fiber \<Rightarrow> activation \<Rightarrow> bool" where
  "suspended_at s f fb a \<longleftrightarrow> (\<forall>q. a = In_call q \<longrightarrow> q \<noteq> 0 \<and> q \<in> stack_range fb \<and>
     (\<exists>rq. requests s q = Some rq \<and> r_fiber rq = f \<and> r_kind rq \<noteq> REQUEST_EXIT \<and> r_kind rq \<noteq> REQUEST_PROCESS_EXIT))"

definition resumable :: "('c, 'r) arch \<Rightarrow> ('k, 'c, 'w, 'z) fstate \<Rightarrow> u64 \<Rightarrow> 'c fiber \<Rightarrow> bool" where
  "resumable A s f fb \<longleftrightarrow> f_life fb \<noteq> FIBER_EXITED \<and> f_context fb \<noteq> a_zero A \<and>
     (\<exists>a. activations s f = Some a \<and> suspended_at s f fb a)"

text \<open>The fibers whose handles are out (\<open>F\<close>) are well-formed, mapped, and apart from each other.\<close>

definition fibers_wf :: "('k \<Rightarrow> u64 set) \<Rightarrow> u64 set \<Rightarrow> ('k, 'c, 'w, 'z) fstate \<Rightarrow> bool" where
  "fibers_wf mapped F s \<longleftrightarrow>
     (\<forall>f \<in> F. \<exists>fb. fibers s f = Some fb \<and> fiber_wf s f fb \<and> footprint fb \<subseteq> mapped (kern s)) \<and>
     (\<forall>f \<in> F. \<forall>g \<in> F. f \<noteq> g \<longrightarrow> footprint (the (fibers s f)) \<inter> footprint (the (fibers s g)) = {})"

lemma fibers_wfD:
  assumes "fibers_wf mapped F s" "f \<in> F"
  obtains fb where "fibers s f = Some fb" "fiber_wf s f fb" "footprint fb \<subseteq> mapped (kern s)"
  using assms unfolding fibers_wf_def by blast

lemma fibers_wf_apart:
  assumes "fibers_wf mapped F s" "f \<in> F" "g \<in> F" "f \<noteq> g" "fibers s f = Some fb" "fibers s g = Some gb"
  shows "footprint fb \<inter> footprint gb = {}"
  using assms unfolding fibers_wf_def by force

lemma fiber_wf_in_footprint:
  "fiber_wf s f fb \<Longrightarrow> f \<in> footprint fb" "fiber_wf s f fb \<Longrightarrow> thread_pointer (f_block fb) \<in> footprint fb"
  by (simp_all add: fiber_wf_def footprint_def)

text \<open>Nothing at the addresses in \<open>M\<close> changes, nor anything that has no address.\<close>

definition frame_on :: "u64 set \<Rightarrow> ('k, 'c, 'w, 'z) fstate \<Rightarrow> ('k, 'c, 'w, 'z) fstate \<Rightarrow> bool" where
  "frame_on M s s' \<longleftrightarrow>
     (\<forall>a \<in> M. fibers s' a = fibers s a \<and> requests s' a = requests s a \<and> activations s' a = activations s a \<and>
        tcbs s' a = tcbs s a) \<and>
     tp s' = tp s \<and> world s' = world s \<and> process_layout s' = process_layout s \<and>
     auxiliary_vector s' = auxiliary_vector s \<and> fiber_machine.more s' = fiber_machine.more s"

lemma frame_on_refl [simp]: "frame_on M s s"
  by (simp add: frame_on_def)

lemma frame_on_trans: "frame_on M s s1 \<Longrightarrow> frame_on M s1 s2 \<Longrightarrow> frame_on M s s2"
  by (simp add: frame_on_def)

lemma frame_on_mono: "frame_on M s s' \<Longrightarrow> N \<subseteq> M \<Longrightarrow> frame_on N s s'"
  by (auto simp: frame_on_def)

lemma fiber_wf_frame:
  assumes "fiber_wf s f fb" "frame_on M s s'" "footprint fb \<subseteq> M"
  shows "fiber_wf s' f fb"
proof -
  have "tcbs s' a = tcbs s a" if "a \<in> footprint fb" for a using assms(2,3) that by (auto simp: frame_on_def)
  then show ?thesis
    using assms(1) fiber_wf_in_footprint(2) [OF assms(1)] by (simp add: fiber_wf_def)
qed

lemma resumable_frame:
  assumes "resumable A s f fb" "fiber_wf s f fb" "frame_on M s s'" "footprint fb \<subseteq> M"
  shows "resumable A s' f fb"
proof -
  have same: "requests s' a = requests s a" "activations s' a = activations s a"
    if "a \<in> footprint fb" for a using assms(3,4) that by (auto simp: frame_on_def)
  have "suspended_at s' f fb a = suspended_at s f fb a" for a
    by (auto simp: suspended_at_def same footprint_def)
  then show ?thesis
    using assms(1) fiber_wf_in_footprint(1) [OF assms(2)] by (simp add: resumable_def same)
qed

lemma fibers_wf_frame:
  assumes wf: "fibers_wf mapped F s" and fr: "frame_on M s s'" and sub: "G \<subseteq> F"
    and M: "\<And>f fb. f \<in> G \<Longrightarrow> fibers s f = Some fb \<Longrightarrow> footprint fb \<subseteq> M \<and> footprint fb \<subseteq> mapped (kern s')"
  shows "fibers_wf mapped G s'"
proof -
  have same: "\<exists>fb. fibers s' f = Some fb \<and> fibers s f = Some fb \<and> fiber_wf s' f fb \<and> footprint fb \<subseteq> mapped (kern s')"
    if f: "f \<in> G" for f
  proof -
    obtain fb where fb: "fibers s f = Some fb" "fiber_wf s f fb"
      using fibers_wfD [OF wf subsetD [OF sub f]] by blast
    moreover from this have "f \<in> M" using M [OF f fb(1)] fiber_wf_in_footprint(1) by blast
    ultimately show ?thesis
      using M [OF f fb(1)] fr fiber_wf_frame [OF fb(2) fr] by (simp add: frame_on_def)
  qed
  show ?thesis
    unfolding fibers_wf_def
  proof (intro conjI ballI impI)
    fix f assume "f \<in> G"
    with same show "\<exists>fb. fibers s' f = Some fb \<and> fiber_wf s' f fb \<and> footprint fb \<subseteq> mapped (kern s')" by blast
  next
    fix f g assume fg: "f \<in> G" "g \<in> G" "f \<noteq> g"
    then have "the (fibers s' f) = the (fibers s f)" "the (fibers s' g) = the (fibers s g)"
      using same by (metis option.sel)+
    with fg sub wf [unfolded fibers_wf_def, THEN conjunct2, rule_format, of f g]
    show "footprint (the (fibers s' f)) \<inter> footprint (the (fibers s' g)) = {}" by auto
  qed
qed

section \<open>Resuming\<close>

text \<open>The request each call carries.\<close>

fun call_kind :: "call \<Rightarrow> fiber_request_kind" where
  "call_kind Call_yield = REQUEST_YIELD"
| "call_kind (Call_await e) = REQUEST_AWAIT"
| "call_kind (Call_start n e a) = REQUEST_SPAWN"
| "call_kind (Call_join t) = REQUEST_JOIN"
| "call_kind (Call_detach t) = REQUEST_DETACH"
| "call_kind (Call_exit st) = REQUEST_EXIT"
| "call_kind (Call_process_exit g st) = REQUEST_PROCESS_EXIT"
| "call_kind (Return st) = REQUEST_EXIT"

fun call_ask :: "call \<Rightarrow> request_union" where
  "call_ask (Call_await e) = Await_argument e"
| "call_ask (Call_start n e a) = Spawn_argument \<lparr>sr_stack_length = n, sr_entry = e, sr_argument = a\<rparr>"
| "call_ask (Call_join t) = Target t"
| "call_ask (Call_detach t) = Target t"
| "call_ask (Call_process_exit g st) = Status (scast st)"
| "call_ask _ = Nothing"

fun exit_status :: "call \<Rightarrow> i32 option" where
  "exit_status (Call_exit st) = Some st"
| "exit_status (Return st) = Some st"
| "exit_status _ = None"

text \<open>
  What the library relies on between two switches of the fiber at \<open>f\<close>: its own thread pointer is
  installed when it makes a call that asks for the current fiber (a return and a process exit know
  the record without it), the calling frame is on its stack, the context saved is not the
  all-zero one, and \<open>process_exit\<close> is given the running fiber, as \<open>root_entry\<close> does. What it writes
  to memory is its own affair.
\<close>

fun asks_current :: "call \<Rightarrow> bool" where
  "asks_current (Call_process_exit g st) \<longleftrightarrow> False"
| "asks_current (Return st) \<longleftrightarrow> False"
| "asks_current _ \<longleftrightarrow> True"

definition move_ok :: "('c, 'r) arch \<Rightarrow> u64 \<Rightarrow> 'c fiber \<Rightarrow> ('r, 'w) move \<Rightarrow> bool" where
  "move_ok A f fb mv \<longleftrightarrow> (asks_current (m_call mv) \<longrightarrow> m_tp mv = thread_pointer (f_block fb)) \<and>
     m_frame mv \<noteq> 0 \<and> m_frame mv \<in> stack_range fb \<and>
     a_save A (m_regs mv) \<noteq> a_zero A \<and> (\<forall>g st. m_call mv = Call_process_exit g st \<longrightarrow> g = f)"

text \<open>The record and the state after a resume.\<close>

definition resumed_fiber :: "('c, 'r) arch \<Rightarrow> ('r, 'w) move \<Rightarrow> 'c fiber \<Rightarrow> 'c fiber" where
  "resumed_fiber A mv fb =
     (case exit_status (m_call mv) of
        None \<Rightarrow> fb\<lparr>f_context := a_save A (m_regs mv), f_return_to := 0\<rparr>
      | Some st \<Rightarrow> (poison A fb)\<lparr>f_status := st, f_return_to := 0\<rparr>)"

definition carried_request :: "u64 \<Rightarrow> ('r, 'w) move \<Rightarrow> fiber_request" where
  "carried_request f mv = \<lparr>r_kind = call_kind (m_call mv), r_ask = call_ask (m_call mv), r_result = 0, r_fiber = f\<rparr>"

definition resumed ::
    "('c, 'r) arch \<Rightarrow> u64 \<Rightarrow> 'c fiber \<Rightarrow> ('r, 'w) move \<Rightarrow> ('k, 'c, 'w, 'z) fstate \<Rightarrow> ('k, 'c, 'w, 'z) fstate" where
  "resumed A f fb mv s =
     s\<lparr>fibers := (fibers s)(f \<mapsto> resumed_fiber A mv fb), requests := (requests s)(m_frame mv \<mapsto> carried_request f mv),
       activations := (activations s)(f \<mapsto> In_call (m_frame mv)), mem := m_mem mv, world := m_world mv\<rparr>"

lemma exit_status_kind: "exit_status c = None \<longleftrightarrow> call_kind c \<noteq> REQUEST_EXIT"
  by (cases c) auto

definition called_fiber :: "('c, 'r) arch \<Rightarrow> ('r, 'w) move \<Rightarrow> 'c fiber \<Rightarrow> 'c fiber" where
  "called_fiber A mv fb =
     (case exit_status (m_call mv) of
        None \<Rightarrow> fb\<lparr>f_context := a_save A (m_regs mv)\<rparr>
      | Some st \<Rightarrow> fb\<lparr>f_status := st, f_context := a_save A (m_regs mv)\<rparr>)"

text \<open>Every call suspends the fiber whose thread pointer is installed.\<close>

lemma do_call_suspends:
  assumes fb: "fibers s f = Some fb" "f_return_to fb = here" "here \<noteq> 0"
    and cur: "asks_current (m_call mv) \<Longrightarrow> libuc_fiber_current s = Done f" and pe: "\<And>g st. m_call mv = Call_process_exit g st \<Longrightarrow> g = f"
  shows "do_call A here f mv s =
    Done (m_frame mv, s\<lparr>requests := (requests s)(m_frame mv \<mapsto> new_request (call_kind (m_call mv)) (call_ask (m_call mv))),
      fibers := (fibers s)(f \<mapsto> called_fiber A mv fb),
      activations := (activations s)(f \<mapsto> In_call (m_frame mv))\<rparr>)"
  using fb cur pe
  by (cases "m_call mv")
    (auto simp: do_call_def called_fiber_def Let_def suspend_def exit_fiber_def set_fiber_def libuc_fiber_exit_def
      libuc_fiber_yield_def libuc_fiber_await_def libuc_fiber_start_def libuc_fiber_join_def
      libuc_fiber_detach_def libuc_fiber_process_exit_def)

lemma resume_eq:
  assumes fb: "fibers s f = Some fb" and wf: "fiber_wf s f fb" and live: "resumable A s f fb"
    and here: "here \<noteq> 0" and res: "resumes_as f s = Done res"
    and mv: "mv = U f (f_entry fb, f_argument fb) (f_context fb) res (world s) (mem s) (kern s)" "move_ok A f fb mv"
  shows "libuc_fiber_resume A U here f s = Done (m_frame mv, resumed A f fb mv s)"
proof -
  let ?fb1 = "fb\<lparr>f_return_to := here\<rparr>"
  let ?s2 = "s\<lparr>fibers := (fibers s)(f \<mapsto> ?fb1), tp := thread_pointer (f_block fb)\<rparr>"
  let ?s3 = "?s2\<lparr>mem := m_mem mv, tp := m_tp mv, world := m_world mv\<rparr>"
  have c: "f_context fb \<noteq> a_zero A" using live by (simp add: resumable_def)
  have "resumes_as f ?s2 = Done res"
    using res fb by (auto simp: resumes_as_def outcome_simps split: activation.splits if_splits)
  moreover obtain t where t: "tcbs s (thread_pointer (f_block fb)) = Some t" "tcb_fiber t = f"
    "thread_pointer (f_block fb) \<noteq> 0"
    using wf by (auto simp: fiber_wf_def)
  then have cur: "libuc_fiber_current ?s3 = Done f" if "asks_current (m_call mv)"
    using that mv(2) by (simp add: libuc_fiber_current_def thread_local_read_def move_ok_def Let_def)
  have call: "do_call A here f mv ?s3 =
    Done (m_frame mv, ?s3\<lparr>requests := (requests s)(m_frame mv \<mapsto> new_request (call_kind (m_call mv)) (call_ask (m_call mv))),
      fibers := (fibers s)(f \<mapsto> called_fiber A mv ?fb1),
      activations := (activations s)(f \<mapsto> In_call (m_frame mv))\<rparr>)"
    using do_call_suspends [of ?s3 f ?fb1 here mv A] here mv(2) cur by (simp add: move_ok_def)
  ultimately have "run_program A U here f (f_context fb) ?s2 = do_call A here f mv ?s3"
    using c by (simp add: run_program_def mv(1) Let_def)
  note run = trans [OF this call]
  have q: "m_frame mv \<noteq> 0" using mv(2) by (simp add: move_ok_def)
  note defs = libuc_fiber_resume_def set_fiber_def set_request_def thread_local_read_def
    thread_local_install_def new_request_def Let_def fb run q
  show ?thesis
  proof (cases "exit_status (m_call mv)")
    case None
    then have "call_kind (m_call mv) \<noteq> REQUEST_EXIT" by (simp add: exit_status_kind)
    then show ?thesis
      by (simp add: defs) (rule fiber_machine.equality;
        simp add: resumed_def carried_request_def called_fiber_def resumed_fiber_def None)
  next
    case (Some st)
    then have "call_kind (m_call mv) = REQUEST_EXIT" by (metis exit_status_kind option.distinct(1))
    moreover have "poison A (called_fiber A mv (fb\<lparr>f_return_to := here\<rparr>))\<lparr>f_return_to := 0\<rparr> = resumed_fiber A mv fb"
      by (rule fiber.equality) (simp_all add: called_fiber_def resumed_fiber_def poison_def Some)
    ultimately show ?thesis
      by (simp add: defs) (rule fiber_machine.equality; simp add: resumed_def carried_request_def)
  qed
qed

text \<open>A fiber that can be resumed resumes somewhere.\<close>

lemma resumes_as_resumable:
  assumes fb: "fibers s f = Some fb" and live: "resumable A s f fb"
  obtains res where "resumes_as f s = Done res"
proof -
  obtain a where "activations s f = Some a" "suspended_at s f fb a"
    using live by (auto simp: resumable_def)
  then show ?thesis
    using fb that by (cases a) (auto simp: resumes_as_def suspended_at_def)
qed

section \<open>Spawning and destroying\<close>

lemma machine_more_eqD:
  fixes s s' :: "('k, 'c, 'w, 'z) fstate"
  assumes "machine.more s' = machine.more s"
  shows "fibers s' = fibers s" "requests s' = requests s" "activations s' = activations s" "world s' = world s"
    "fiber_machine.more s' = fiber_machine.more s"
  using assms by (cases s, cases s', simp)+

text \<open>A record placed by \<open>fiber_address\<close> is inside a page-aligned mapping longer than it.\<close>

lemma fiber_address_in:
  assumes size: "0 < a_fiber_size A" "a_fiber_size A < len"
    and m: "4096 dvd unat stk" "unat stk + unat len \<le> 2 ^ 64"
  shows "fiber_address A stk len \<in> region stk len"
proof -
  let ?n = "unat len - unat (a_fiber_size A)"
  let ?t = "unat stk + ?n"
  have lt: "unat (a_fiber_size A) < unat len" "0 < unat (a_fiber_size A)"
    using size by (simp_all add: word_less_nat_alt)
  have top: "unat ((stk + len) - a_fiber_size A) = ?t"
  proof -
    have "(stk + len) - a_fiber_size A = stk + (len - a_fiber_size A)" by simp
    moreover have "unat (len - a_fiber_size A) = ?n" using lt by (simp add: unat_sub word_le_nat_alt)
    moreover have "unat stk + ?n < 2 ^ 64" using m(2) lt by linarith
    ultimately show ?thesis by (simp only: unat_word_ariths) simp
  qed
  have "unat (fiber_address A stk len) = ?t - ?t mod 8"
    using unat_align_down [of alignof_fiber "(stk + len) - a_fiber_size A"] top
    by (simp add: fiber_address_def alignof_fiber_def minus_mod_eq_div_mult)
  moreover have "unat stk \<le> ?t - ?t mod 8"
  proof -
    have "8 dvd unat stk" using m(1) by (rule dvd_trans [rotated]) simp
    then obtain c where c: "unat stk = 8 * c" ..
    have "8 * c \<le> ?t div 8 * 8" unfolding c by simp
    then show ?thesis using c by (simp add: minus_mod_eq_div_mult)
  qed
  ultimately show ?thesis using lt m(2) by (simp add: in_region_nat)
qed

definition spawned_as :: "('c, 'r) arch \<Rightarrow> u64 \<Rightarrow> u64 \<Rightarrow> u64 \<Rightarrow> u64 set \<Rightarrow> u64 set \<Rightarrow> ('k, 'c, 'w, 'z) fstate \<Rightarrow> u64 \<Rightarrow> 'c fiber \<Rightarrow> bool" where
  "spawned_as A len ent arg old now s f fb \<longleftrightarrow>
     fibers s f = Some fb \<and> fiber_wf s f fb \<and> resumable A s f fb \<and> footprint fb \<inter> old = {} \<and> footprint fb \<subseteq> now \<and>
     f_entry fb = ent \<and> f_argument fb = arg \<and> f_stack_length fb = len \<and> f_life fb = FIBER_LIVE \<and> f_joiner fb = 0 \<and>
     activations s f = Some At_entry \<and> f_context fb = a_make A f (a_run_fiber A) f"

locale fiber_arch = tls_abi "a_place A" for A :: "('c, 'r) arch" +
  assumes size_pos: "0 < a_fiber_size A"
    and make_nonzero: "x \<noteq> 0 \<Longrightarrow> a_make A t g x \<noteq> a_zero A"
begin

text \<open>A spawn whose stack is mapped: the record is written, and the thread-local block may or may not follow.\<close>

lemma spawn_unwinds:
  fixes s :: "('k, 'c, 'w, 'z) fstate"
  assumes K: "mmap_ok mapped K" "munmap_ok mapped K" and lay: "process_layout s = Some l" and len: "a_fiber_size A < len"
    and mm: "k_mmap K 0 len prot_rw map_private_anonymous (- 1) 0 (mem s) (kern s) = (stk, m, k)" "\<not> libuc_syscall_failed stk"
    and f: "f = fiber_address A stk len" "f \<in> region stk len"
    and cr: "libuc_thread_local_block_create K (a_place A)
      (s\<lparr>mem := m, kern := k, fibers := (fibers s)(f \<mapsto> new_fiber A stk len ent arg)\<rparr>) = Some (None, s3)"
  shows "\<exists>s'. libuc_fiber_spawn K A len ent arg s = ret (0, s') \<and> frame_on (mapped (kern s)) s s' \<and>
    mapped (kern s) \<subseteq> mapped (kern s') \<and> dom (activations s') \<subseteq> dom (activations s)"
proof -
  note M = mmap_okD [OF K(1) mm]
  note C = create_failed [OF K _ cr, simplified, OF lay]
  note more = machine_more_eqD [OF C(4)]
  obtain r m4 k4 where mu: "k_munmap K stk len (mem s3) (kern s3) = (r, m4, k4)" by (metis prod_cases3)
  let ?s4 = "snd (munmap_objects K stk len s3)"
  have "frame_on (mapped (kern s)) s ?s4"
    unfolding frame_on_def
    using C(2,3,5,6) more M(4,5) f(2) lay
    by (auto simp: munmap_objects_def munmap_range_def mu forget_range_def restrict_map_def)
  moreover have "mapped (kern s) \<subseteq> mapped (kern ?s4)"
    using munmap_okD [OF K(2) mu] C(1) M(4,5)
    by (cases "libuc_syscall_failed r") (auto simp: munmap_objects_def munmap_range_def mu forget_range_def)
  moreover have "dom (activations ?s4) \<subseteq> dom (activations s)"
    using more by (auto simp: munmap_objects_def munmap_range_def mu forget_range_def)
  moreover have "libuc_fiber_spawn K A len ent arg s = ret (0, ?s4)"
    using not_le [THEN iffD2, OF len] mm cr f(1) by (simp add: libuc_fiber_spawn_def mmap_anonymous_def Let_def)
  ultimately show ?thesis by blast
qed

lemma spawn_succeeds:
  fixes s :: "('k, 'c, 'w, 'z) fstate"
  assumes K: "mmap_ok mapped K" and lay: "process_layout s = Some l" "layout_ok l" and len: "a_fiber_size A < len"
    and mm: "k_mmap K 0 len prot_rw map_private_anonymous (- 1) 0 (mem s) (kern s) = (stk, m, k)" "\<not> libuc_syscall_failed stk"
    and f: "f = fiber_address A stk len" "f \<in> region stk len" "f \<noteq> 0"
    and cr: "libuc_thread_local_block_create K (a_place A)
      (s\<lparr>mem := m, kern := k, fibers := (fibers s)(f \<mapsto> new_fiber A stk len ent arg)\<rparr>) = Some (Some b, s3)"
  shows "\<exists>s' fb. libuc_fiber_spawn K A len ent arg s = ret (f, s') \<and> frame_on (mapped (kern s)) s s' \<and>
    mapped (kern s) \<subseteq> mapped (kern s') \<and> activations s' = (activations s)(f \<mapsto> At_entry) \<and>
    spawned_as A len ent arg (mapped (kern s)) (mapped (kern s')) s' f fb"
proof -
  note M = mmap_okD [OF K mm]
  let ?s2 = "s\<lparr>mem := m, kern := k, fibers := (fibers s)(f \<mapsto> new_fiber A stk len ent arg)\<rparr>"
  have "\<And>l'. process_layout ?s2 = Some l' \<Longrightarrow> layout_ok l'" using lay by simp
  then obtain l' where C: "region (mapping b) (mapping_length b) \<inter> mapped (kern ?s2) = {}"
    "mapped (kern s3) = mapped (kern ?s2) \<union> region (mapping b) (mapping_length b)"
    "tcbs s3 = (tcbs ?s2)(thread_pointer b \<mapsto> \<lparr>tcb_self = thread_pointer b, tcb_fiber = 0\<rparr>)"
    "tp s3 = tp ?s2" "machine.more s3 = machine.more ?s2" "auxiliary_vector s3 = auxiliary_vector ?s2"
    "thread_pointer b \<in> region (mapping b) (mapping_length b)" "thread_pointer b \<noteq> 0"
    by (rule create_ok [OF K _ cr]) auto
  have pl: "process_layout s3 = process_layout s" using create_layout [OF _ cr, of l] lay(1) by simp
  note more = machine_more_eqD [OF C(5)]
  let ?fb = "(new_fiber A stk len ent arg)\<lparr>f_block := b, f_context := a_make A f (a_run_fiber A) f\<rparr>"
  let ?s6 = "s3\<lparr>fibers := (fibers s)(f \<mapsto> ?fb), tcbs := (tcbs s3)(thread_pointer b \<mapsto> \<lparr>tcb_self = thread_pointer b, tcb_fiber = f\<rparr>),
    activations := (activations s)(f \<mapsto> At_entry)\<rparr>"
  have "libuc_fiber_spawn K A len ent arg s = ret (f, ?s6)"
    using not_le [THEN iffD2, OF len] mm cr more C(3) f(1) by (simp add: libuc_fiber_spawn_def mmap_anonymous_def Let_def set_fiber_def set_tcb_def)
  moreover have "frame_on (mapped (kern s)) s ?s6"
    using C more M(4,5) f(2) pl by (auto simp: frame_on_def)
  moreover have "mapped (kern s) \<subseteq> mapped (kern ?s6)" using C(2) M(5) by auto
  moreover have "spawned_as A len ent arg (mapped (kern s)) (mapped (kern ?s6)) ?s6 f ?fb"
    using C f M(4,5) make_nonzero
    by (auto simp: spawned_as_def fiber_wf_def resumable_def footprint_def stack_range_def block_range_def new_fiber_def suspended_at_def)
  moreover have "activations ?s6 = (activations s)(f \<mapsto> At_entry)" using more by simp
  ultimately show ?thesis by blast
qed

lemma spawn_cases:
  fixes s :: "('k, 'c, 'w, 'z) fstate"
  assumes K: "mmap_ok mapped K" "munmap_ok mapped K" and lay: "process_layout s = Some l" "layout_ok l"
  obtains s' where "libuc_fiber_spawn K A len ent arg s = ret (0, s')"
      "frame_on (mapped (kern s)) s s'" "mapped (kern s) \<subseteq> mapped (kern s')"
      "dom (activations s') \<subseteq> dom (activations s)"
  | f s' fb where "libuc_fiber_spawn K A len ent arg s = ret (f, s')"
      "frame_on (mapped (kern s)) s s'" "mapped (kern s) \<subseteq> mapped (kern s')"
      "activations s' = (activations s)(f \<mapsto> At_entry)"
      "spawned_as A len ent arg (mapped (kern s)) (mapped (kern s')) s' f fb"
proof (cases "len \<le> a_fiber_size A")
  case True
  then show ?thesis using that(1) [of s] by (simp add: libuc_fiber_spawn_def)
next
  case False
  then have len: "a_fiber_size A < len" by simp
  obtain stk m k where mm: "k_mmap K 0 len prot_rw map_private_anonymous (- 1) 0 (mem s) (kern s) = (stk, m, k)"
    by (metis prod_cases3)
  show ?thesis
  proof (cases "libuc_syscall_failed stk")
    case True
    show ?thesis
      using mmap_ok_failD [OF K(1) mm True] len True
      by (intro that(1) [of "s\<lparr>mem := m, kern := k\<rparr>"]) (simp_all add: libuc_fiber_spawn_def mmap_anonymous_def mm Let_def frame_on_def)
  next
    case ok: False
    note M = mmap_okD [OF K(1) mm ok]
    define f where "f = fiber_address A stk len"
    have f: "f \<in> region stk len" "f \<noteq> 0"
      using len M(2,3) size_pos fiber_address_in [of A len stk] in_region_nonnull [OF M(3,1)] by (auto simp: f_def)
    obtain ob s3 where cr: "libuc_thread_local_block_create K (a_place A)
        (s\<lparr>mem := m, kern := k, fibers := (fibers s)(f \<mapsto> new_fiber A stk len ent arg)\<rparr>) = Some (ob, s3)" (is "?c = _")
      using create_total [of "s\<lparr>mem := m, kern := k, fibers := (fibers s)(f \<mapsto> new_fiber A stk len ent arg)\<rparr>" l K] lay
      by (cases ?c) auto
    show ?thesis
    proof (cases ob)
      case None
      show ?thesis using spawn_unwinds [OF K lay(1) len mm ok f_def f(1) cr [unfolded None]] that(1) by blast
    next
      case (Some b)
      show ?thesis using spawn_succeeds [OF K(1) lay len mm ok f_def f cr [unfolded Some]] that(2) by blast
    qed
  qed
qed

end

text \<open>Unmapping a range takes exactly the objects in it.\<close>

lemma munmap_objects_frame:
  assumes "munmap_ok mapped K" "munmap_objects K p n s = (r, s')"
  shows "frame_on (- region p n) s s'" "libuc_syscall_failed r \<Longrightarrow> mapped (kern s') = mapped (kern s)"
    "\<not> libuc_syscall_failed r \<Longrightarrow> mapped (kern s') = mapped (kern s) - region p n"
    "\<not> libuc_syscall_failed r \<Longrightarrow> a \<in> region p n \<Longrightarrow> fibers s' a = None"
    "\<not> libuc_syscall_failed r \<Longrightarrow> a \<in> region p n \<Longrightarrow> activations s' a = None"
    "dom (activations s') \<subseteq> dom (activations s)"
proof -
  obtain m k where mu: "k_munmap K p n (mem s) (kern s) = (r, m, k)"
    using assms(2) by (auto simp: munmap_objects_def munmap_range_def split: prod.splits)
  have s': "s' = (if libuc_syscall_failed r then s\<lparr>mem := m, kern := k, tcbs := tcbs s\<rparr>
      else forget_range p n (s\<lparr>mem := m, kern := k, tcbs := tcbs s |` (- region p n)\<rparr>))"
    using assms(2) by (simp add: munmap_objects_def munmap_range_def mu split: if_splits)
  show "frame_on (- region p n) s s'" "libuc_syscall_failed r \<Longrightarrow> mapped (kern s') = mapped (kern s)"
    "\<not> libuc_syscall_failed r \<Longrightarrow> mapped (kern s') = mapped (kern s) - region p n"
    "\<not> libuc_syscall_failed r \<Longrightarrow> a \<in> region p n \<Longrightarrow> fibers s' a = None"
    "\<not> libuc_syscall_failed r \<Longrightarrow> a \<in> region p n \<Longrightarrow> activations s' a = None"
    "dom (activations s') \<subseteq> dom (activations s)"
    using s' munmap_okD(2,3) [OF assms(1) mu]
    by (simp_all add: forget_range_def frame_on_def restrict_map_def dom_def) blast
qed

lemma block_destroy_objects_eq:
  "block_destroy_objects K b s =
     (case munmap_objects K (mapping b) (mapping_length b) s of (r, s') \<Rightarrow> (\<not> libuc_syscall_failed r, s'))"
  by (simp add: block_destroy_objects_def libuc_thread_local_block_destroy_def munmap_objects_def split: prod.splits)

lemma destroy_ok:
  assumes K: "munmap_ok mapped K" and wf: "fibers_wf mapped F s" and t: "t \<in> F" "fibers s t = Some tb"
  obtains ok s' where "libuc_fiber_destroy K t s = Done (ok, s')" "frame_on (- footprint tb) s s'"
    "ok \<Longrightarrow> mapped (kern s') = mapped (kern s) - footprint tb" "ok \<Longrightarrow> fibers_wf mapped (F - {t}) s'"
    "ok \<Longrightarrow> fibers s' t = None" "ok \<Longrightarrow> dom (activations s) \<subseteq> F \<Longrightarrow> dom (activations s') \<subseteq> F - {t}"
proof -
  obtain r1 s1 where m1: "munmap_objects K (mapping (f_block tb)) (mapping_length (f_block tb)) s = (r1, s1)"
    by fastforce
  note M1 = munmap_objects_frame [OF K m1]
  obtain r2 s2 where m2: "munmap_objects K (f_stack tb) (f_stack_length tb) s1 = (r2, s2)" by fastforce
  note M2 = munmap_objects_frame [OF K m2]
  have tw: "fiber_wf s t tb" using wf t by (auto elim!: fibers_wfD)
  then have "t \<notin> block_range tb" by (auto simp: fiber_wf_def)
  then have t1: "fibers s1 t = Some tb"
    using M1(1) t(2) by (auto simp: frame_on_def block_range_def)
  let ?ok = "\<not> libuc_syscall_failed r1 \<and> \<not> libuc_syscall_failed r2"
  have d: "libuc_fiber_destroy K t s = Done (?ok, s2)"
    by (simp add: libuc_fiber_destroy_def t(2) block_destroy_objects_eq m1 t1 m2)
  have fr: "frame_on (- footprint tb) s s2"
    by (rule frame_on_trans [OF frame_on_mono [OF M1(1)] frame_on_mono [OF M2(1)]])
      (simp_all add: footprint_def stack_range_def block_range_def)
  have mp: "mapped (kern s2) = mapped (kern s) - footprint tb" if ?ok
    using that M1(3) M2(3) by (auto simp: footprint_def stack_range_def block_range_def)
  have "fibers_wf mapped (F - {t}) s2" if ?ok
  proof (rule fibers_wf_frame [OF wf fr])
    fix f fb assume f: "f \<in> F - {t}" "fibers s f = Some fb"
    then have "footprint fb \<inter> footprint tb = {}" using fibers_wf_apart [OF wf _ t(1) _ f(2) t(2)] by blast
    moreover have "footprint fb \<subseteq> mapped (kern s)" using wf f by (auto elim!: fibers_wfD)
    ultimately show "footprint fb \<subseteq> - footprint tb \<and> footprint fb \<subseteq> mapped (kern s2)" using mp [OF that] by auto
  qed simp
  moreover have "fibers s2 t = None" "activations s2 t = None" if ?ok
    using that M2(4,5) tw by (simp_all add: fiber_wf_def stack_range_def)
  moreover have "dom (activations s2) \<subseteq> dom (activations s)" using M1(6) M2(6) by blast
  ultimately show ?thesis using that [of ?ok s2] d fr mp by fastforce
qed

text \<open>What the memory calls of the kernel leave alone, spawning and destroying leave alone.\<close>

definition inert :: "('k \<Rightarrow> 'a) \<Rightarrow> ('k, 'y) kernel_scheme \<Rightarrow> bool" where
  "inert g K \<longleftrightarrow>
     (\<forall>a len prot flags d off m k r m' k'. k_mmap K a len prot flags d off m k = (r, m', k') \<longrightarrow> g k' = g k) \<and>
     (\<forall>a len m k r m' k'. k_munmap K a len m k = (r, m', k') \<longrightarrow> g k' = g k)"

lemma munmap_objects_inert: "inert g K \<Longrightarrow> munmap_objects K p n s = (r, s') \<Longrightarrow> g (kern s') = g (kern s)"
  by (auto simp: inert_def munmap_objects_def munmap_range_def forget_range_def split: prod.splits if_splits)

lemma block_create_inert:
  assumes "inert g K" "libuc_thread_local_block_create K place s = Some (ob, s')" "process_layout s = Some l"
  shows "g (kern s') = g (kern s)"
proof -
  have m: "\<And>a len prot flags d off m k r m' k'. k_mmap K a len prot flags d off m k = (r, m', k') \<Longrightarrow> g k' = g k"
    "\<And>a len m k r m' k'. k_munmap K a len m k = (r, m', k') \<Longrightarrow> g k' = g k"
    using assms(1) unfolding inert_def by blast+
  show ?thesis
    using assms(2,3)
    by (auto simp: libuc_thread_local_block_create_def libuc_thread_local_layout_def mmap_anonymous_def
        munmap_range_def Let_def dest!: m split: option.splits prod.splits if_splits)
qed

lemma spawn_inert:
  assumes g: "inert g K" and lay: "process_layout s = Some l" and sp: "libuc_fiber_spawn K A len ent arg s = ret (f, s')"
  shows "g (kern s') = g (kern s)"
proof (cases "len \<le> a_fiber_size A")
  case True
  then show ?thesis using sp by (simp add: libuc_fiber_spawn_def)
next
  case False
  obtain stk m1 k1 where mm: "k_mmap K 0 len prot_rw map_private_anonymous (- 1) 0 (mem s) (kern s) = (stk, m1, k1)"
    by (metis prod_cases3)
  then have k1: "g k1 = g (kern s)" using g unfolding inert_def by blast
  let ?s2 = "s\<lparr>mem := m1, kern := k1, fibers := (fibers s)(fiber_address A stk len \<mapsto> new_fiber A stk len ent arg)\<rparr>"
  show ?thesis
  proof (cases "libuc_syscall_failed stk")
    case True
    then show ?thesis using sp False k1 by (auto simp: libuc_fiber_spawn_def mmap_anonymous_def mm)
  next
    case ok: False
    obtain ob s3 where cr: "libuc_thread_local_block_create K (a_place A) ?s2 = Some (ob, s3)"
      using sp False ok by (cases "libuc_thread_local_block_create K (a_place A) ?s2")
        (auto simp: libuc_fiber_spawn_def mmap_anonymous_def mm Let_def)
    have k3: "g (kern s3) = g (kern s)" using block_create_inert [OF g cr] lay k1 by simp
    then show ?thesis
      using sp False ok cr munmap_objects_inert [OF g, of stk len s3]
      by (cases ob; cases "munmap_objects K stk len s3")
        (auto simp: libuc_fiber_spawn_def mmap_anonymous_def mm Let_def set_fiber_def set_tcb_def outcome_simps)
  qed
qed

lemma destroy_inert:
  assumes g: "inert g K" and d: "libuc_fiber_destroy K t s = Done (ok, s')"
  shows "g (kern s') = g (kern s)"
proof -
  obtain tb where tb: "fibers s t = Some tb" using d by (cases "fibers s t") (simp_all add: libuc_fiber_destroy_def)
  obtain r1 s1 where m1: "munmap_objects K (mapping (f_block tb)) (mapping_length (f_block tb)) s = (r1, s1)"
    by fastforce
  obtain tb1 where tb1: "fibers s1 t = Some tb1"
    using d tb m1 by (cases "fibers s1 t") (simp_all add: libuc_fiber_destroy_def block_destroy_objects_eq)
  then show ?thesis
    using d tb m1 munmap_objects_inert [OF g m1] munmap_objects_inert [OF g, of "f_stack tb1" "f_stack_length tb1" s1]
    by (cases "munmap_objects K (f_stack tb1) (f_stack_length tb1) s1")
      (simp add: libuc_fiber_destroy_def block_destroy_objects_eq)
qed

section \<open>The architectures\<close>

lemma replicate_10: "replicate 10 x = [x, x, x, x, x, x, x, x, x, x]"
  by (simp add: numeral_eq_Suc)

interpretation x86_64_fibers: fiber_arch "x86_64_arch fiber_start run_fiber" for fiber_start run_fiber
  by unfold_locales
    (simp_all add: x86_64_arch_def x86_64_fiber_context_make_def x86_64_tls.place_fits x86_64_tls.place_disjoint
      x86_64_tls.place_aligned)

interpretation aarch64_fibers: fiber_arch "aarch64_arch fiber_start run_fiber" for fiber_start run_fiber
  by unfold_locales
    (simp_all add: aarch64_arch_def aarch64_fiber_context_make_def aarch64_tls.place_fits aarch64_tls.place_disjoint
      aarch64_tls.place_aligned replicate_10)

end
