(* ===== verification/Uc_Scheduler.thy ===== *)
theory Uc_Scheduler
  imports Uc_Fiber
begin

text \<open>
  \<open>src/scheduler\<close>: the reactor. It keeps a FIFO of ready fibers, linked through their records,
  resumes each of a generation once, acts on the request each resume brings back, submits the
  awaited operations and wakes the fibers whose completions arrive, until a process-exit request
  stops it or nothing is left to run.
\<close>

section \<open>State\<close>

record ('k, 'c, 'w) system = "('k, 'c, 'w) fiber_machine" +
  sring :: ring
  ready_head :: u64
  ready_tail :: u64
  ready_count :: u32
  parked_count :: u32
  joining_count :: u32

text \<open>\<open>constexpr uint32_t __libuc_scheduler_ring_entries = 1U << 10\<close>.\<close>

definition scheduler_ring_entries :: u32 where "scheduler_ring_entries = push_bit 10 1"

definition zero_ring :: ring where
  "zero_ring = \<lparr>ring_mapping = 0, ring_mapping_length = 0, sqes_ptr = 0, sqes_mapping_length = 0, cq_head_ptr = 0,
     cq_tail_ptr = 0, cqes_ptr = 0, descriptor = 0, sq_entries = 0, cq_entries = 0, cq_mask = 0, batch_count = 0,
     sqes = [], cq_head = 0, cq_tail = 0, cqes = []\<rparr>"

definition libuc_scheduler_become ::
    "('k, 'y) ring_kernel_scheme \<Rightarrow> ('k, 'c, 'w) system \<Rightarrow> bool \<times> ('k, 'c, 'w) system" where
  "libuc_scheduler_become K s =
     (let s0 = s\<lparr>sring := zero_ring, ready_head := 0, ready_tail := 0, ready_count := 0, parked_count := 0, joining_count := 0\<rparr> in
      case libuc_ring_create K scheduler_ring_entries s0 of
        (None, s1) \<Rightarrow> (False, s1)
      | (Some r, s1) \<Rightarrow> (True, s1\<lparr>sring := r\<rparr>))"

section \<open>The ready queue\<close>

definition libuc_scheduler_enqueue :: "u64 \<Rightarrow> ('k, 'c, 'w) system \<Rightarrow> ('k, 'c, 'w) system outcome" where
  "libuc_scheduler_enqueue f s =
     obind (set_fiber f (\<lambda>fb. fb\<lparr>f_ready_next := 0\<rparr>) (s\<lparr>ready_count := ready_count s + 1\<rparr>)) (\<lambda>s1.
     obind (if ready_tail s1 = 0 then Done (s1\<lparr>ready_head := f\<rparr>)
            else set_fiber (ready_tail s1) (\<lambda>fb. fb\<lparr>f_ready_next := f\<rparr>) s1) (\<lambda>s2.
     Done (s2\<lparr>ready_tail := f\<rparr>)))"

text \<open>The first statements of a turn.\<close>

definition dequeue :: "('k, 'c, 'w) system \<Rightarrow> (u64 \<times> ('k, 'c, 'w) system) outcome" where
  "dequeue s =
     (let f = ready_head s in
      obind (deref (fibers s f)) (\<lambda>fb.
        let s1 = s\<lparr>ready_head := f_ready_next fb, ready_count := ready_count s - 1\<rparr>;
            s2 = (if ready_head s1 = 0 then s1\<lparr>ready_tail := 0\<rparr> else s1)
        in obind (set_fiber f (\<lambda>fb. fb\<lparr>f_ready_next := 0\<rparr>) s2) (\<lambda>s3. Done (f, s3))))"

section \<open>Requests\<close>

definition park ::
    "('k, 'y) ring_kernel_scheme \<Rightarrow> u64 \<Rightarrow> ('k, 'c, 'w) system \<Rightarrow> ('k, 'c, 'w) system run" where
  "park K q s =
     rbind (Some (deref (requests s q))) (\<lambda>rq.
       case r_ask rq of
         Await_argument await \<Rightarrow>
           if sq_flags await \<noteq> 0 \<or> parked_count s = cq_entries (sring s) then Some Trap
           else rbind (append_or_flush libuc_ring_append_sqe (libuc_ring_submit K) (sring s) (kern s)) (\<lambda>(i, r, k).
             ret (s\<lparr>sring := fill_slot i (await\<lparr>sq_user_data := q\<rparr>) r, kern := k, parked_count := parked_count s + 1\<rparr>))
       | _ \<Rightarrow> Some Fault)"

text \<open>\<open>if (!__libuc_fiber_destroy(fiber)) __builtin_trap();\<close>\<close>

definition destroy_or_trap ::
    "('k, 'y) kernel_scheme \<Rightarrow> u64 \<Rightarrow> ('k, 'c, 'w) system \<Rightarrow> ('k, 'c, 'w) system outcome" where
  "destroy_or_trap K f s =
     obind (libuc_fiber_destroy K f s) (\<lambda>(ok, s'). obind (trap_unless ok) (\<lambda>_. Done s'))"

definition handle_exit ::
    "('k, 'y) kernel_scheme \<Rightarrow> u64 \<Rightarrow> ('k, 'c, 'w) system \<Rightarrow> ('k, 'c, 'w) system outcome" where
  "handle_exit K f s =
     obind (deref (fibers s f)) (\<lambda>fb.
       if f_life fb = FIBER_DETACHED then destroy_or_trap K f s
       else if f_joiner fb = 0 then Done s
       else
         obind (set_request (f_joiner fb) (\<lambda>rq. rq\<lparr>r_result := scast (f_status fb)\<rparr>)
                 (s\<lparr>joining_count := joining_count s - 1\<rparr>)) (\<lambda>s1.
         obind (destroy_or_trap K f s1) (\<lambda>s2.
         obind (deref (requests s2 (f_joiner fb))) (\<lambda>rq.
         libuc_scheduler_enqueue (r_fiber rq) s2))))"

definition handle_spawn ::
    "('k, 'y) kernel_scheme \<Rightarrow> ('c, 'r) arch \<Rightarrow> u64 \<Rightarrow> u64 \<Rightarrow> ('k, 'c, 'w) system \<Rightarrow> ('k, 'c, 'w) system run" where
  "handle_spawn K A f q s =
     rbind (Some (deref (requests s q))) (\<lambda>rq.
       case r_ask rq of
         Spawn_argument sp \<Rightarrow>
           rbind (libuc_fiber_spawn K A (sr_stack_length sp) (sr_entry sp) (sr_argument sp) s) (\<lambda>(spawned, s1).
             Some (obind (set_request q (\<lambda>rq. rq\<lparr>r_result := spawned\<rparr>) s1) (\<lambda>s2.
               obind (libuc_scheduler_enqueue f s2) (\<lambda>s3.
               if spawned \<noteq> 0 then libuc_scheduler_enqueue spawned s3 else Done s3))))
       | _ \<Rightarrow> Some Fault)"

definition handle_join ::
    "('k, 'y) kernel_scheme \<Rightarrow> u64 \<Rightarrow> u64 \<Rightarrow> ('k, 'c, 'w) system \<Rightarrow> ('k, 'c, 'w) system outcome" where
  "handle_join K f q s =
     obind (deref (requests s q)) (\<lambda>rq.
       case r_ask rq of
         Target t \<Rightarrow>
           if t = f then Trap
           else obind (deref (fibers s t)) (\<lambda>tb.
             if f_joiner tb \<noteq> 0 \<or> f_life tb = FIBER_DETACHED then Trap
             else if f_life tb = FIBER_EXITED
             then obind (set_request q (\<lambda>rq. rq\<lparr>r_result := scast (f_status tb)\<rparr>) s) (\<lambda>s1.
                  obind (destroy_or_trap K t s1) (\<lambda>s2.
                  libuc_scheduler_enqueue f s2))
             else obind (set_fiber t (\<lambda>tb. tb\<lparr>f_joiner := q\<rparr>) s) (\<lambda>s1.
                  Done (s1\<lparr>joining_count := joining_count s1 + 1\<rparr>)))
       | _ \<Rightarrow> Fault)"

definition handle_detach ::
    "('k, 'y) kernel_scheme \<Rightarrow> u64 \<Rightarrow> u64 \<Rightarrow> ('k, 'c, 'w) system \<Rightarrow> ('k, 'c, 'w) system outcome" where
  "handle_detach K f q s =
     obind (deref (requests s q)) (\<lambda>rq.
       case r_ask rq of
         Target t \<Rightarrow>
           obind (deref (fibers s t)) (\<lambda>tb.
             if f_joiner tb \<noteq> 0 \<or> f_life tb = FIBER_DETACHED then Trap
             else obind (if f_life tb = FIBER_EXITED then destroy_or_trap K t s
                         else set_fiber t (\<lambda>tb. tb\<lparr>f_life := FIBER_DETACHED\<rparr>) s) (\<lambda>s1.
                  libuc_scheduler_enqueue f s1))
       | _ \<Rightarrow> Fault)"

text \<open>The switch on the request's kind; \<open>Some\<close> status stops the reactor.\<close>

definition handle ::
    "('k, 'y) ring_kernel_scheme \<Rightarrow> ('c, 'r) arch \<Rightarrow> u64 \<Rightarrow> u64 \<Rightarrow> ('k, 'c, 'w) system \<Rightarrow>
     (i32 option \<times> ('k, 'c, 'w) system) run" where
  "handle K A f q s =
     rbind (Some (deref (requests s q))) (\<lambda>rq.
       let go = (\<lambda>m. rbind m (\<lambda>s'. ret (None, s'))) in
       case r_kind rq of
         REQUEST_YIELD \<Rightarrow> go (Some (libuc_scheduler_enqueue f s))
       | REQUEST_EXIT \<Rightarrow> go (Some (handle_exit K f s))
       | REQUEST_AWAIT \<Rightarrow> go (park K q s)
       | REQUEST_SPAWN \<Rightarrow> go (handle_spawn K A f q s)
       | REQUEST_JOIN \<Rightarrow> go (Some (handle_join K f q s))
       | REQUEST_DETACH \<Rightarrow> go (Some (handle_detach K f q s))
       | REQUEST_PROCESS_EXIT \<Rightarrow>
           (case r_ask rq of Status st \<Rightarrow> ret (Some (ucast st), s) | _ \<Rightarrow> Some Fault))"

section \<open>The reactor\<close>

definition turn ::
    "('k, 'y) ring_kernel_scheme \<Rightarrow> ('c, 'r) arch \<Rightarrow> ('k, 'c, 'r, 'w) prog \<Rightarrow> u64 \<Rightarrow> ('k, 'c, 'w) system \<Rightarrow>
     (i32 option \<times> ('k, 'c, 'w) system) run" where
  "turn K A U here s =
     rbind (Some (dequeue s)) (\<lambda>(f, s1).
     rbind (Some (libuc_fiber_resume A U here f s1)) (\<lambda>(q, s2).
     handle K A f q s2))"

text \<open>\<open>for (uint32_t turns = scheduler->ready_count; turns != 0; turns--)\<close>.\<close>

function run_turns ::
    "('k, 'y) ring_kernel_scheme \<Rightarrow> ('c, 'r) arch \<Rightarrow> ('k, 'c, 'r, 'w) prog \<Rightarrow> u64 \<Rightarrow> u32 \<Rightarrow> ('k, 'c, 'w) system \<Rightarrow>
     (i32 option \<times> ('k, 'c, 'w) system) run" where
  "run_turns K A U here turns s =
     (if turns = 0 then ret (None, s)
      else rbind (turn K A U here s) (\<lambda>(stop, s').
        case stop of Some st \<Rightarrow> ret (Some st, s') | None \<Rightarrow> run_turns K A U here (turns - 1) s'))"
  by auto
termination
  by (relation "measure (\<lambda>(K, A, U, here, turns, s). unat turns)") (auto simp: unat_pred_pos unat_gt_0)

declare run_turns.simps [simp del]

text \<open>\<open>IORING_CQE_F_MORE | IORING_CQE_F_NOTIF | IORING_CQE_F_SKIP\<close>.\<close>

definition stream_flags :: u32 where "stream_flags = push_bit 1 1 OR push_bit 3 1 OR push_bit 5 1"

definition wake :: "cqe \<Rightarrow> ('k, 'c, 'w) system \<Rightarrow> ('k, 'c, 'w) system outcome" where
  "wake c s =
     (if cq_flags c AND stream_flags \<noteq> 0 then Trap
      else let q = cq_user_data c in
        obind (set_request q (\<lambda>rq. rq\<lparr>r_result := scast (cq_res c)\<rparr>) s) (\<lambda>s1.
        obind (deref (requests s1 q)) (\<lambda>rq.
        libuc_scheduler_enqueue (r_fiber rq) (s1\<lparr>parked_count := parked_count s1 - 1\<rparr>))))"

partial_function (option) reap_loop :: "('k, 'c, 'w) system \<Rightarrow> ('k, 'c, 'w) system run" where
  "reap_loop s =
     rbind (Some (libuc_ring_reap (sring s))) (\<lambda>(c, r).
       case c of
         None \<Rightarrow> ret s
       | Some c \<Rightarrow> rbind (Some (wake c (s\<lparr>sring := r\<rparr>))) reap_loop)"

definition submit_and_wait ::
    "('k, 'y) ring_kernel_scheme \<Rightarrow> ('k, 'c, 'w) system \<Rightarrow> ('k, 'c, 'w) system run" where
  "submit_and_wait K s =
     (let min_complete = (if ready_count s = 0 then 1 else 0) in
      rbind (libuc_ring_submit K min_complete (sring s) (kern s)) (\<lambda>(res, r, k).
        if libuc_syscall_failed res then Some Trap else ret (s\<lparr>sring := r, kern := k\<rparr>)))"

partial_function (option) libuc_scheduler_run ::
    "('k, 'y) ring_kernel_scheme \<Rightarrow> ('c, 'r) arch \<Rightarrow> ('k, 'c, 'r, 'w) prog \<Rightarrow> u64 \<Rightarrow> ('k, 'c, 'w) system \<Rightarrow>
     (i32 \<times> ('k, 'c, 'w) system) run" where
  "libuc_scheduler_run K A U here s =
     (if parked_count s + ready_count s \<noteq> 0
      then rbind (run_turns K A U here (ready_count s) s) (\<lambda>(stop, s1).
        case stop of
          Some st \<Rightarrow> ret (st, s1)
        | None \<Rightarrow>
            if parked_count s1 = 0 then libuc_scheduler_run K A U here s1
            else rbind (submit_and_wait K s1) (\<lambda>s2.
              rbind (reap_loop s2) (libuc_scheduler_run K A U here)))
      else if joining_count s \<noteq> 0 then Some Trap
      else ret (0, s))"

section \<open>The ready queue is a FIFO\<close>

definition next_map :: "('k, 'c, 'w) system \<Rightarrow> u64 \<rightharpoonup> u64" where
  "next_map s = (\<lambda>p. map_option f_ready_next (fibers s p))"

definition ready_queue :: "('k, 'c, 'w) system \<Rightarrow> u64 list \<Rightarrow> bool" where
  "ready_queue s rs \<longleftrightarrow> chain (next_map s) (ready_head s) rs 0 \<and> distinct rs \<and>
     ready_tail s = (if rs = [] then 0 else last rs) \<and> ready_count s = of_nat (length rs)"

text \<open>Queue operations change links and queue fields only.\<close>

definition unlink :: "(u64 \<rightharpoonup> 'c fiber) \<Rightarrow> u64 \<rightharpoonup> 'c fiber" where
  "unlink fs = (\<lambda>p. map_option (\<lambda>fb. fb\<lparr>f_ready_next := 0\<rparr>) (fs p))"

definition relinked :: "('k, 'c, 'w) system \<Rightarrow> ('k, 'c, 'w) system \<Rightarrow> bool" where
  "relinked s s' \<longleftrightarrow> unlink (fibers s') = unlink (fibers s) \<and>
     s' = s\<lparr>fibers := fibers s', ready_head := ready_head s', ready_tail := ready_tail s', ready_count := ready_count s'\<rparr>"

lemma unlink_upd: "fs p = Some fb \<Longrightarrow> unlink (fs(p \<mapsto> fb\<lparr>f_ready_next := x\<rparr>)) = unlink fs"
  by (auto simp: unlink_def)

lemma next_map_upd: "map_option f_ready_next ((fs(p \<mapsto> fb\<lparr>f_ready_next := x\<rparr>)) a) =
    ((\<lambda>q. map_option f_ready_next (fs q))(p \<mapsto> x)) a"
  by simp

lemma enqueue_queue:
  assumes q: "ready_queue s rs" and f: "fibers s f = Some fb" "f \<noteq> 0" "f \<notin> set rs"
  obtains s' where "libuc_scheduler_enqueue f s = Done s'" "ready_queue s' (rs @ [f])" "relinked s s'"
proof (cases rs rule: rev_cases)
  case Nil
  let ?s = "s\<lparr>ready_count := ready_count s + 1, fibers := (fibers s)(f \<mapsto> fb\<lparr>f_ready_next := 0\<rparr>), ready_head := f, ready_tail := f\<rparr>"
  have "libuc_scheduler_enqueue f s = Done ?s"
    using q f by (simp add: libuc_scheduler_enqueue_def set_fiber_def ready_queue_def Nil)
  moreover have "ready_queue ?s (rs @ [f])"
    using q f by (simp add: ready_queue_def Nil next_map_def)
  moreover have "relinked s ?s" using f by (simp add: relinked_def unlink_upd)
  ultimately show ?thesis using that by blast
next
  case (snoc xs t)
  then have ch: "chain (next_map s) (ready_head s) (xs @ [t]) 0" and d: "t \<notin> set xs" "f \<noteq> t"
    using q f by (auto simp: ready_queue_def)
  then obtain tb where tb: "fibers s t = Some tb" "t \<noteq> 0"
    using chain_dom [OF ch] chain_non_null [OF ch] by (auto simp: next_map_def)
  let ?fs = "(fibers s)(f \<mapsto> fb\<lparr>f_ready_next := 0\<rparr>, t \<mapsto> tb\<lparr>f_ready_next := f\<rparr>)"
  let ?s = "s\<lparr>ready_count := ready_count s + 1, fibers := ?fs, ready_tail := f\<rparr>"
  have "libuc_scheduler_enqueue f s = Done ?s"
    using q f tb d by (simp add: libuc_scheduler_enqueue_def set_fiber_def ready_queue_def snoc)
  moreover have "next_map ?s = (next_map s)(f \<mapsto> 0, t \<mapsto> f)"
    by (rule ext) (simp add: next_map_def)
  then have "ready_queue ?s (rs @ [f])"
    using chain_snoc [OF ch d(1), of f] q f by (auto simp: ready_queue_def snoc)
  moreover have "unlink ?fs = unlink (fibers s)"
    using f(1) tb(1) d(2) by (auto simp: unlink_def)
  then have "relinked s ?s" by (simp add: relinked_def)
  ultimately show ?thesis using that by blast
qed

lemma dequeue_queue:
  assumes q: "ready_queue s (f # rs)"
  obtains s' where "dequeue s = Done (f, s')" "ready_queue s' rs" "relinked s s'"
proof -
  obtain fb where fb: "fibers s f = Some fb" and h: "ready_head s = f" "f \<noteq> 0"
    and ch: "chain (next_map s) (f_ready_next fb) rs 0" and d: "f \<notin> set rs" "distinct rs"
    using q by (auto simp: ready_queue_def next_map_def)
  let ?fs = "(fibers s)(f \<mapsto> fb\<lparr>f_ready_next := 0\<rparr>)"
  let ?s = "s\<lparr>fibers := ?fs, ready_head := f_ready_next fb, ready_tail := (if f_ready_next fb = 0 then 0 else ready_tail s),
    ready_count := ready_count s - 1\<rparr>"
  have "dequeue s = Done (f, ?s)"
    using fb h by (simp add: dequeue_def set_fiber_def Let_def)
  moreover have "next_map ?s = (next_map s)(f \<mapsto> 0)" by (rule ext) (simp add: next_map_def)
  then have "chain (next_map ?s) (f_ready_next fb) rs 0" using ch d by simp
  moreover have "f_ready_next fb = 0 \<longleftrightarrow> rs = []" using ch by (cases rs) auto
  ultimately show ?thesis
    using that [of ?s] q d fb by (auto simp: ready_queue_def relinked_def unlink_upd)
qed

text \<open>The interface of a queue of nodes, and what its clients get.\<close>

locale fifo =
  fixes repr :: "'s \<Rightarrow> u64 list \<Rightarrow> bool"
    and nodes :: "'s \<Rightarrow> u64 set"
    and enq :: "u64 \<Rightarrow> 's \<Rightarrow> 's outcome"
    and deq :: "'s \<Rightarrow> (u64 \<times> 's) outcome"
  assumes enq_repr: "repr s xs \<Longrightarrow> f \<in> nodes s \<Longrightarrow> f \<notin> set xs \<Longrightarrow>
      \<exists>s'. enq f s = Done s' \<and> repr s' (xs @ [f]) \<and> nodes s' = nodes s"
    and deq_repr: "repr s (x # xs) \<Longrightarrow> \<exists>s'. deq s = Done (x, s') \<and> repr s' xs \<and> nodes s' = nodes s"
begin

fun enq_all :: "u64 list \<Rightarrow> 's \<Rightarrow> 's outcome" where
  "enq_all [] s = Done s"
| "enq_all (f # fs) s = obind (enq f s) (enq_all fs)"

fun deq_n :: "nat \<Rightarrow> 's \<Rightarrow> (u64 list \<times> 's) outcome" where
  "deq_n 0 s = Done ([], s)"
| "deq_n (Suc n) s = obind (deq s) (\<lambda>(x, s'). obind (deq_n n s') (\<lambda>(xs, s''). Done (x # xs, s'')))"

lemma enq_all_repr:
  "repr s xs \<Longrightarrow> set fs \<subseteq> nodes s \<Longrightarrow> distinct (xs @ fs) \<Longrightarrow>
    \<exists>s'. enq_all fs s = Done s' \<and> repr s' (xs @ fs) \<and> nodes s' = nodes s"
proof (induction fs arbitrary: s xs)
  case (Cons f fs)
  then obtain s1 where "enq f s = Done s1" "repr s1 (xs @ [f])" "nodes s1 = nodes s"
    using enq_repr [of s xs f] by auto
  with Cons.IH [of s1 "xs @ [f]"] Cons.prems show ?case by auto
qed auto

lemma deq_n_repr:
  "repr s (xs @ ys) \<Longrightarrow> \<exists>s'. deq_n (length xs) s = Done (xs, s') \<and> repr s' ys \<and> nodes s' = nodes s"
proof (induction xs arbitrary: s)
  case (Cons x xs)
  then obtain s1 where "deq s = Done (x, s1)" "repr s1 (xs @ ys)" "nodes s1 = nodes s"
    using deq_repr [of s x "xs @ ys"] by auto
  with Cons.IH [of s1] show ?case by auto
qed auto

text \<open>First in, first out: what was queued comes out in the order it went in, behind what was there.\<close>

lemma first_in_first_out:
  assumes "repr s xs" "set fs \<subseteq> nodes s" "distinct (xs @ fs)"
  shows "\<exists>s' s''. enq_all fs s = Done s' \<and> deq_n (length (xs @ fs)) s' = Done (xs @ fs, s'') \<and> repr s'' []"
  using enq_all_repr [OF assms] deq_n_repr [of _ "xs @ fs" "[]"] by fastforce

end

definition queue_nodes :: "('k, 'c, 'w) system \<Rightarrow> u64 set" where
  "queue_nodes s = dom (fibers s) - {0}"

lemma relinked_dom: "relinked s s' \<Longrightarrow> dom (fibers s') = dom (fibers s)"
proof -
  assume "relinked s s'"
  then have "unlink (fibers s') p = unlink (fibers s) p" for p by (simp add: relinked_def)
  then have "fibers s' p = None \<longleftrightarrow> fibers s p = None" for p by (metis map_option_is_None unlink_def)
  then show ?thesis by (auto simp: dom_def)
qed

interpretation ready: fifo ready_queue queue_nodes libuc_scheduler_enqueue dequeue
proof unfold_locales
  fix s :: "('a, 'b, 'c) system" and xs f
  assume q: "ready_queue s xs" and f: "f \<in> queue_nodes s" "f \<notin> set xs"
  then obtain fb where "fibers s f = Some fb" "f \<noteq> 0" by (auto simp: queue_nodes_def)
  from enqueue_queue [OF q this f(2)] relinked_dom
  show "\<exists>s'. libuc_scheduler_enqueue f s = Done s' \<and> ready_queue s' (xs @ [f]) \<and> queue_nodes s' = queue_nodes s"
    by (metis queue_nodes_def)
next
  fix s :: "('a, 'b, 'c) system" and x xs
  assume "ready_queue s (x # xs)"
  from dequeue_queue [OF this] relinked_dom
  show "\<exists>s'. dequeue s = Done (x, s') \<and> ready_queue s' xs \<and> queue_nodes s' = queue_nodes s"
    by (metis queue_nodes_def)
qed

end
