(* ===== verification/Uc_Scheduler_Inv.thy ===== *)
theory Uc_Scheduler_Inv
  imports Uc_Scheduler
begin

text \<open>
  The reactor's invariant and its preservation by every operation. The ghost parameters are the
  set \<open>F\<close> of fibers whose records have not been reclaimed, the set \<open>R\<close> of fibers out of the
  scheduler's hands (the one that is running, or one being woken), the ready queue \<open>rs\<close>, and the
  addresses \<open>ps\<close> of the requests parked on the ring.
\<close>

section \<open>The invariant\<close>

definition alive :: "('k, 'c, 'w) system \<Rightarrow> u64 \<Rightarrow> bool" where
  "alive s f \<longleftrightarrow> (\<exists>fb. fibers s f = Some fb \<and> f_life fb \<noteq> FIBER_EXITED)"

definition joiner_of :: "('k, 'c, 'w) system \<Rightarrow> u64 \<Rightarrow> u64" where
  "joiner_of s t = (case fibers s t of None \<Rightarrow> 0 | Some tb \<Rightarrow> f_joiner tb)"

definition life_of :: "('k, 'c, 'w) system \<Rightarrow> u64 \<Rightarrow> fiber_life" where
  "life_of s t = (case fibers s t of None \<Rightarrow> FIBER_EXITED | Some tb \<Rightarrow> f_life tb)"

text \<open>The requests someone will answer: those on the ring, and those waiting for an exit.\<close>

definition waiting :: "u64 set \<Rightarrow> u64 list \<Rightarrow> ('k, 'c, 'w) system \<Rightarrow> u64 \<Rightarrow> bool" where
  "waiting F ps s q \<longleftrightarrow> q \<in> set ps \<or> q \<noteq> 0 \<and> (\<exists>t \<in> F. joiner_of s t = q)"

text \<open>The fiber \<open>f\<close> is suspended in the call whose request, at \<open>q\<close>, is of the given form.\<close>

definition waits :: "('k, 'c, 'w) system \<Rightarrow> u64 \<Rightarrow> u64 \<Rightarrow> (fiber_request \<Rightarrow> bool) \<Rightarrow> bool" where
  "waits s f q P \<longleftrightarrow> alive s f \<and> activations s f = Some (In_call q) \<and>
     (\<exists>rq. requests s q = Some rq \<and> r_fiber rq = f \<and> P rq)"

definition is_await :: "fiber_request \<Rightarrow> bool" where
  "is_await rq \<longleftrightarrow> r_kind rq = REQUEST_AWAIT"

definition is_join :: "u64 \<Rightarrow> fiber_request \<Rightarrow> bool" where
  "is_join t rq \<longleftrightarrow> r_kind rq = REQUEST_JOIN \<and> r_ask rq = Target t"

definition joined :: "u64 set \<Rightarrow> ('k, 'c, 'w) system \<Rightarrow> u64 set" where
  "joined F s = {t \<in> F. joiner_of s t \<noteq> 0}"

definition fiber_inv :: "'k kernel_view \<Rightarrow> ('c, 'r) arch \<Rightarrow> u64 set \<Rightarrow> u64 set \<Rightarrow> ('k, 'c, 'w) system \<Rightarrow> bool" where
  "fiber_inv V A F R s \<longleftrightarrow> finite F \<and> dom (activations s) = F \<and> fibers_wf (v_mapped V) F s \<and>
     (\<forall>f \<in> F - R. \<forall>fb. fibers s f = Some fb \<longrightarrow> f_life fb \<noteq> FIBER_EXITED \<longrightarrow> resumable A s f fb) \<and>
     (\<exists>l. process_layout s = Some l \<and> layout_ok l)"

text \<open>Every parked request is exactly one entry in the batch, operation in flight, or completion.\<close>

definition ring_inv :: "'k kernel_view \<Rightarrow> u64 list \<Rightarrow> ('k, 'c, 'w) system \<Rightarrow> bool" where
  "ring_inv V ps s \<longleftrightarrow> ring_wf (sring s) \<and> distinct ps \<and> length ps \<le> unat (cq_entries (sring s)) \<and>
     parked_count s = of_nat (length ps) \<and>
     mset ps = mset (map sq_user_data (sq_batch (sring s))) + v_inflight V (kern s) +
       mset (map cq_user_data (cq_pending (sring s))) \<and>
     (\<forall>c \<in> set (cq_pending (sring s)). cq_flags c AND stream_flags = 0)"

text \<open>
  Every live fiber is in exactly one place: in the ready queue, or suspended in a request someone
  will answer.
\<close>

definition wait_inv :: "u64 set \<Rightarrow> u64 set \<Rightarrow> u64 list \<Rightarrow> u64 list \<Rightarrow> ('k, 'c, 'w) system \<Rightarrow> bool" where
  "wait_inv F R rs ps s \<longleftrightarrow> set rs \<subseteq> F - R \<and> (\<forall>f \<in> set rs. alive s f) \<and>
     (\<forall>q \<in> set ps. \<exists>f \<in> F - R. waits s f q is_await) \<and>
     (\<forall>t \<in> F. joiner_of s t \<noteq> 0 \<longrightarrow> (t \<in> R \<or> life_of s t = FIBER_LIVE) \<and>
        (\<exists>f \<in> F - R. waits s f (joiner_of s t) (is_join t))) \<and>
     joining_count s = of_nat (card (joined F s)) \<and>
     (\<forall>f \<in> F - R. alive s f \<longrightarrow>
        (f \<in> set rs \<longleftrightarrow> \<not> (\<exists>q. activations s f = Some (In_call q) \<and> waiting F ps s q)))"

definition sched_inv ::
    "'k kernel_view \<Rightarrow> ('c, 'r) arch \<Rightarrow> u64 set \<Rightarrow> u64 set \<Rightarrow> u64 list \<Rightarrow> u64 list \<Rightarrow> ('k, 'c, 'w) system \<Rightarrow> bool" where
  "sched_inv V A F R rs ps s \<longleftrightarrow>
     ready_queue s rs \<and> fiber_inv V A F R s \<and> ring_inv V ps s \<and> wait_inv F R rs ps s"

lemma wait_invD:
  assumes "wait_inv F R rs ps s"
  shows "set rs \<subseteq> F - R" "f \<in> set rs \<Longrightarrow> alive s f"
    "q \<in> set ps \<Longrightarrow> \<exists>f \<in> F - R. waits s f q is_await"
    "t \<in> F \<Longrightarrow> joiner_of s t \<noteq> 0 \<Longrightarrow> t \<in> R \<or> life_of s t = FIBER_LIVE"
    "t \<in> F \<Longrightarrow> joiner_of s t \<noteq> 0 \<Longrightarrow> \<exists>f \<in> F - R. waits s f (joiner_of s t) (is_join t)"
    "joining_count s = of_nat (card (joined F s))"
    "f \<in> F - R \<Longrightarrow> alive s f \<Longrightarrow>
      f \<in> set rs \<longleftrightarrow> \<not> (\<exists>q. activations s f = Some (In_call q) \<and> waiting F ps s q)"
  using assms unfolding wait_inv_def by blast+

lemma wait_invI:
  assumes "set rs \<subseteq> F - R" "\<And>f. f \<in> set rs \<Longrightarrow> alive s f"
    "\<And>q. q \<in> set ps \<Longrightarrow> \<exists>f \<in> F - R. waits s f q is_await"
    "\<And>t. t \<in> F \<Longrightarrow> joiner_of s t \<noteq> 0 \<Longrightarrow> t \<in> R \<or> life_of s t = FIBER_LIVE"
    "\<And>t. t \<in> F \<Longrightarrow> joiner_of s t \<noteq> 0 \<Longrightarrow> \<exists>f \<in> F - R. waits s f (joiner_of s t) (is_join t)"
    "joining_count s = of_nat (card (joined F s))"
    "\<And>f. f \<in> F - R \<Longrightarrow> alive s f \<Longrightarrow>
      f \<in> set rs \<longleftrightarrow> \<not> (\<exists>q. activations s f = Some (In_call q) \<and> waiting F ps s q)"
  shows "wait_inv F R rs ps s"
  using assms unfolding wait_inv_def by blast

lemma fiber_invD:
  assumes "fiber_inv V A F R s"
  shows "finite F" "dom (activations s) = F" "fibers_wf (v_mapped V) F s"
    "f \<in> F - R \<Longrightarrow> fibers s f = Some fb \<Longrightarrow> f_life fb \<noteq> FIBER_EXITED \<Longrightarrow> resumable A s f fb"
    "\<exists>l. process_layout s = Some l \<and> layout_ok l"
  using assms unfolding fiber_inv_def by blast+

lemma fiber_invI:
  assumes "finite F" "dom (activations s) = F" "fibers_wf (v_mapped V) F s"
    "\<And>f fb. f \<in> F - R \<Longrightarrow> fibers s f = Some fb \<Longrightarrow> f_life fb \<noteq> FIBER_EXITED \<Longrightarrow> resumable A s f fb"
    "\<exists>l. process_layout s = Some l \<and> layout_ok l"
  shows "fiber_inv V A F R s"
  using assms unfolding fiber_inv_def by blast

section \<open>Links\<close>

lemma fiber_ranges_upd [simp]:
  "footprint (fb\<lparr>f_ready_next := n\<rparr>) = footprint fb" "stack_range (fb\<lparr>f_ready_next := n\<rparr>) = stack_range fb"
  "footprint (fb\<lparr>f_joiner := j\<rparr>) = footprint fb" "stack_range (fb\<lparr>f_joiner := j\<rparr>) = stack_range fb"
  "footprint (fb\<lparr>f_life := l\<rparr>) = footprint fb" "stack_range (fb\<lparr>f_life := l\<rparr>) = stack_range fb"
  "block_range (fb\<lparr>f_ready_next := n\<rparr>) = block_range fb" "block_range (fb\<lparr>f_joiner := j\<rparr>) = block_range fb"
  "block_range (fb\<lparr>f_life := l\<rparr>) = block_range fb"
  by (simp_all add: footprint_def stack_range_def block_range_def)

lemma relink:
  fixes x y :: "'c fiber"
  assumes "x\<lparr>f_ready_next := 0\<rparr> = y\<lparr>f_ready_next := 0\<rparr>"
  shows "x = y\<lparr>f_ready_next := f_ready_next x\<rparr>"
proof -
  have "x = x\<lparr>f_ready_next := 0\<rparr>\<lparr>f_ready_next := f_ready_next x\<rparr>" by simp
  also have "\<dots> = y\<lparr>f_ready_next := f_ready_next x\<rparr>" unfolding assms by simp
  finally show ?thesis .
qed

lemma relinked_fibers:
  assumes "relinked s s'"
  obtains n where "fibers s' = (\<lambda>p. map_option (\<lambda>fb. fb\<lparr>f_ready_next := n p\<rparr>) (fibers s p))"
proof -
  have u: "unlink (fibers s') p = unlink (fibers s) p" for p using assms by (simp add: relinked_def)
  have "fibers s' p = map_option (\<lambda>fb. fb\<lparr>f_ready_next := f_ready_next (the (fibers s' p))\<rparr>) (fibers s p)" for p
    using u [of p] by (cases "fibers s p"; cases "fibers s' p") (auto simp: unlink_def relink)
  then show ?thesis using that [of "\<lambda>p. f_ready_next (the (fibers s' p))"] by auto
qed

lemma relinked_same:
  assumes "relinked s s'"
  shows "requests s' = requests s" "activations s' = activations s" "tcbs s' = tcbs s" "kern s' = kern s"
    "process_layout s' = process_layout s" "sring s' = sring s" "parked_count s' = parked_count s"
    "joining_count s' = joining_count s" "tp s' = tp s" "world s' = world s"
    "joiner_of s' = joiner_of s" "life_of s' = life_of s" "alive s' = alive s" "mem s' = mem s"
proof -
  have e: "s' = s\<lparr>fibers := fibers s', ready_head := ready_head s', ready_tail := ready_tail s', ready_count := ready_count s'\<rparr>"
    using assms by (simp add: relinked_def)
  show "requests s' = requests s" "activations s' = activations s" "tcbs s' = tcbs s" "kern s' = kern s"
    "process_layout s' = process_layout s" "sring s' = sring s" "parked_count s' = parked_count s"
    "joining_count s' = joining_count s" "tp s' = tp s" "world s' = world s" "mem s' = mem s"
    by (subst e, simp)+
  obtain n where "fibers s' = (\<lambda>p. map_option (\<lambda>fb. fb\<lparr>f_ready_next := n p\<rparr>) (fibers s p))"
    using relinked_fibers [OF assms] .
  then show "joiner_of s' = joiner_of s" "life_of s' = life_of s" "alive s' = alive s"
    by (auto simp: joiner_of_def life_of_def alive_def fun_eq_iff split: option.splits)
qed

text \<open>Nothing of the invariant but the queue itself looks at the links.\<close>

lemma relinked_waits: "relinked s s' \<Longrightarrow> waits s' = waits s" "relinked s s' \<Longrightarrow> waiting F ps s' = waiting F ps s"
  "relinked s s' \<Longrightarrow> joined F s' = joined F s"
  by (simp_all add: waits_def waiting_def joined_def relinked_same fun_eq_iff)

lemma relinked_fiber_inv:
  assumes r: "relinked s s'" and inv: "fiber_inv V A F R s"
  shows "fiber_inv V A F R s'"
proof -
  obtain n where n: "fibers s' = (\<lambda>p. map_option (\<lambda>fb. fb\<lparr>f_ready_next := n p\<rparr>) (fibers s p))"
    using relinked_fibers [OF r] .
  have w: "fiber_wf s' f (fb\<lparr>f_ready_next := x\<rparr>) = fiber_wf s f fb"
    "resumable A s' f (fb\<lparr>f_ready_next := x\<rparr>) = resumable A s f fb" for f fb x
    by (simp_all add: fiber_wf_def resumable_def suspended_at_def relinked_same [OF r])
  have "fibers_wf (v_mapped V) F s'"
    unfolding fibers_wf_def
  proof (intro conjI ballI impI)
    fix f assume "f \<in> F"
    then obtain fb where "fibers s f = Some fb" "fiber_wf s f fb" "footprint fb \<subseteq> v_mapped V (kern s)"
      using inv by (auto simp: fiber_inv_def elim!: fibers_wfD)
    then show "\<exists>fb. fibers s' f = Some fb \<and> fiber_wf s' f fb \<and> footprint fb \<subseteq> v_mapped V (kern s')"
      by (simp add: n w relinked_same [OF r])
  next
    fix f g assume fg: "f \<in> F" "g \<in> F" "f \<noteq> g"
    have wf: "fibers_wf (v_mapped V) F s" using inv by (simp add: fiber_inv_def)
    obtain fb gb where "fibers s f = Some fb" "fibers s g = Some gb"
      using fibers_wfD [OF wf fg(1)] fibers_wfD [OF wf fg(2)] by metis
    with fibers_wf_apart [OF wf fg(1,2,3)] show "footprint (the (fibers s' f)) \<inter> footprint (the (fibers s' g)) = {}"
      by (simp add: n)
  qed
  moreover have "resumable A s' f fb" if f: "f \<in> F - R" "fibers s' f = Some fb" "f_life fb \<noteq> FIBER_EXITED" for f fb
  proof -
    obtain gb where gb: "fibers s f = Some gb" "fb = gb\<lparr>f_ready_next := n f\<rparr>" using f(2) by (auto simp: n)
    with fiber_invD(4) [OF inv f(1) gb(1)] f(3) show ?thesis by (simp add: w)
  qed
  ultimately show ?thesis
    using fiber_invD(1,2,5) [OF inv] by (intro fiber_invI) (simp_all add: relinked_same [OF r])
qed

lemma relinked_ring_inv: "relinked s s' \<Longrightarrow> ring_inv V ps s' = ring_inv V ps s"
  by (simp add: ring_inv_def relinked_same)

lemma relinked_wait_inv: "relinked s s' \<Longrightarrow> wait_inv F R rs ps s' = wait_inv F R rs ps s"
  by (simp add: wait_inv_def relinked_same relinked_waits)

text \<open>A waiting fiber is not in the ready queue, and each waits in one request.\<close>

lemma waits_not_ready:
  assumes "wait_inv F R rs ps s" "f \<in> F - R" "waits s f q P" "waiting F ps s q"
  shows "f \<notin> set rs"
  using wait_invD(7) [OF assms(1,2)] assms(3,4) unfolding waits_def by blast

lemma wait_inv_take:
  assumes inv: "wait_inv F {} (f # rs) ps s" and d: "f \<notin> set rs"
  shows "wait_inv F {f} rs ps s"
proof -
  note D = wait_invD [OF inv]
  have other: "g \<in> F - {f}" if "g \<in> F - {}" "waits s g q P" "waiting F ps s q" for g q P
    using waits_not_ready [OF inv that] that(1) by auto
  show ?thesis
  proof (rule wait_invI)
    fix q assume q: "q \<in> set ps"
    then have "waiting F ps s q" by (simp add: waiting_def)
    with D(3) [OF q] other show "\<exists>f \<in> F - {f}. waits s f q is_await" by blast
  next
    fix t assume t: "t \<in> F" "joiner_of s t \<noteq> 0"
    then have "waiting F ps s (joiner_of s t)" by (auto simp: waiting_def)
    with D(5) [OF t] other show "\<exists>f \<in> F - {f}. waits s f (joiner_of s t) (is_join t)" by blast
    from D(4) [OF t] show "t \<in> {f} \<or> life_of s t = FIBER_LIVE" by blast
  next
    fix g assume "g \<in> F - {f}" "alive s g"
    with D(7) [of g] show "g \<in> set rs \<longleftrightarrow> \<not> (\<exists>q. activations s g = Some (In_call q) \<and> waiting F ps s q)" by auto
  qed (use D(1,2,6) d in auto)
qed

lemma wait_inv_give:
  assumes inv: "wait_inv F R rs ps s" and f: "f \<in> F" "f \<in> R" "alive s f"
    and nw: "\<And>q. activations s f = Some (In_call q) \<Longrightarrow> \<not> waiting F ps s q"
    and j: "joiner_of s f = 0 \<or> life_of s f = FIBER_LIVE"
  shows "wait_inv F (R - {f}) (rs @ [f]) ps s"
proof -
  note D = wait_invD [OF inv]
  show ?thesis
  proof (rule wait_invI)
    fix g assume "g \<in> F - (R - {f})" "alive s g"
    with D(7) [of g] nw f show "g \<in> set (rs @ [f]) \<longleftrightarrow> \<not> (\<exists>q. activations s g = Some (In_call q) \<and> waiting F ps s q)"
      by (cases "g = f") auto
  qed (use D(1-6) f j in \<open>auto; blast\<close>)+
qed

lemma fiber_inv_give:
  assumes "fiber_inv V A F R s" "\<And>fb. fibers s f = Some fb \<Longrightarrow> f_life fb \<noteq> FIBER_EXITED \<Longrightarrow> resumable A s f fb"
  shows "fiber_inv V A F (R - {f}) s"
  using assms unfolding fiber_inv_def by blast

lemma dequeue_inv:
  assumes "sched_inv V A F {} (f # rs) ps s"
  obtains s' where "dequeue s = Done (f, s')" "relinked s s'" "sched_inv V A F {f} rs ps s'" "f \<in> F" "alive s' f"
    "\<And>fb. fibers s' f = Some fb \<Longrightarrow> resumable A s' f fb"
    "joiner_of s' f = 0 \<or> life_of s' f = FIBER_LIVE"
proof -
  have q: "ready_queue s (f # rs)" and inv: "fiber_inv V A F {} s" "ring_inv V ps s" "wait_inv F {} (f # rs) ps s"
    using assms by (simp_all add: sched_inv_def)
  obtain s' where d: "dequeue s = Done (f, s')" "ready_queue s' rs" "relinked s s'"
    using dequeue_queue [OF q] .
  have f: "f \<in> F" "alive s f" "f \<notin> set rs" using inv(3) q by (auto simp: wait_inv_def ready_queue_def)
  have i: "fiber_inv V A F {} s'" by (rule relinked_fiber_inv [OF d(3) inv(1)])
  then have "fiber_inv V A F {f} s'" by (auto simp: fiber_inv_def)
  then have "sched_inv V A F {f} rs ps s'"
    using d inv wait_inv_take [OF inv(3) f(3)] by (simp add: sched_inv_def relinked_ring_inv relinked_wait_inv)
  moreover have al: "alive s' f" using f d(3) by (simp add: relinked_same)
  moreover have "resumable A s' f fb" if "fibers s' f = Some fb" for fb
    using i f(1) al that by (auto simp: fiber_inv_def alive_def)
  moreover have "joiner_of s' f = 0 \<or> life_of s' f = FIBER_LIVE"
    using inv(3) f(1) d(3) by (auto simp: wait_inv_def relinked_same)
  ultimately show ?thesis using that d f by blast
qed

lemma enqueue_inv:
  assumes inv: "sched_inv V A F R rs ps s" and f: "f \<in> F" "f \<in> R" "fibers s f = Some fb" "resumable A s f fb"
    and nw: "\<And>q. activations s f = Some (In_call q) \<Longrightarrow> \<not> waiting F ps s q"
    and j: "joiner_of s f = 0 \<or> life_of s f = FIBER_LIVE"
  obtains s' where "libuc_scheduler_enqueue f s = Done s'" "relinked s s'" "sched_inv V A F (R - {f}) (rs @ [f]) ps s'"
proof -
  have q: "ready_queue s rs" and i: "fiber_inv V A F R s" "ring_inv V ps s" "wait_inv F R rs ps s"
    using inv by (simp_all add: sched_inv_def)
  have "f \<notin> set rs" "f \<noteq> 0" using i f by (auto simp: wait_inv_def fiber_inv_def fiber_wf_def elim!: fibers_wfD)
  then obtain s' where e: "libuc_scheduler_enqueue f s = Done s'" "ready_queue s' (rs @ [f])" "relinked s s'"
    using enqueue_queue [OF q f(3)] by blast
  have "alive s f" using f by (auto simp: alive_def resumable_def)
  from wait_inv_give [OF i(3) f(1,2) this nw j] have "wait_inv F (R - {f}) (rs @ [f]) ps s" .
  moreover have "fiber_inv V A F (R - {f}) s" using i(1) f by (intro fiber_inv_give) auto
  ultimately have "sched_inv V A F (R - {f}) (rs @ [f]) ps s'"
    using e i relinked_fiber_inv [OF e(3)] by (simp add: sched_inv_def relinked_ring_inv relinked_wait_inv)
  then show ?thesis using that e by blast
qed

section \<open>Changes elsewhere\<close>

lemma alive_life: "alive s f \<longleftrightarrow> life_of s f \<noteq> FIBER_EXITED"
  by (simp add: alive_def life_of_def split: option.splits)

lemma wait_inv_transfer:
  assumes inv: "wait_inv F R rs ps s"
    and j: "\<And>g. g \<in> F \<Longrightarrow> joiner_of s' g = joiner_of s g"
    and l: "\<And>g. g \<in> F - R \<Longrightarrow> joiner_of s g \<noteq> 0 \<Longrightarrow> life_of s' g = life_of s g"
      "\<And>g. g \<in> F - R \<Longrightarrow> alive s' g = alive s g" "\<And>g. g \<in> F - R \<Longrightarrow> activations s' g = activations s g"
    and q: "\<And>g q rq. g \<in> F - R \<Longrightarrow> alive s g \<Longrightarrow> activations s g = Some (In_call q) \<Longrightarrow> requests s q = Some rq \<Longrightarrow>
      \<exists>rq'. requests s' q = Some rq' \<and> r_kind rq' = r_kind rq \<and> r_ask rq' = r_ask rq \<and> r_fiber rq' = r_fiber rq"
    and c: "joining_count s' = joining_count s"
  shows "wait_inv F R rs ps s'"
proof -
  note D = wait_invD [OF inv]
  have w: "waits s' g q P" if "g \<in> F - R" "waits s g q P" "P = is_await \<or> P = is_join t" for g q P t
    using assms(6) [of g q] that l(2,3) by (auto simp: waits_def is_await_def is_join_def)
  have "joined F s' = joined F s" using j by (auto simp: joined_def)
  moreover have wt: "waiting F ps s' x = waiting F ps s x" for x using j by (auto simp: waiting_def)
  show ?thesis
  proof (rule wait_invI)
    fix x assume "x \<in> set ps" with D(3) w show "\<exists>f \<in> F - R. waits s' f x is_await" by blast
  next
    fix t assume "t \<in> F" "joiner_of s' t \<noteq> 0"
    then have t: "t \<in> F" "joiner_of s t \<noteq> 0" using j by auto
    show "t \<in> R \<or> life_of s' t = FIBER_LIVE" using D(4) [OF t] l(1) [of t] t by (metis DiffI)
    show "\<exists>f \<in> F - R. waits s' f (joiner_of s' t) (is_join t)" using D(5) [OF t] w j [OF t(1)] by metis
  qed (use D(1,2,6,7) c l(2,3) wt calculation in auto)
qed

text \<open>
  The invariant across a change that leaves the footprints of the fibers in \<open>F\<close> alone.
\<close>

lemma fiber_inv_frame:
  assumes inv: "fiber_inv V A F R s" and fr: "frame_on M s s'" and G: "G \<subseteq> F" "dom (activations s') = G"
    and M: "\<And>f fb. f \<in> G \<Longrightarrow> fibers s f = Some fb \<Longrightarrow> footprint fb \<subseteq> M \<and> footprint fb \<subseteq> v_mapped V (kern s')"
  shows "fiber_inv V A G R s'"
proof -
  have wf: "fibers_wf (v_mapped V) F s" and lay: "\<exists>l. process_layout s = Some l \<and> layout_ok l" "finite F"
    using fiber_invD [OF inv] by blast+
  note live = fiber_invD(4) [OF inv]
  have "resumable A s' f fb" if f: "f \<in> G - R" "fibers s' f = Some fb" "f_life fb \<noteq> FIBER_EXITED" for f fb
  proof -
    obtain gb where gb: "fibers s f = Some gb" "fiber_wf s f gb" using wf f(1) G(1) by (auto elim!: fibers_wfD)
    then have "f \<in> M" using M [of f gb] f(1) fiber_wf_in_footprint(1) by blast
    then have "gb = fb" using fr f(2) gb(1) by (simp add: frame_on_def)
    then show ?thesis using live gb f G(1) M [of f fb] resumable_frame [OF _ _ fr] by blast
  qed
  moreover have "fibers_wf (v_mapped V) G s'" by (rule fibers_wf_frame [OF wf fr G(1) M])
  moreover have "\<exists>l. process_layout s' = Some l \<and> layout_ok l" using lay(1) fr by (simp add: frame_on_def)
  ultimately show ?thesis using G finite_subset [OF G(1) lay(2)] by (simp add: fiber_inv_def)
qed

lemma system_more_eqD:
  fixes s s' :: "('k, 'c, 'w) system"
  assumes "fiber_machine.more s' = fiber_machine.more s"
  shows "sring s' = sring s" "ready_head s' = ready_head s" "ready_tail s' = ready_tail s" "ready_count s' = ready_count s"
    "parked_count s' = parked_count s" "joining_count s' = joining_count s"
  using assms by (cases s, cases s', simp)+

lemma ready_queue_frame:
  assumes "ready_queue s rs" "frame_on M s s'" "set rs \<subseteq> M"
  shows "ready_queue s' rs"
proof -
  have "next_map s' a = next_map s a" if "a \<in> set rs" for a
    using assms(2,3) that by (auto simp: next_map_def frame_on_def)
  then have "chain (next_map s') p rs 0 = chain (next_map s) p rs 0" for p by (intro chain_cong) auto
  moreover have "fiber_machine.more s' = fiber_machine.more s" using assms(2) by (simp add: frame_on_def)
  note more = system_more_eqD [OF this]
  ultimately show ?thesis using assms(1) by (simp add: ready_queue_def more)
qed

text \<open>A live suspended fiber's request is in its own stack, and names it.\<close>

lemma suspended_request:
  assumes inv: "fiber_inv V A F R s" and g: "g \<in> F - R" "alive s g" "activations s g = Some (In_call q)"
  obtains gb rq where "fibers s g = Some gb" "q \<noteq> 0" "q \<in> stack_range gb" "requests s q = Some rq" "r_fiber rq = g"
    "footprint gb \<subseteq> v_mapped V (kern s)"
proof -
  obtain gb where gb: "fibers s g = Some gb" "footprint gb \<subseteq> v_mapped V (kern s)"
    using fibers_wfD [OF fiber_invD(3) [OF inv]] g(1) by blast
  moreover have "resumable A s g gb" using fiber_invD(4) [OF inv g(1) gb(1)] g(2) gb(1) by (simp add: alive_def)
  ultimately show ?thesis using that g(3) by (auto simp: resumable_def suspended_at_def)
qed

lemma request_apart:
  assumes inv: "fiber_inv V A F R s" and g: "g \<in> F - R" "alive s g" "activations s g = Some (In_call q)"
    and f: "f \<in> F" "f \<noteq> g" "fibers s f = Some fb"
  shows "q \<notin> footprint fb"
proof -
  obtain gb where "fibers s g = Some gb" "q \<in> stack_range gb" using suspended_request [OF inv g] by metis
  then show ?thesis
    using fibers_wf_apart [OF fiber_invD(3) [OF inv] f(1) _ f(2,3)] g(1) by (auto simp: footprint_def)
qed

lemma waiting_apart:
  assumes inv: "fiber_inv V A F R s" "wait_inv F R rs ps s" and q: "waiting F ps s q"
    and f: "f \<in> F" "f \<in> R" "fibers s f = Some fb"
  shows "q \<notin> footprint fb"
proof -
  have "\<exists>g \<in> F - R. \<exists>P. waits s g q P"
    using q wait_invD(3,5) [OF inv(2)] unfolding waiting_def by blast
  then obtain g where "g \<in> F - R" "alive s g" "activations s g = Some (In_call q)" by (auto simp: waits_def)
  with request_apart [OF inv(1) this f(1) _ f(3)] f(2) show ?thesis by blast
qed

lemma sched_inv_frame:
  assumes q: "ready_queue s rs" and inv: "fiber_inv V A F R s" "ring_inv V ps s" "wait_inv G R rs ps s"
    and fr: "frame_on M s s'" and G: "G \<subseteq> F" "dom (activations s') = G"
    and M: "\<And>f fb. f \<in> G \<Longrightarrow> fibers s f = Some fb \<Longrightarrow> footprint fb \<subseteq> M \<and> footprint fb \<subseteq> v_mapped V (kern s')"
    and i: "v_inflight V (kern s') = v_inflight V (kern s)"
  shows "sched_inv V A G R rs ps s'"
proof -
  note more = system_more_eqD [OF fr [unfolded frame_on_def, THEN conjunct2, THEN conjunct2, THEN conjunct2,
        THEN conjunct2, THEN conjunct2]]
  note wf = fiber_invD(3) [OF inv(1)]
  have in_M: "a \<in> M" if "g \<in> G" "fibers s g = Some gb" "a \<in> footprint gb" for a g gb using M [OF that(1,2)] that(3) by blast
  have self: "g \<in> M" if g: "g \<in> G" for g
    using fibers_wfD [OF wf] g G(1) in_M [OF g] fiber_wf_in_footprint(1) by (metis subsetD)
  then have same: "fibers s' g = fibers s g" "activations s' g = activations s g" if "g \<in> G" for g
    using fr that by (auto simp: frame_on_def)
  have "wait_inv G R rs ps s'"
  proof (rule wait_inv_transfer [OF inv(3)])
    fix g q rq assume g: "g \<in> G - R" "alive s g" "activations s g = Some (In_call q)" and rq: "requests s q = Some rq"
    obtain gb where "fibers s g = Some gb" "q \<in> stack_range gb"
      using suspended_request [OF inv(1) _ g(2,3)] g(1) G(1) by blast
    then have "q \<in> M" using in_M g(1) by (auto simp: footprint_def)
    then have "requests s' q = Some rq" using fr rq by (simp add: frame_on_def)
    then show "\<exists>rq'. requests s' q = Some rq' \<and> r_kind rq' = r_kind rq \<and> r_ask rq' = r_ask rq \<and> r_fiber rq' = r_fiber rq"
      by simp
  qed (use same more in \<open>simp_all add: joiner_of_def life_of_def alive_def\<close>)
  moreover have "ready_queue s' rs"
    using wait_invD(1) [OF inv(3)] self by (intro ready_queue_frame [OF q fr]) blast
  moreover have "fiber_inv V A G R s'" by (rule fiber_inv_frame [OF inv(1) fr G M])
  moreover have "ring_inv V ps s'" using inv(2) by (simp add: ring_inv_def more i)
  ultimately show ?thesis by (simp add: sched_inv_def)
qed

text \<open>The invariant across a change to the record and the stack of a fiber in \<open>R\<close>.\<close>

lemma local_inv:
  fixes s s' :: "('k, 'c, 'w) system"
  assumes inv: "sched_inv V A F R rs ps s" and f: "f \<in> F" "f \<in> R" "fibers s f = Some fb"
    and fs: "fibers s' = (fibers s)(f \<mapsto> fb')" "footprint fb' = footprint fb" "stack_range fb' = stack_range fb"
      "f_block fb' = f_block fb" "f_return_to fb' = 0" "f_joiner fb' = f_joiner fb"
    and rs: "\<And>x. x \<notin> stack_range fb \<Longrightarrow> requests s' x = requests s x"
    and act: "activations s' = (activations s)(f \<mapsto> a)"
    and same: "tcbs s' = tcbs s" "kern s' = kern s" "process_layout s' = process_layout s"
      "fiber_machine.more s' = fiber_machine.more s"
  shows "sched_inv V A F R rs ps s'"
proof -
  have q: "ready_queue s rs" and i: "fiber_inv V A F R s" "ring_inv V ps s" "wait_inv F R rs ps s"
    using inv by (simp_all add: sched_inv_def)
  note more = system_more_eqD [OF same(4)] and wf = fiber_invD(3) [OF i(1)]
  have br: "block_range fb' = block_range fb" by (simp add: block_range_def fs)
  have get: "\<exists>gb'. fibers s' g = Some gb' \<and> footprint gb' = footprint gb \<and> fiber_wf s' g gb'"
    if "fibers s g = Some gb" "fiber_wf s g gb" for g gb
    using that f fs br by (cases "g = f") (auto simp: fiber_wf_def same)
  have stay: "requests s' x = requests s x" if "g \<in> F - R" "alive s g" "activations s g = Some (In_call x)" for g x
    using request_apart [OF i(1) that f(1) _ f(3)] rs f(2) that(1) by (auto simp: footprint_def)
  have "fibers_wf (v_mapped V) F s'"
    unfolding fibers_wf_def
  proof (intro conjI ballI impI)
    fix g assume "g \<in> F"
    then show "\<exists>gb. fibers s' g = Some gb \<and> fiber_wf s' g gb \<and> footprint gb \<subseteq> v_mapped V (kern s')"
      using fibers_wfD [OF wf] get same(2) by metis
  next
    fix g h assume gh: "g \<in> F" "h \<in> F" "g \<noteq> h"
    obtain gb hb where "fibers s g = Some gb" "fiber_wf s g gb" "fibers s h = Some hb" "fiber_wf s h hb"
      using fibers_wfD [OF wf gh(1)] fibers_wfD [OF wf gh(2)] by metis
    with get fibers_wf_apart [OF wf gh] show "footprint (the (fibers s' g)) \<inter> footprint (the (fibers s' h)) = {}"
      by (metis option.sel)
  qed
  moreover have "resumable A s' g gb" if g: "g \<in> F - R" "fibers s' g = Some gb" "f_life gb \<noteq> FIBER_EXITED" for g gb
  proof -
    have ne: "g \<noteq> f" using g(1) f(2) by auto
    then have gb: "fibers s g = Some gb" using g(2) by (simp add: fs)
    then have "alive s g" using g(3) by (simp add: alive_def)
    with stay [OF g(1)] fiber_invD(4) [OF i(1) g(1) gb g(3)] ne show ?thesis
      by (auto simp: resumable_def suspended_at_def act)
  qed
  moreover have "dom (activations s') = F" using fiber_invD(2) [OF i(1)] f(1) by (auto simp: act)
  ultimately have "fiber_inv V A F R s'" using fiber_invD(1,5) [OF i(1)] by (intro fiber_invI) (simp_all add: same)
  moreover have "wait_inv F R rs ps s'"
    using f fs(6) stay more by (intro wait_inv_transfer [OF i(3)]) (auto simp: joiner_of_def life_of_def alive_def fs act)
  moreover have "f \<notin> set rs" using wait_invD(1) [OF i(3)] f(2) by blast
  then have "chain (next_map s') p rs 0 = chain (next_map s) p rs 0" for p
    by (intro chain_cong) (auto simp: next_map_def fs)
  then have "ready_queue s' rs" using q by (simp add: ready_queue_def more)
  moreover have "ring_inv V ps s'" using i(2) by (simp add: ring_inv_def more same)
  ultimately show ?thesis by (simp add: sched_inv_def)
qed

section \<open>Fibers changing places\<close>

text \<open>A fiber nobody waits for is reclaimed; an exited one stays; a new one joins.\<close>

lemma wait_inv_drop:
  assumes inv: "wait_inv F R rs ps s" and t: "t \<in> F" "joiner_of s t = 0" "t \<in> R \<or> \<not> alive s t"
  shows "wait_inv (F - {t}) R rs ps s"
proof -
  note D = wait_invD [OF inv]
  have j: "joined (F - {t}) s = joined F s" using t by (auto simp: joined_def)
  have w: "waiting (F - {t}) ps s q = waiting F ps s q" for q using t by (auto simp: waiting_def)
  have away: "g \<in> F - {t} - R" if "g \<in> F - R" "waits s g q P" for g q P
    using that t(3) by (auto simp: waits_def)
  show ?thesis
  proof (rule wait_invI)
    fix q assume "q \<in> set ps"
    with D(3) away show "\<exists>f \<in> F - {t} - R. waits s f q is_await" by blast
  next
    fix u assume u: "u \<in> F - {t}" "joiner_of s u \<noteq> 0"
    with D(5) [of u] away show "\<exists>f \<in> F - {t} - R. waits s f (joiner_of s u) (is_join u)" by blast
    from u D(4) [of u] show "u \<in> R \<or> life_of s u = FIBER_LIVE" by blast
  next
    fix g assume "g \<in> F - {t} - R" "alive s g"
    with D(7) [of g] show "g \<in> set rs \<longleftrightarrow> \<not> (\<exists>q. activations s g = Some (In_call q) \<and> waiting (F - {t}) ps s q)"
      by (auto simp: w)
  qed (use D(1,2,6) t(3) j in auto)
qed

lemma wait_inv_settle:
  assumes inv: "wait_inv F R rs ps s" and f: "joiner_of s f = 0" "\<not> alive s f"
  shows "wait_inv F (R - {f}) rs ps s"
proof -
  note D = wait_invD [OF inv]
  show ?thesis
  proof (rule wait_invI)
    fix q assume "q \<in> set ps"
    with D(3) show "\<exists>f \<in> F - (R - {f}). waits s f q is_await" by blast
  next
    fix u assume u: "u \<in> F" "joiner_of s u \<noteq> 0"
    with D(5) [of u] show "\<exists>f \<in> F - (R - {f}). waits s f (joiner_of s u) (is_join u)" by blast
    from u D(4) [of u] f show "u \<in> R - {f} \<or> life_of s u = FIBER_LIVE" by auto
  next
    fix g assume "g \<in> F - (R - {f})" "alive s g"
    with D(7) [of g] f(2) show "g \<in> set rs \<longleftrightarrow> \<not> (\<exists>q. activations s g = Some (In_call q) \<and> waiting F ps s q)" by auto
  qed (use D(1,2,6) in auto)
qed

lemma wait_inv_grow:
  assumes inv: "wait_inv F R rs ps s" and t: "t \<notin> F" "joiner_of s t = 0"
  shows "wait_inv (insert t F) (insert t R) rs ps s"
proof -
  note D = wait_invD [OF inv]
  have j: "joined (insert t F) s = joined F s" using t by (auto simp: joined_def)
  have w: "waiting (insert t F) ps s q = waiting F ps s q" for q using t by (auto simp: waiting_def)
  have d: "insert t F - insert t R = F - R" using t(1) by auto
  show ?thesis
  proof (rule wait_invI, unfold d w j)
    fix u assume u: "u \<in> insert t F" "joiner_of s u \<noteq> 0"
    then show "\<exists>f \<in> F - R. waits s f (joiner_of s u) (is_join u)" using D(5) [of u] t by auto
    from u D(4) [of u] t show "u \<in> insert t R \<or> life_of s u = FIBER_LIVE" by auto
  qed (use D(1-3,6,7) in auto)
qed

text \<open>Two requests at one address are one request, so an answered request is waited for by nobody else.\<close>

lemma waits_unique: "waits s g q P \<Longrightarrow> waits s h q Q \<Longrightarrow> g = h"
  "waits s g q (is_join t) \<Longrightarrow> waits s h q (is_join u) \<Longrightarrow> t = u" "waits s g q (is_join t) \<Longrightarrow> \<not> waits s h q is_await"
  by (auto simp: waits_def is_join_def is_await_def)

lemma activation_unique:
  assumes "fiber_inv V A F R s" "g \<in> F - R" "alive s g" "activations s g = Some (In_call q)"
    "h \<in> F - R" "alive s h" "activations s h = Some (In_call q)"
  shows "h = g"
  using suspended_request [OF assms(1-4)] suspended_request [OF assms(1,5-7)] by (metis option.inject)

lemma wait_inv_answered:
  assumes inv: "wait_inv F R rs ps s" and g: "g \<in> F - R" "waits s g q P" "waiting F ps s q"
    and uniq: "\<And>h. h \<in> F - R \<Longrightarrow> alive s h \<Longrightarrow> activations s h = Some (In_call q) \<Longrightarrow> h = g"
    and F': "F' \<subseteq> F" "F' \<inter> R \<subseteq> R'" "F' - R' = F - R - {g}"
    and ps': "set ps' \<subseteq> set ps" "\<And>x. waiting F' ps' s x \<longleftrightarrow> waiting F ps s x \<and> x \<noteq> q"
    and s': "s' = s\<lparr>joining_count := c, parked_count := n\<rparr>" "c = of_nat (card (joined F' s))"
  shows "wait_inv F' R' rs ps' s'"
proof -
  note D = wait_invD [OF inv]
  have same: "alive s' = alive s" "joiner_of s' = joiner_of s" "life_of s' = life_of s" "waits s' = waits s"
    "activations s' = activations s" "waiting X ps' s' = waiting X ps' s" "joined X s' = joined X s" "joining_count s' = c" for X
    by (simp_all add: s' alive_def joiner_of_def life_of_def waits_def waiting_def joined_def fun_eq_iff)
  have gr: "g \<notin> set rs" by (rule waits_not_ready [OF inv g])
  have other: "h \<in> F - R - {g}" if "h \<in> F - R" "waits s h x Q" "waiting F' ps' s x" for h x Q
    using that g(2) by (auto simp: waits_def ps'(2))
  show ?thesis
  proof (rule wait_invI, unfold F'(3) same)
    fix x assume "x \<in> set ps'"
    then have "x \<in> set ps" "waiting F' ps' s x" using ps'(1) by (auto simp: waiting_def)
    with D(3) other show "\<exists>f \<in> F - R - {g}. waits s f x is_await" by blast
  next
    fix u assume u: "u \<in> F'" "joiner_of s u \<noteq> 0"
    then have u': "u \<in> F" "waiting F' ps' s (joiner_of s u)" using F'(1) by (auto simp: waiting_def)
    with D(5) [OF u'(1) u(2)] other show "\<exists>f \<in> F - R - {g}. waits s f (joiner_of s u) (is_join u)" by blast
    from u u' D(4) [of u] F'(2) show "u \<in> R' \<or> life_of s u = FIBER_LIVE" by blast
  next
    fix h assume h: "h \<in> F - R - {g}" "alive s h"
    with D(7) [of h] uniq [of h]
    show "h \<in> set rs \<longleftrightarrow> \<not> (\<exists>q. activations s h = Some (In_call q) \<and> waiting F' ps' s q)" by (auto simp: ps'(2))
  qed (use D(1,2) gr s'(2) in auto)
qed

lemma wait_inv_join_answered:
  assumes inv: "fiber_inv V A F R s" "wait_inv F R rs ps s" and t: "t \<in> F" "t \<in> R" "joiner_of s t = q" "q \<noteq> 0"
    and g: "g \<in> F - R" "waits s g q (is_join t)"
  shows "wait_inv (F - {t}) (insert g R) rs ps (s\<lparr>joining_count := joining_count s - 1\<rparr>)"
    "\<not> waiting (F - {t}) ps s q"
proof -
  note D = wait_invD [OF inv(2)]
  have only: "joiner_of s u \<noteq> q" if "u \<in> F" "u \<noteq> t" for u
    using D(5) [OF that(1)] t(4) waits_unique(2) [OF g(2)] that(2) by auto
  have np: "q \<notin> set ps" using D(3) [of q] waits_unique(3) [OF g(2)] by auto
  then show nw: "\<not> waiting (F - {t}) ps s q" using only by (auto simp: waiting_def)
  have "joined F s = insert t (joined (F - {t}) s)" "t \<notin> joined (F - {t}) s" using t by (auto simp: joined_def)
  then have "card (joined F s) = Suc (card (joined (F - {t}) s))"
    using fiber_invD(1) [OF inv(1)] by (simp add: joined_def)
  moreover have w: "waiting (F - {t}) ps s x \<longleftrightarrow> waiting F ps s x \<and> x \<noteq> q" for x
    using t nw by (auto simp: waiting_def)
  moreover have "waiting F ps s q" using t by (auto simp: waiting_def)
  moreover have "h = g" if "h \<in> F - R" "alive s h" "activations s h = Some (In_call q)" for h
    using activation_unique [OF inv(1) g(1) _ _ that] g(2) by (simp add: waits_def)
  ultimately show "wait_inv (F - {t}) (insert g R) rs ps (s\<lparr>joining_count := joining_count s - 1\<rparr>)"
    using D(6) t by (intro wait_inv_answered [OF inv(2) g, where c = "joining_count s - 1" and n = "parked_count s"]) auto
qed

lemma wait_inv_await_answered:
  assumes inv: "fiber_inv V A F R s" "wait_inv F R rs ps s" and q: "q \<in> set ps" "distinct ps"
    and g: "g \<in> F - R" "waits s g q is_await"
  shows "wait_inv F (insert g R) rs (remove1 q ps) (s\<lparr>parked_count := n\<rparr>)" "\<not> waiting F (remove1 q ps) s q"
proof -
  note D = wait_invD [OF inv(2)]
  have "joiner_of s u \<noteq> q" if "u \<in> F" "q \<noteq> 0" for u
    using D(5) [OF that(1)] waits_unique(3) g(2) that(2) by metis
  then show nw: "\<not> waiting F (remove1 q ps) s q" using q(2) by (auto simp: waiting_def)
  moreover have w: "waiting F (remove1 q ps) s x \<longleftrightarrow> waiting F ps s x \<and> x \<noteq> q" for x
    using q nw by (auto simp: waiting_def)
  moreover have "waiting F ps s q" using q by (auto simp: waiting_def)
  moreover have "h = g" if "h \<in> F - R" "alive s h" "activations s h = Some (In_call q)" for h
    using activation_unique [OF inv(1) g(1) _ _ that] g(2) by (simp add: waits_def)
  ultimately show "wait_inv F (insert g R) rs (remove1 q ps) (s\<lparr>parked_count := n\<rparr>)"
    using D(6) set_remove1_subset [of q ps]
    by (intro wait_inv_answered [OF inv(2) g, where c = "joining_count s" and n = n]) auto
qed

text \<open>A fiber starts to wait: for its operation, or for another fiber's exit.\<close>

lemma wait_inv_asked:
  assumes inv: "wait_inv F R rs ps s" and f: "f \<in> F" "f \<in> R" "waits s f q P" "joiner_of s f = 0 \<or> life_of s f = FIBER_LIVE"
    and uniq: "\<And>h. h \<in> F - R \<Longrightarrow> alive s h \<Longrightarrow> activations s h \<noteq> Some (In_call q)"
    and same: "alive s' = alive s" "life_of s' = life_of s" "waits s' = waits s" "activations s' = activations s"
    and ps': "\<And>x. x \<in> set ps' \<Longrightarrow> x \<in> set ps \<or> x = q \<and> P = is_await"
      "\<And>u. u \<in> F \<Longrightarrow> joiner_of s' u \<noteq> 0 \<Longrightarrow>
        joiner_of s' u = joiner_of s u \<or> joiner_of s' u = q \<and> P = is_join u \<and> life_of s u = FIBER_LIVE"
      "\<And>x. waiting F ps' s' x \<longleftrightarrow> waiting F ps s x \<or> x = q"
    and c: "joining_count s' = of_nat (card (joined F s'))"
  shows "wait_inv F (R - {f}) rs ps' s'"
proof -
  note D = wait_invD [OF inv]
  show ?thesis
  proof (rule wait_invI, unfold same)
    fix x assume "x \<in> set ps'"
    with ps'(1) D(3) f show "\<exists>f \<in> F - (R - {f}). waits s f x is_await" by blast
  next
    fix u assume u: "u \<in> F" "joiner_of s' u \<noteq> 0"
    from ps'(2) [OF this] consider "joiner_of s' u = joiner_of s u"
      | "joiner_of s' u = q" "P = is_join u" "life_of s u = FIBER_LIVE" by blast
    then show "\<exists>f \<in> F - (R - {f}). waits s f (joiner_of s' u) (is_join u)"
    proof cases
      case 1
      then show ?thesis using D(5) [OF u(1)] u(2) by auto
    next
      case 2
      then show ?thesis using f by auto
    qed
    show "u \<in> R - {f} \<or> life_of s u = FIBER_LIVE"
      using ps'(2) [OF u] D(4) [OF u(1)] u(2) f(4) by auto
  next
    fix h assume h: "h \<in> F - (R - {f})" "alive s h"
    show "h \<in> set rs \<longleftrightarrow> \<not> (\<exists>q. activations s h = Some (In_call q) \<and> waiting F ps' s' q)"
    proof (cases "h = f")
      case True
      then show ?thesis using f D(1) ps'(3) by (auto simp: waits_def)
    next
      case False
      then show ?thesis using h D(7) [of h] uniq [of h] ps'(3) by auto
    qed
  qed (use D(1,2) c in auto)
qed

section \<open>Resuming\<close>

text \<open>
  What the program's next call must respect: \<^const>\<open>move_ok\<close>, and a join or detach names a fiber that
  has been started and not reclaimed.
\<close>

definition target_of :: "call \<Rightarrow> u64 option" where
  "target_of c = (case c of Call_join t \<Rightarrow> Some t | Call_detach t \<Rightarrow> Some t | _ \<Rightarrow> None)"

definition next_move :: "('k, 'c, 'r, 'w) prog \<Rightarrow> u64 \<Rightarrow> 'c fiber \<Rightarrow> ('k, 'c, 'w) system \<Rightarrow> ('r, 'w) move" where
  "next_move U f fb s =
     U f (f_entry fb, f_argument fb) (f_context fb) (case resumes_as f s of Done res \<Rightarrow> res | _ \<Rightarrow> Answer 0)
       (world s) (mem s) (kern s)"

definition well_behaved :: "('c, 'r) arch \<Rightarrow> ('k, 'c, 'r, 'w) prog \<Rightarrow> ('k, 'c, 'w) system \<Rightarrow> bool" where
  "well_behaved A U s \<longleftrightarrow>
     (case fibers s (ready_head s) of
        None \<Rightarrow> True
      | Some fb \<Rightarrow>
          let mv = next_move U (ready_head s) fb s in
          move_ok A (ready_head s) fb mv \<and>
          (case target_of (m_call mv) of None \<Rightarrow> True | Some t \<Rightarrow> activations s t \<noteq> None))"

lemma resumed_fiber_simps [simp]:
  "footprint (resumed_fiber A mv fb) = footprint fb" "stack_range (resumed_fiber A mv fb) = stack_range fb"
  "f_block (resumed_fiber A mv fb) = f_block fb" "f_return_to (resumed_fiber A mv fb) = 0"
  "f_joiner (resumed_fiber A mv fb) = f_joiner fb" "f_ready_next (resumed_fiber A mv fb) = f_ready_next fb"
  by (auto simp: resumed_fiber_def poison_def footprint_def stack_range_def block_range_def split: option.splits)

lemma resumed_inv:
  assumes inv: "sched_inv V A F R rs ps s" and f: "f \<in> F" "f \<in> R" "fibers s f = Some fb" and mv: "move_ok A f fb mv"
  shows "sched_inv V A F R rs ps (resumed A f fb mv s)"
  using mv by (intro local_inv [OF inv f, where fb' = "resumed_fiber A mv fb"]) (auto simp: resumed_def move_ok_def)

section \<open>Writes\<close>

text \<open>A request's result is nobody's concern but the fiber's that asked.\<close>

lemma result_inv:
  assumes rq: "requests s q = Some rq" and s': "s' = s\<lparr>requests := (requests s)(q \<mapsto> rq\<lparr>r_result := v\<rparr>)\<rparr>"
  shows "ready_queue s' rs = ready_queue s rs" "ring_inv V ps s' = ring_inv V ps s"
    "fiber_inv V A F R s' = fiber_inv V A F R s" "wait_inv F R rs ps s' = wait_inv F R rs ps s"
    "waiting F ps s' = waiting F ps s" "resumable A s' f fb = resumable A s f fb"
proof -
  have "suspended_at s' f fb a = suspended_at s f fb a" for f fb a
    using rq by (cases a) (simp_all add: suspended_at_def s')
  then have r: "resumable A s' f fb = resumable A s f fb" for f fb
    by (simp add: resumable_def s')
  then show "resumable A s' f fb = resumable A s f fb" .
  have same: "alive s' = alive s" "life_of s' = life_of s" "joiner_of s' = joiner_of s" "activations s' = activations s"
      "joining_count s' = joining_count s"
    by (simp_all add: s' alive_def life_of_def joiner_of_def fun_eq_iff)
  have w: "waits s' f x is_await = waits s f x is_await" "waits s' f x (is_join t) = waits s f x (is_join t)" for f x t
    using rq by (auto simp: waits_def same is_await_def is_join_def) (auto simp: s' split: if_splits)
  show "ready_queue s' rs = ready_queue s rs" by (simp add: ready_queue_def next_map_def s')
  show "ring_inv V ps s' = ring_inv V ps s" by (simp add: ring_inv_def s')
  show "fiber_inv V A F R s' = fiber_inv V A F R s"
    unfolding fiber_inv_def fibers_wf_def r by (simp add: s' fiber_wf_def)
  show "wait_inv F R rs ps s' = wait_inv F R rs ps s" "waiting F ps s' = waiting F ps s"
    by (simp_all add: wait_inv_def waiting_def joined_def w same fun_eq_iff)
qed

text \<open>A fiber's joiner or life changes without it exiting.\<close>

lemma fiber_inv_update:
  assumes inv: "fiber_inv V A F R s" and t: "fibers s t = Some tb"
    and tb': "footprint tb' = footprint tb" "stack_range tb' = stack_range tb" "block_range tb' = block_range tb"
      "f_block tb' = f_block tb" "f_return_to tb' = f_return_to tb" "f_context tb' = f_context tb"
      "f_life tb' = FIBER_EXITED \<longleftrightarrow> f_life tb = FIBER_EXITED"
    and s': "fibers s' = (fibers s)(t \<mapsto> tb')" "requests s' = requests s" "activations s' = activations s" "tcbs s' = tcbs s"
      "kern s' = kern s" "process_layout s' = process_layout s"
  shows "fiber_inv V A F R s'"
proof -
  note wf = fiber_invD(3) [OF inv]
  have get: "\<exists>gb'. fibers s' g = Some gb' \<and> footprint gb' = footprint gb \<and> (fiber_wf s g gb \<longrightarrow> fiber_wf s' g gb')"
    if "fibers s g = Some gb" for g gb
    using that t tb' by (cases "g = t") (auto simp: fiber_wf_def s')
  have "fibers_wf (v_mapped V) F s'"
    unfolding fibers_wf_def
  proof (intro conjI ballI impI)
    fix g assume "g \<in> F"
    then show "\<exists>gb. fibers s' g = Some gb \<and> fiber_wf s' g gb \<and> footprint gb \<subseteq> v_mapped V (kern s')"
      using fibers_wfD [OF wf] get s'(5) by metis
  next
    fix g h assume gh: "g \<in> F" "h \<in> F" "g \<noteq> h"
    obtain gb hb where "fibers s g = Some gb" "fibers s h = Some hb"
      using fibers_wfD [OF wf gh(1)] fibers_wfD [OF wf gh(2)] by metis
    with get fibers_wf_apart [OF wf gh] show "footprint (the (fibers s' g)) \<inter> footprint (the (fibers s' h)) = {}"
      by (metis option.sel)
  qed
  moreover have "resumable A s' g gb" if g: "g \<in> F - R" "fibers s' g = Some gb" "f_life gb \<noteq> FIBER_EXITED" for g gb
    using fiber_invD(4) [OF inv g(1)] g t tb'
    by (cases "g = t") (auto simp: s' resumable_def suspended_at_def)
  ultimately show ?thesis using fiber_invD(1,2,5) [OF inv] by (intro fiber_invI) (simp_all add: s')
qed

lemma ready_queue_update:
  fixes s s' :: "('k, 'c, 'w) system"
  assumes "ready_queue s rs" "fibers s t = Some tb" "fibers s' = (fibers s)(t \<mapsto> tb')" "f_ready_next tb' = f_ready_next tb"
    "ready_head s' = ready_head s" "ready_tail s' = ready_tail s" "ready_count s' = ready_count s"
  shows "ready_queue s' rs"
proof -
  have "next_map s' = next_map s" using assms(2-4) by (auto simp: next_map_def)
  then show ?thesis using assms by (simp add: ready_queue_def)
qed

text \<open>A started fiber joins the others.\<close>

lemma add_fiber_inv:
  assumes inv: "sched_inv V A F R rs ps s" and g: "g \<notin> F" "fibers s g = Some gb" "fiber_wf s g gb"
      "footprint gb \<subseteq> v_mapped V (kern s)" "f_joiner gb = 0"
    and apart: "\<And>f fb. f \<in> F \<Longrightarrow> fibers s f = Some fb \<Longrightarrow> footprint fb \<inter> footprint gb = {}"
    and s': "s' = s\<lparr>activations := (activations s)(g \<mapsto> At_entry)\<rparr>"
  shows "sched_inv V A (insert g F) (insert g R) rs ps s'"
proof -
  have q: "ready_queue s rs" and i: "fiber_inv V A F R s" "ring_inv V ps s" "wait_inv F R rs ps s"
    using inv by (simp_all add: sched_inv_def)
  note wf = fiber_invD(3) [OF i(1)]
  have wf': "fiber_wf s' f fb = fiber_wf s f fb" for f fb by (simp add: fiber_wf_def s')
  have same: "fibers s' = fibers s" "kern s' = kern s" by (simp_all add: s')
  have "fibers_wf (v_mapped V) (insert g F) s'"
    unfolding fibers_wf_def
  proof (intro conjI ballI impI)
    fix f assume "f \<in> insert g F"
    then show "\<exists>fb. fibers s' f = Some fb \<and> fiber_wf s' f fb \<and> footprint fb \<subseteq> v_mapped V (kern s')"
      unfolding wf' same using g fibers_wfD [OF wf, of f] by blast
  next
    fix f h assume fh: "f \<in> insert g F" "h \<in> insert g F" "f \<noteq> h"
    have *: "footprint (the (fibers s f)) \<inter> footprint (the (fibers s h)) = {}" if "f \<in> F" "h \<in> F"
      using wf fh(3) that by (auto simp: fibers_wf_def)
    have **: "footprint (the (fibers s x)) \<inter> footprint (the (fibers s g)) = {}" if "x \<in> F" for x
      using apart [OF that] fibers_wfD [OF wf that] g(2) by (metis option.sel)
    show "footprint (the (fibers s' f)) \<inter> footprint (the (fibers s' h)) = {}"
      using fh * ** [of f] ** [of h] by (auto simp: s')
  qed
  moreover have "resumable A s' f fb" if f: "f \<in> insert g F - insert g R" "fibers s' f = Some fb" "f_life fb \<noteq> FIBER_EXITED" for f fb
    using fiber_invD(4) [OF i(1), of f fb] f by (auto simp: s' resumable_def suspended_at_def)
  moreover have "dom (activations s') = insert g F" using fiber_invD(2) [OF i(1)] by (auto simp: s')
  ultimately have "fiber_inv V A (insert g F) (insert g R) s'"
    using fiber_invD(1,5) [OF i(1)] by (intro fiber_invI) (simp_all add: s')
  moreover have "wait_inv F R rs ps s'"
    using g(1) by (intro wait_inv_transfer [OF i(3)]) (auto simp: s' joiner_of_def life_of_def alive_def)
  then have "wait_inv (insert g F) (insert g R) rs ps s'"
    using g by (intro wait_inv_grow) (auto simp: s' joiner_of_def)
  ultimately show ?thesis using q i(2) by (simp add: sched_inv_def s' ready_queue_def ring_inv_def next_map_def)
qed

end
