(* ===== verification/Uc_Scheduler_Steps.thy ===== *)
theory Uc_Scheduler_Steps
  imports Uc_Scheduler_Inv
begin

text \<open>
  What the reactor does with each request, completion and turn: the effect on the ready queue and
  on who waits for what, and that the invariant holds again afterwards.
\<close>

section \<open>The contracts of the kernel\<close>

text \<open>The reactor's entries complete once: no completion has a flag of a stream of them.\<close>

definition single_shot :: "'k kernel_view \<Rightarrow> bool" where
  "single_shot V \<longleftrightarrow> (\<forall>c. v_posts V c \<longrightarrow> cq_flags c AND stream_flags = 0)"

lemma stream_flags_last: "cq_flags c AND stream_flags = 0 \<Longrightarrow> last_completion c"
proof -
  assume f: "cq_flags c AND stream_flags = 0"
  have m: "stream_flags AND IORING_CQE_F_MORE = IORING_CQE_F_MORE" by (simp add: stream_flags_def IORING_CQE_F_MORE_def)
  have "cq_flags c AND (stream_flags AND IORING_CQE_F_MORE) = (cq_flags c AND stream_flags) AND IORING_CQE_F_MORE"
    by (simp only: and.assoc)
  then show "last_completion c" unfolding last_completion_def m f by simp
qed

definition kernel_ok :: "'k kernel_view \<Rightarrow> ('k, 'y) ring_kernel_scheme \<Rightarrow> bool" where
  "kernel_ok V K \<longleftrightarrow> mmap_ok (v_mapped V) K \<and> munmap_ok (v_mapped V) K \<and> enter_ok V K \<and> inert (v_inflight V) K \<and> single_shot V"

section \<open>A fiber's request in the reactor's hands\<close>

text \<open>
  Between the resume of \<open>f\<close> and the end of its turn: its request \<open>rq\<close> is at \<open>q\<close> in its stack.
\<close>

definition asking ::
    "'k kernel_view \<Rightarrow> ('c, 'r) arch \<Rightarrow> u64 set \<Rightarrow> u64 list \<Rightarrow> u64 list \<Rightarrow> ('k, 'c, 'w) system \<Rightarrow>
     u64 \<Rightarrow> 'c fiber \<Rightarrow> u64 \<Rightarrow> fiber_request \<Rightarrow> bool" where
  "asking V A F rs ps s f fb q rq \<longleftrightarrow> sched_inv V A F {f} rs ps s \<and> f \<in> F \<and> fibers s f = Some fb \<and>
     activations s f = Some (In_call q) \<and> requests s q = Some rq \<and> r_fiber rq = f \<and> q \<in> stack_range fb \<and> q \<noteq> 0 \<and>
     (if r_kind rq = REQUEST_EXIT
      then f_life fb \<noteq> FIBER_LIVE \<and> (f_joiner fb \<noteq> 0 \<longrightarrow> f_life fb = FIBER_EXITED)
      else f_context fb \<noteq> a_zero A \<and> f_life fb \<noteq> FIBER_EXITED \<and> (f_joiner fb = 0 \<or> f_life fb = FIBER_LIVE))"

lemma askingD:
  assumes "asking V A F rs ps s f fb q rq"
  shows "sched_inv V A F {f} rs ps s" "f \<in> F" "fibers s f = Some fb" "activations s f = Some (In_call q)"
    "requests s q = Some rq" "r_fiber rq = f" "q \<in> stack_range fb" "q \<noteq> 0" "fiber_wf s f fb"
    "ready_queue s rs" "fiber_inv V A F {f} s" "ring_inv V ps s" "wait_inv F {f} rs ps s"
proof -
  show i: "sched_inv V A F {f} rs ps s" "f \<in> F" "fibers s f = Some fb" "activations s f = Some (In_call q)"
    "requests s q = Some rq" "r_fiber rq = f" "q \<in> stack_range fb" "q \<noteq> 0"
    using assms by (simp_all add: asking_def)
  then show j: "ready_queue s rs" "fiber_inv V A F {f} s" "ring_inv V ps s" "wait_inv F {f} rs ps s"
    by (simp_all add: sched_inv_def)
  show "fiber_wf s f fb" using fibers_wfD [OF fiber_invD(3) [OF j(2)] i(2)] i(3) by auto
qed

lemma asking_live:
  assumes ask: "asking V A F rs ps s f fb q rq" and k: "r_kind rq \<noteq> REQUEST_EXIT" "r_kind rq \<noteq> REQUEST_PROCESS_EXIT"
  shows "resumable A s f fb" "joiner_of s f = 0 \<or> life_of s f = FIBER_LIVE" "alive s f"
  using askingD(3-8) [OF ask] ask k
  by (simp_all add: asking_def resumable_def suspended_at_def joiner_of_def life_of_def alive_def)

text \<open>Nobody will answer a request the reactor has just been handed.\<close>

lemma asking_not_waiting:
  assumes ask: "asking V A F rs ps s f fb q rq"
  shows "\<not> waiting F ps s q" "\<And>h. h \<in> F - {f} \<Longrightarrow> alive s h \<Longrightarrow> activations s h \<noteq> Some (In_call q)"
proof -
  note D = askingD [OF ask]
  have "q \<in> footprint fb" using D(7) by (simp add: footprint_def)
  then show "\<not> waiting F ps s q" using waiting_apart [OF D(11,13) _ D(2) _ D(3)] by blast
  fix h assume "h \<in> F - {f}" "alive s h"
  then show "activations s h \<noteq> Some (In_call q)"
    using request_apart [OF D(11) _ _ _ D(2) _ D(3)] \<open>q \<in> footprint fb\<close> by blast
qed

lemma requeue_inv:
  assumes ask: "asking V A F rs ps s f fb q rq" and k: "r_kind rq \<noteq> REQUEST_EXIT" "r_kind rq \<noteq> REQUEST_PROCESS_EXIT"
  obtains s' where "libuc_scheduler_enqueue f s = Done s'" "relinked s s'" "sched_inv V A F {} (rs @ [f]) ps s'"
proof -
  note D = askingD [OF ask] and L = asking_live [OF ask k]
  show ?thesis
    using enqueue_inv [OF D(1,2) _ D(3) L(1) _ L(2)] asking_not_waiting(1) [OF ask] D(4) that by auto
qed

text \<open>Writing the request's result keeps the situation.\<close>

lemma asking_result:
  assumes ask: "asking V A F rs ps s f fb q rq"
  shows "set_request q (\<lambda>rq. rq\<lparr>r_result := v\<rparr>) s = Done (s\<lparr>requests := (requests s)(q \<mapsto> rq\<lparr>r_result := v\<rparr>)\<rparr>)"
    "asking V A F rs ps (s\<lparr>requests := (requests s)(q \<mapsto> rq\<lparr>r_result := v\<rparr>)\<rparr>) f fb q (rq\<lparr>r_result := v\<rparr>)"
proof -
  note D = askingD [OF ask]
  let ?s = "s\<lparr>requests := (requests s)(q \<mapsto> rq\<lparr>r_result := v\<rparr>)\<rparr>"
  show "set_request q (\<lambda>rq. rq\<lparr>r_result := v\<rparr>) s = Done ?s" using D(5) by (simp add: set_request_def)
  have "sched_inv V A F {f} rs ps ?s"
    using D(1) by (simp add: sched_inv_def result_inv [OF D(5) refl])
  then show "asking V A F rs ps ?s f fb q (rq\<lparr>r_result := v\<rparr>)"
    using ask D(2-8) by (simp add: asking_def)
qed

section \<open>Reclaiming a fiber\<close>

lemma sched_inv_out: "t \<notin> F \<Longrightarrow> sched_inv V A F (R - {t}) rs ps s = sched_inv V A F R rs ps s"
proof -
  assume t: "t \<notin> F"
  then have "F - (R - {t}) = F - R" by auto
  moreover have "u \<in> F \<Longrightarrow> u \<in> R - {t} \<longleftrightarrow> u \<in> R" for u using t by auto
  ultimately show ?thesis by (auto simp: sched_inv_def fiber_inv_def wait_inv_def)
qed

lemma destroy_inv:
  assumes K: "munmap_ok (v_mapped V) K" "inert (v_inflight V) K" and q: "ready_queue s rs"
    and inv: "fiber_inv V A F R s" "ring_inv V ps s" "wait_inv (F - {t}) R rs ps s" and t: "t \<in> F" "fibers s t = Some tb"
  shows "destroy_or_trap K t s = Trap \<or> (\<exists>s'. destroy_or_trap K t s = Done s' \<and> frame_on (- footprint tb) s s' \<and>
    sched_inv V A (F - {t}) R rs ps s' \<and> fibers s' t = None)"
proof -
  note wf = fiber_invD(3) [OF inv(1)]
  obtain ok s' where d: "libuc_fiber_destroy K t s = Done (ok, s')" "frame_on (- footprint tb) s s'"
    and ok: "ok \<Longrightarrow> v_mapped V (kern s') = v_mapped V (kern s) - footprint tb"
      "ok \<Longrightarrow> fibers s' t = None" "ok \<Longrightarrow> dom (activations s') \<subseteq> F - {t}"
    using destroy_ok [OF K(1) wf t] fiber_invD(2) [OF inv(1)] by (metis order_refl)
  show ?thesis
  proof (cases ok)
    case False
    then show ?thesis using d by (simp add: destroy_or_trap_def)
  next
    case True
    have M: "footprint fb \<subseteq> - footprint tb \<and> footprint fb \<subseteq> v_mapped V (kern s')"
      if f: "f \<in> F - {t}" "fibers s f = Some fb" for f fb
    proof -
      have "footprint fb \<inter> footprint tb = {}" using fibers_wf_apart [OF wf _ t(1) _ f(2) t(2)] f(1) by blast
      moreover have "footprint fb \<subseteq> v_mapped V (kern s)" using wf f by (auto elim!: fibers_wfD)
      ultimately show ?thesis using ok(1) True by auto
    qed
    moreover have "dom (activations s') = F - {t}"
    proof
      show "F - {t} \<subseteq> dom (activations s')"
      proof
        fix f assume f: "f \<in> F - {t}"
        then obtain fb where fb: "fibers s f = Some fb" "fiber_wf s f fb" using wf by (auto elim!: fibers_wfD)
        then have "f \<in> - footprint tb" using M [OF f fb(1)] fiber_wf_in_footprint(1) by blast
        then show "f \<in> dom (activations s')" using d(2) fiber_invD(2) [OF inv(1)] f by (auto simp: frame_on_def dom_def)
      qed
    qed (use ok(3) True in blast)
    ultimately have "sched_inv V A (F - {t}) R rs ps s'"
      using destroy_inert [OF K(2) d(1)] by (intro sched_inv_frame [OF q inv d(2)]) auto
    then show ?thesis using d ok(2) True by (auto simp: destroy_or_trap_def)
  qed
qed

text \<open>What a frame keeps of one fiber.\<close>

lemma frame_fiber:
  assumes inv: "fiber_inv V A F R s" and fr: "frame_on M s s'" and g: "g \<in> F" "fibers s g = Some gb" "footprint gb \<subseteq> M"
  shows "fibers s' g = Some gb" "activations s' g = activations s g" "joiner_of s' g = joiner_of s g"
    "life_of s' g = life_of s g" "resumable A s g gb \<Longrightarrow> resumable A s' g gb"
    "x \<in> footprint gb \<Longrightarrow> requests s' x = requests s x"
proof -
  have wf: "fiber_wf s g gb" using fibers_wfD [OF fiber_invD(3) [OF inv] g(1)] g(2) by auto
  then have "g \<in> M" using g(3) fiber_wf_in_footprint(1) by blast
  then show "fibers s' g = Some gb" "activations s' g = activations s g" "joiner_of s' g = joiner_of s g"
    "life_of s' g = life_of s g"
    using fr g(2) by (simp_all add: frame_on_def joiner_of_def life_of_def)
  show "resumable A s g gb \<Longrightarrow> resumable A s' g gb" by (rule resumable_frame [OF _ wf fr g(3)])
  show "x \<in> footprint gb \<Longrightarrow> requests s' x = requests s x" using fr g(3) by (auto simp: frame_on_def)
qed

lemma fiber_inv_mono: "fiber_inv V A F R s \<Longrightarrow> R \<subseteq> R' \<Longrightarrow> fiber_inv V A F R' s"
  unfolding fiber_inv_def by blast

lemma inv_joining_count [simp]:
  "fiber_inv V A F R (s\<lparr>joining_count := c\<rparr>) = fiber_inv V A F R s"
  "ready_queue (s\<lparr>joining_count := c\<rparr>) rs = ready_queue s rs" "ring_inv V ps (s\<lparr>joining_count := c\<rparr>) = ring_inv V ps s"
  by (simp_all add: fiber_inv_def fibers_wf_def fiber_wf_def resumable_def suspended_at_def ready_queue_def next_map_def ring_inv_def)

text \<open>A fiber is reclaimed and another one, in \<open>R\<close>, goes on the queue.\<close>

lemma reclaim_and_enqueue:
  assumes K: "kernel_ok V K" and q: "ready_queue s rs"
    and inv: "fiber_inv V A F R s" "ring_inv V ps s" "wait_inv (F - {t}) R rs ps s" and t: "t \<in> F" "fibers s t = Some tb"
    and g: "g \<in> F - {t}" "g \<in> R" "fibers s g = Some gb" "resumable A s g gb" "joiner_of s g = 0 \<or> life_of s g = FIBER_LIVE"
    and nw: "\<And>x. activations s g = Some (In_call x) \<Longrightarrow> \<not> waiting (F - {t}) ps s x"
  shows "destroy_or_trap K t s = Trap \<or>
    (\<exists>s2 s3. destroy_or_trap K t s = Done s2 \<and> libuc_scheduler_enqueue g s2 = Done s3 \<and>
      sched_inv V A (F - {t}) (R - {g} - {t}) (rs @ [g]) ps s3 \<and> fibers s3 t = None \<and> activations s3 g = activations s g \<and>
      (\<forall>x. x \<notin> footprint tb \<longrightarrow> requests s2 x = requests s x \<and> requests s3 x = requests s x))"
proof -
  note wf = fiber_invD(3) [OF inv(1)]
  have apart: "footprint hb \<subseteq> - footprint tb" if "h \<in> F - {t}" "fibers s h = Some hb" for h hb
    using fibers_wf_apart [OF wf _ t(1) _ that(2) t(2)] that(1) by blast
  from destroy_inv [OF _ _ q inv t] K consider "destroy_or_trap K t s = Trap"
    | s2 where "destroy_or_trap K t s = Done s2" "frame_on (- footprint tb) s s2" "sched_inv V A (F - {t}) R rs ps s2"
        "fibers s2 t = None"
    by (auto simp: kernel_ok_def)
  then show ?thesis
  proof cases
    case (2 s2)
    note keep = frame_fiber [OF inv(1) 2(2)]
    have "joiner_of s2 h = joiner_of s h" if h: "h \<in> F - {t}" for h
      using fibers_wfD [OF wf, of h] keep(3) [of h] apart [OF h] h by (metis DiffD1)
    then have w: "waiting (F - {t}) ps s2 x = waiting (F - {t}) ps s x" for x by (auto simp: waiting_def)
    note kg = keep [OF _ g(3) apart [OF g(1,3)]]
    have "\<not> waiting (F - {t}) ps s2 x" if "activations s2 g = Some (In_call x)" for x using nw w that kg(2) g(1) by simp
    then obtain s3 where s3: "libuc_scheduler_enqueue g s2 = Done s3" "relinked s2 s3"
      "sched_inv V A (F - {t}) (R - {g}) (rs @ [g]) ps s3"
      using enqueue_inv [OF 2(3) g(1,2) kg(1)] g kg by auto
    have "fibers s3 t = None" using relinked_dom [OF s3(2)] 2(4) by (metis domIff)
    moreover have "activations s3 g = activations s g" using relinked_same(2) [OF s3(2)] kg(2) g(1) by simp
    moreover have "requests s2 x = requests s x" "requests s3 x = requests s x" if "x \<notin> footprint tb" for x
      using 2(2) that relinked_same(1) [OF s3(2)] by (auto simp: frame_on_def)
    moreover have "sched_inv V A (F - {t}) (R - {g} - {t}) (rs @ [g]) ps s3"
      using s3(3) by (subst sched_inv_out) simp_all
    ultimately show ?thesis using 2(1) s3(1) by blast
  qed simp
qed

section \<open>Exit\<close>

lemma exit_detached:
  assumes K: "kernel_ok V K" and ask: "asking V A F rs ps s f fb q rq" and l: "f_life fb = FIBER_DETACHED" "r_kind rq = REQUEST_EXIT"
  shows "handle_exit K f s = Trap \<or> (\<exists>s'. handle_exit K f s = Done s' \<and> sched_inv V A (F - {f}) {} rs ps s')"
proof -
  note D = askingD [OF ask]
  have "joiner_of s f = 0" using ask l D(3) by (auto simp: asking_def joiner_of_def)
  then have "wait_inv (F - {f}) {f} rs ps s" by (intro wait_inv_drop [OF D(13) D(2)]) auto
  from destroy_inv [OF _ _ D(10,11,12) this D(2,3)] K
  have "destroy_or_trap K f s = Trap \<or> (\<exists>s'. destroy_or_trap K f s = Done s' \<and> sched_inv V A (F - {f}) {f} rs ps s')"
    by (auto simp: kernel_ok_def)
  moreover have "handle_exit K f s = destroy_or_trap K f s" using D(3) l by (simp add: handle_exit_def)
  ultimately show ?thesis using sched_inv_out [of f "F - {f}" V A "{f}"] by auto
qed

lemma exit_kept:
  assumes ask: "asking V A F rs ps s f fb q rq" and l: "f_life fb \<noteq> FIBER_DETACHED" "r_kind rq = REQUEST_EXIT" "f_joiner fb = 0"
  shows "handle_exit K f s = Done s" "sched_inv V A F {} rs ps s"
proof -
  note D = askingD [OF ask]
  show "handle_exit K f s = Done s" using D(3) l by (simp add: handle_exit_def)
  have ex: "f_life fb = FIBER_EXITED" using ask l by (cases "f_life fb") (auto simp: asking_def)
  then have "wait_inv F ({f} - {f}) rs ps s"
    using l D(3) by (intro wait_inv_settle [OF D(13)]) (auto simp: alive_def joiner_of_def)
  moreover have "fiber_inv V A F ({f} - {f}) s" using D(3) ex by (intro fiber_inv_give [OF D(11)]) auto
  ultimately show "sched_inv V A F {} rs ps s" using D(10,12) by (simp add: sched_inv_def)
qed

lemma exit_joined:
  assumes K: "kernel_ok V K" and ask: "asking V A F rs ps s f fb q rq"
    and l: "r_kind rq = REQUEST_EXIT" "f_joiner fb = j" "j \<noteq> 0"
  obtains g jrq where "g \<in> F - {f}" "waits s g j (is_join f)" "requests s j = Some jrq"
    "handle_exit K f s = Trap \<or> (\<exists>s'. handle_exit K f s = Done s' \<and> sched_inv V A (F - {f}) {} (rs @ [g]) ps s' \<and>
      fibers s' f = None \<and> requests s' j = Some (jrq\<lparr>r_result := scast (f_status fb)\<rparr>) \<and> activations s' g = Some (In_call j))"
proof -
  note D = askingD [OF ask]
  have j: "joiner_of s f = j" using l D(3) by (simp add: joiner_of_def)
  obtain g where g: "g \<in> F - {f}" "waits s g j (is_join f)" using wait_invD(5) [OF D(13,2)] j l(3) by auto
  then obtain jrq where jrq: "requests s j = Some jrq" "r_fiber jrq = g" and ga: "alive s g" "activations s g = Some (In_call j)"
    by (auto simp: waits_def)
  obtain gb where gb: "fibers s g = Some gb" "resumable A s g gb"
    using ga(1) fiber_invD(4) [OF D(11) g(1)] by (auto simp: alive_def)
  have jf: "j \<notin> footprint fb" using request_apart [OF D(11) g(1) ga D(2) _ D(3)] g(1) by blast
  let ?s0 = "s\<lparr>joining_count := joining_count s - 1\<rparr>"
  let ?rq = "jrq\<lparr>r_result := scast (f_status fb)\<rparr>"
  let ?s1 = "?s0\<lparr>requests := (requests s)(j \<mapsto> ?rq)\<rparr>"
  have r: "requests ?s0 j = Some jrq" and s1: "?s1 = ?s0\<lparr>requests := (requests ?s0)(j \<mapsto> ?rq)\<rparr>" using jrq by simp_all
  note res = result_inv [OF r s1]
  note W = wait_inv_join_answered [OF D(11,13,2) _ j l(3) g]
  have "destroy_or_trap K f ?s1 = Trap \<or>
    (\<exists>s2 s3. destroy_or_trap K f ?s1 = Done s2 \<and> libuc_scheduler_enqueue g s2 = Done s3 \<and>
      sched_inv V A (F - {f}) ({f, g} - {g} - {f}) (rs @ [g]) ps s3 \<and> fibers s3 f = None \<and> activations s3 g = activations ?s1 g \<and>
      (\<forall>x. x \<notin> footprint fb \<longrightarrow> requests s2 x = requests ?s1 x \<and> requests s3 x = requests ?s1 x))"
  proof (rule reclaim_and_enqueue [OF K])
    show "ready_queue ?s1 rs" "ring_inv V ps ?s1" using D(10,12) by (simp_all only: res inv_joining_count)
    show "fiber_inv V A F {f, g} ?s1" using fiber_inv_mono [OF D(11)] by (simp only: res inv_joining_count) blast
    show "wait_inv (F - {f}) {f, g} rs ps ?s1" using W(1) by (simp only: res insert_commute) simp
    show "joiner_of ?s1 g = 0 \<or> life_of ?s1 g = FIBER_LIVE"
      using wait_invD(4) [OF D(13), of g] g(1) by (auto simp: joiner_of_def life_of_def)
    show "\<not> waiting (F - {f}) ps ?s1 x" if "activations ?s1 g = Some (In_call x)" for x
      using W(2) that ga(2) by (auto simp: waiting_def joiner_of_def)
  qed (use D(2,3) g gb jrq in \<open>auto simp: resumable_def suspended_at_def\<close>)
  moreover have "{f, g} - {g} - {f} = {}" by auto
  moreover have "f_life fb \<noteq> FIBER_DETACHED" using ask l by (auto simp: asking_def)
  then have "handle_exit K f s = obind (destroy_or_trap K f ?s1) (\<lambda>s2. obind (deref (requests s2 j)) (\<lambda>rq.
      libuc_scheduler_enqueue (r_fiber rq) s2))"
    using D(3) l jrq(1) by (simp add: handle_exit_def set_request_def)
  ultimately show ?thesis using that [OF g jrq(1)] jf jrq(2) ga(2) by auto
qed

section \<open>Spawn\<close>

lemma asking_frame:
  assumes ask: "asking V A F rs ps s f fb q rq" and fr: "frame_on (v_mapped V (kern s)) s s'"
    and k: "v_mapped V (kern s) \<subseteq> v_mapped V (kern s')" "v_inflight V (kern s') = v_inflight V (kern s)"
    and a: "dom (activations s') = F"
  shows "asking V A F rs ps s' f fb q rq"
proof -
  note D = askingD [OF ask] and wf = fiber_invD(3) [OF D(11)]
  have M: "footprint gb \<subseteq> v_mapped V (kern s)" if "g \<in> F" "fibers s g = Some gb" for g gb
    using fibers_wfD [OF wf that(1)] that(2) by auto
  have "sched_inv V A F {f} rs ps s'"
    using M k a by (intro sched_inv_frame [OF D(10-13) fr]) blast+
  moreover have "q \<in> footprint fb" using D(7) by (simp add: footprint_def)
  ultimately show ?thesis
    using ask frame_fiber [OF D(11) fr D(2,3) M [OF D(2,3)]] by (simp add: asking_def)
qed

text \<open>Two fibers out of the reactor's hands go on the queue, one after the other.\<close>

lemma enqueue_two:
  assumes inv: "sched_inv V A F {f, g} rs ps s" and ne: "f \<noteq> g"
    and f: "f \<in> F" "fibers s f = Some fb" "resumable A s f fb" "joiner_of s f = 0 \<or> life_of s f = FIBER_LIVE"
      "\<And>q. activations s f = Some (In_call q) \<Longrightarrow> \<not> waiting F ps s q"
    and g: "g \<in> F" "fibers s g = Some gb" "resumable A s g gb" "joiner_of s g = 0 \<or> life_of s g = FIBER_LIVE"
      "\<And>q. activations s g = Some (In_call q) \<Longrightarrow> \<not> waiting F ps s q"
  obtains s1 s2 where "libuc_scheduler_enqueue f s = Done s1" "libuc_scheduler_enqueue g s1 = Done s2"
    "sched_inv V A F {} (rs @ [f, g]) ps s2" "relinked s s1" "relinked s1 s2"
proof -
  obtain s1 where s1: "libuc_scheduler_enqueue f s = Done s1" "relinked s s1" "sched_inv V A F ({f, g} - {f}) (rs @ [f]) ps s1"
    using enqueue_inv [OF inv f(1) _ f(2,3,5,4)] by auto
  have R: "{f, g} - {f} = {g}" using ne by auto
  obtain n where n: "fibers s1 = (\<lambda>p. map_option (\<lambda>fb. fb\<lparr>f_ready_next := n p\<rparr>) (fibers s p))"
    using relinked_fibers [OF s1(2)] .
  let ?gb = "gb\<lparr>f_ready_next := n g\<rparr>"
  have g1: "fibers s1 g = Some ?gb" "resumable A s1 g ?gb"
    using g(2,3) by (simp_all add: n resumable_def suspended_at_def relinked_same [OF s1(2)])
  note inv1 = s1(3) [unfolded R]
  have nw: "\<not> waiting F ps s1 q" if "activations s1 g = Some (In_call q)" for q
    using g(5) that by (simp add: relinked_same [OF s1(2)] relinked_waits [OF s1(2)])
  obtain s2 where "libuc_scheduler_enqueue g s1 = Done s2" "relinked s1 s2" "sched_inv V A F ({g} - {g}) ((rs @ [f]) @ [g]) ps s2"
    using enqueue_inv [OF inv1 g(1) _ g1] nw g(4) by (auto simp: relinked_same [OF s1(2)])
  then show ?thesis using that s1(1,2) by simp
qed

lemma spawn_failed_inv:
  assumes K: "kernel_ok V K" and ask: "asking V A F rs ps s f fb q rq"
    and rq: "r_kind rq = REQUEST_SPAWN" "r_ask rq = Spawn_argument sp"
    and sp: "libuc_fiber_spawn K A (sr_stack_length sp) (sr_entry sp) (sr_argument sp) s = ret (0, s1)"
    and fr: "frame_on (v_mapped V (kern s)) s s1" "v_mapped V (kern s) \<subseteq> v_mapped V (kern s1)"
      "dom (activations s1) \<subseteq> dom (activations s)"
  shows "\<exists>s'. handle_spawn K A f q s = ret s' \<and> sched_inv V A F {} (rs @ [f]) ps s' \<and>
      requests s' q = Some (rq\<lparr>r_result := 0\<rparr>)"
proof -
  note D = askingD [OF ask] and wf = fiber_invD(3) [OF askingD(11) [OF ask]]
  obtain l where lay: "process_layout s = Some l" using fiber_invD(5) [OF D(11)] by blast
  have "h \<in> dom (activations s1)" if h: "h \<in> F" for h
  proof -
    obtain hb where "fibers s h = Some hb" "footprint hb \<subseteq> v_mapped V (kern s)" using fibers_wfD [OF wf h] by metis
    with frame_fiber(2) [OF D(11) fr(1) h] h fiber_invD(2) [OF D(11)] show ?thesis by (auto simp: dom_def)
  qed
  then have "dom (activations s1) = F" using fr(3) fiber_invD(2) [OF D(11)] by blast
  moreover have "inert (v_inflight V) K" using K by (simp add: kernel_ok_def)
  ultimately have "asking V A F rs ps s1 f fb q rq"
    using spawn_inert [OF _ lay sp] fr by (intro asking_frame [OF ask]) auto
  note R = asking_result [OF this, of 0]
  obtain s3 where s3: "libuc_scheduler_enqueue f (s1\<lparr>requests := (requests s1)(q \<mapsto> rq\<lparr>r_result := 0\<rparr>)\<rparr>) = Done s3"
    "relinked (s1\<lparr>requests := (requests s1)(q \<mapsto> rq\<lparr>r_result := 0\<rparr>)\<rparr>) s3" "sched_inv V A F {} (rs @ [f]) ps s3"
    using requeue_inv [OF R(2)] rq by auto
  then have "requests s3 q = Some (rq\<lparr>r_result := 0\<rparr>)" using relinked_same(1) [OF s3(2)] by simp
  then show ?thesis using D(5) rq sp R(1) s3(1,3) by (simp add: handle_spawn_def)
qed

lemma spawn_added_inv:
  assumes K: "kernel_ok V K" and ask: "asking V A F rs ps s f fb q rq"
    and sp: "libuc_fiber_spawn K A len ent arg s = ret (g, s1)"
    and fr: "frame_on (v_mapped V (kern s)) s s1" "v_mapped V (kern s) \<subseteq> v_mapped V (kern s1)"
      "activations s1 = (activations s)(g \<mapsto> At_entry)"
    and g: "spawned_as A len ent arg (v_mapped V (kern s)) (v_mapped V (kern s1)) s1 g gb"
  shows "g \<notin> F" "sched_inv V A (insert g F) {f, g} rs ps s1" "fibers s1 f = Some fb" "resumable A s f fb \<Longrightarrow> resumable A s1 f fb"
    "activations s1 f = Some (In_call q)" "requests s1 q = Some rq" "\<not> waiting (insert g F) ps s1 q"
proof -
  note D = askingD [OF ask] and wf = fiber_invD(3) [OF askingD(11) [OF ask]]
  obtain l where lay: "process_layout s = Some l" using fiber_invD(5) [OF D(11)] by blast
  have inM: "footprint hb \<subseteq> v_mapped V (kern s)" if "h \<in> F" "fibers s h = Some hb" for h hb
    using fibers_wfD [OF wf that(1)] that(2) by auto
  have G: "fibers s1 g = Some gb" "fiber_wf s1 g gb" "footprint gb \<inter> v_mapped V (kern s) = {}"
    "footprint gb \<subseteq> v_mapped V (kern s1)" "f_joiner gb = 0"
    using g by (auto simp: spawned_as_def)
  have gM: "g \<notin> v_mapped V (kern s)" using G(3) fiber_wf_in_footprint(1) [OF G(2)] by blast
  show new: "g \<notin> F"
  proof
    assume "g \<in> F"
    then obtain b where "fibers s g = Some b" "fiber_wf s g b" using fibers_wfD [OF wf] by metis
    with inM \<open>g \<in> F\<close> fiber_wf_in_footprint(1) gM show False by blast
  qed
  let ?s0 = "s1\<lparr>activations := activations s\<rparr>"
  have "inert (v_inflight V) K" using K by (simp add: kernel_ok_def)
  note inflight = spawn_inert [OF this lay sp]
  have fr0: "frame_on (v_mapped V (kern s)) s ?s0" using fr(1) by (simp add: frame_on_def)
  have a0: "asking V A F rs ps ?s0 f fb q rq"
    using fr0 fr(2) inflight fiber_invD(2) [OF D(11)] by (intro asking_frame [OF ask]) auto
  note E = askingD [OF a0]
  have s1: "s1 = ?s0\<lparr>activations := (activations ?s0)(g \<mapsto> At_entry)\<rparr>" using fr(3) by simp
  have ap: "footprint hb \<inter> footprint gb = {}" if h: "h \<in> F" "fibers ?s0 h = Some hb" for h hb
  proof -
    obtain hb0 where hb0: "fibers s h = Some hb0" using fibers_wfD [OF wf h(1)] by metis
    then have "hb = hb0" using frame_fiber(1) [OF D(11) fr0 h(1) hb0 inM [OF h(1) hb0]] h(2) by simp
    then show ?thesis using inM [OF h(1) hb0] G(3) by blast
  qed
  have "fibers ?s0 g = Some gb" "fiber_wf ?s0 g gb" "footprint gb \<subseteq> v_mapped V (kern ?s0)"
    using G by (simp_all add: fiber_wf_def)
  from add_fiber_inv [OF E(1) new this G(5) ap s1] have "sched_inv V A (insert g F) (insert g {f}) rs ps s1" .
  then show "sched_inv V A (insert g F) {f, g} rs ps s1" by (simp add: insert_commute)
  note ff = frame_fiber [OF D(11) fr0 D(2,3) inM [OF D(2,3)]]
  show "fibers s1 f = Some fb" "requests s1 q = Some rq" using E(3,5) by simp_all
  show "activations s1 f = Some (In_call q)" using E(4) new D(2) fr(3) D(4) by auto
  show "resumable A s f fb \<Longrightarrow> resumable A s1 f fb"
    using ff(5) new D(2) fr(3) by (auto simp: resumable_def suspended_at_def)
  have "joiner_of s1 g = 0" "joiner_of s1 h = joiner_of ?s0 h" for h using G by (simp_all add: joiner_of_def)
  then show "\<not> waiting (insert g F) ps s1 q" using asking_not_waiting(1) [OF a0] by (auto simp: waiting_def)
qed

lemma spawn_ok_inv:
  assumes K: "kernel_ok V K" and ask: "asking V A F rs ps s f fb q rq"
    and rq: "r_kind rq = REQUEST_SPAWN" "r_ask rq = Spawn_argument sp"
    and sp: "libuc_fiber_spawn K A (sr_stack_length sp) (sr_entry sp) (sr_argument sp) s = ret (g, s1)"
    and fr: "frame_on (v_mapped V (kern s)) s s1" "v_mapped V (kern s) \<subseteq> v_mapped V (kern s1)"
      "activations s1 = (activations s)(g \<mapsto> At_entry)"
    and g: "spawned_as A (sr_stack_length sp) (sr_entry sp) (sr_argument sp) (v_mapped V (kern s)) (v_mapped V (kern s1)) s1 g gb"
  shows "\<exists>gb s'. handle_spawn K A f q s = ret s' \<and> sched_inv V A (insert g F) {} (rs @ [f, g]) ps s' \<and>
      requests s' q = Some (rq\<lparr>r_result := g\<rparr>) \<and> fibers s' g = Some gb \<and> activations s' g = Some At_entry \<and>
      f_entry gb = sr_entry sp \<and> f_argument gb = sr_argument sp \<and> f_life gb = FIBER_LIVE"
proof -
  note D = askingD [OF ask] and S = spawn_added_inv [OF K ask sp fr g]
  have L: "resumable A s f fb" "joiner_of s f = 0 \<or> life_of s f = FIBER_LIVE" using asking_live [OF ask] rq by auto
  have G: "fibers s1 g = Some gb" "resumable A s1 g gb" "f_joiner gb = 0" "activations s1 g = Some At_entry" "g \<noteq> 0"
    "f_entry gb = sr_entry sp" "f_argument gb = sr_argument sp" "f_life gb = FIBER_LIVE"
    using g by (auto simp: spawned_as_def fiber_wf_def)
  let ?s2 = "s1\<lparr>requests := (requests s1)(q \<mapsto> rq\<lparr>r_result := g\<rparr>)\<rparr>"
  note res = result_inv [OF S(6) refl, where v = g]
  have inv2: "sched_inv V A (insert g F) {f, g} rs ps ?s2" using S(2) by (simp only: sched_inv_def res)
  obtain s3 s4 where q: "libuc_scheduler_enqueue f ?s2 = Done s3" "libuc_scheduler_enqueue g s3 = Done s4"
    "sched_inv V A (insert g F) {} (rs @ [f, g]) ps s4" "relinked ?s2 s3" "relinked s3 s4"
  proof (rule enqueue_two [OF inv2])
    show "f \<noteq> g" using S(1) D(2) by blast
    show "joiner_of ?s2 f = 0 \<or> life_of ?s2 f = FIBER_LIVE" using L(2) S(3) D(3) by (simp add: joiner_of_def life_of_def)
    show "\<not> waiting (insert g F) ps ?s2 x" if "activations ?s2 f = Some (In_call x)" for x
      using S(5,7) that unfolding res by simp
    show "joiner_of ?s2 g = 0 \<or> life_of ?s2 g = FIBER_LIVE" using G by (simp add: joiner_of_def)
  qed (use D(2) S(3,4) L(1) G in \<open>simp_all add: res\<close>)
  have "requests s4 q = Some (rq\<lparr>r_result := g\<rparr>)" "activations s4 g = Some At_entry"
    unfolding relinked_same [OF q(5)] relinked_same [OF q(4)] using G(4) by simp_all
  moreover obtain b where "fibers s4 g = Some b" "f_entry b = sr_entry sp" "f_argument b = sr_argument sp" "f_life b = FIBER_LIVE"
  proof -
    obtain n where n: "fibers s3 = (\<lambda>p. map_option (\<lambda>fb. fb\<lparr>f_ready_next := n p\<rparr>) (fibers ?s2 p))"
      using relinked_fibers [OF q(4)] .
    obtain m where "fibers s4 = (\<lambda>p. map_option (\<lambda>fb. fb\<lparr>f_ready_next := m p\<rparr>) (fibers s3 p))"
      using relinked_fibers [OF q(5)] .
    then show ?thesis using that G n by simp
  qed
  moreover have "handle_spawn K A f q s = ret s4"
    using D(5) rq sp S(6) G(5) q(1,2) by (simp add: handle_spawn_def set_request_def)
  ultimately show ?thesis using q(3) by blast
qed

text \<open>
  The spawner is queued first, then what it made; its request carries the new handle, or null.
\<close>

lemma spawn_inv:
  assumes K: "kernel_ok V K" and A: "fiber_arch A" and ask: "asking V A F rs ps s f fb q rq"
    and rq: "r_kind rq = REQUEST_SPAWN" "r_ask rq = Spawn_argument sp"
  shows "(\<exists>s'. handle_spawn K A f q s = ret s' \<and> sched_inv V A F {} (rs @ [f]) ps s' \<and>
      requests s' q = Some (rq\<lparr>r_result := 0\<rparr>)) \<or>
    (\<exists>g gb s'. g \<notin> F \<and> handle_spawn K A f q s = ret s' \<and> sched_inv V A (insert g F) {} (rs @ [f, g]) ps s' \<and>
      requests s' q = Some (rq\<lparr>r_result := g\<rparr>) \<and> fibers s' g = Some gb \<and> activations s' g = Some At_entry \<and>
      f_entry gb = sr_entry sp \<and> f_argument gb = sr_argument sp \<and> f_life gb = FIBER_LIVE)"
proof -
  obtain l where lay: "process_layout s = Some l" "layout_ok l" using fiber_invD(5) [OF askingD(11) [OF ask]] by blast
  have KM: "mmap_ok (v_mapped V) K" "munmap_ok (v_mapped V) K" using K by (auto simp: kernel_ok_def)
  show ?thesis
  proof (rule fiber_arch.spawn_cases [OF A KM lay, of "sr_stack_length sp" "sr_entry sp" "sr_argument sp"])
    fix s1 assume "libuc_fiber_spawn K A (sr_stack_length sp) (sr_entry sp) (sr_argument sp) s = ret (0, s1)"
      "frame_on (v_mapped V (kern s)) s s1" "v_mapped V (kern s) \<subseteq> v_mapped V (kern s1)"
      "dom (activations s1) \<subseteq> dom (activations s)"
    from spawn_failed_inv [OF K ask rq this] show ?thesis by blast
  next
    fix g s1 gb
    assume S: "libuc_fiber_spawn K A (sr_stack_length sp) (sr_entry sp) (sr_argument sp) s = ret (g, s1)"
      "frame_on (v_mapped V (kern s)) s s1" "v_mapped V (kern s) \<subseteq> v_mapped V (kern s1)"
      "activations s1 = (activations s)(g \<mapsto> At_entry)"
      "spawned_as A (sr_stack_length sp) (sr_entry sp) (sr_argument sp) (v_mapped V (kern s)) (v_mapped V (kern s1)) s1 g gb"
    from spawn_ok_inv [OF K ask rq S] spawn_added_inv(1) [OF K ask S] show ?thesis by blast
  qed
qed

section \<open>Join\<close>

text \<open>Joining a fiber that has exited takes its status and reclaims it.\<close>

lemma join_exited:
  assumes K: "kernel_ok V K" and ask: "asking V A F rs ps s f fb q rq" and rq: "r_kind rq = REQUEST_JOIN" "r_ask rq = Target t"
    and t: "t \<in> F" "t \<noteq> f" "fibers s t = Some tb" "f_joiner tb = 0" "f_life tb = FIBER_EXITED"
  shows "handle_join K f q s = Trap \<or> (\<exists>s'. handle_join K f q s = Done s' \<and> sched_inv V A (F - {t}) {} (rs @ [f]) ps s' \<and>
    fibers s' t = None \<and> requests s' q = Some (rq\<lparr>r_result := scast (f_status tb)\<rparr>) \<and> activations s' f = Some (In_call q))"
proof -
  let ?rq = "rq\<lparr>r_result := scast (f_status tb)\<rparr>"
  let ?s1 = "s\<lparr>requests := (requests s)(q \<mapsto> ?rq)\<rparr>"
  note D0 = askingD [OF ask] and R = asking_result [OF ask, of "scast (f_status tb)"]
  note D = askingD [OF R(2)] and L = asking_live [OF R(2)]
  have t1: "fibers ?s1 t = Some tb" using t by simp
  have w: "wait_inv (F - {t}) {f} rs ps ?s1"
    using t t1 by (intro wait_inv_drop [OF D(13) t(1)]) (auto simp: joiner_of_def alive_def)
  have nw: "\<not> waiting (F - {t}) ps ?s1 x" if "activations ?s1 f = Some (In_call x)" for x
    using asking_not_waiting(1) [OF R(2)] D(4) that by (auto simp: waiting_def)
  have "footprint fb \<inter> footprint tb = {}" using fibers_wf_apart [OF fiber_invD(3) [OF D(11)] D(2) t(1) _ D(3) t1] t(2) by blast
  then have qt: "q \<notin> footprint tb" using D(7) by (auto simp: footprint_def)
  have h: "handle_join K f q s = obind (destroy_or_trap K t ?s1) (libuc_scheduler_enqueue f)"
    using D0(5) rq t R(1) by (simp add: handle_join_def)
  have "f \<in> F - {t}" "{f} - {f} - {t} = {}" using D(2) t(2) by auto
  with reclaim_and_enqueue [OF K D(10,11,12) w t(1) t1 _ _ D(3) L(1,2) nw] rq qt D(4) show ?thesis by (auto simp: h)
qed

text \<open>Joining a live fiber leaves the request with it and queues nobody.\<close>

lemma join_live:
  assumes ask: "asking V A F rs ps s f fb q rq" and rq: "r_kind rq = REQUEST_JOIN" "r_ask rq = Target t"
    and t: "t \<in> F" "t \<noteq> f" "fibers s t = Some tb" "f_joiner tb = 0" "f_life tb = FIBER_LIVE"
  obtains s' where "handle_join K f q s = Done s'" "sched_inv V A F {} rs ps s'" "joiner_of s' t = q" "fibers s' f = Some fb"
    "joining_count s' = joining_count s + 1"
proof -
  note D = askingD [OF ask] and L = asking_live [OF ask]
  let ?s = "s\<lparr>fibers := (fibers s)(t \<mapsto> tb\<lparr>f_joiner := q\<rparr>), joining_count := joining_count s + 1\<rparr>"
  have h: "handle_join K f q s = Done ?s" using D(5) rq t by (simp add: handle_join_def set_fiber_def)
  have j: "joiner_of ?s = (joiner_of s)(t := q)" by (auto simp: joiner_of_def fun_eq_iff)
  have al: "alive ?s = alive s" "life_of ?s = life_of s" using t by (auto simp: alive_def life_of_def fun_eq_iff)
  then have same: "waits ?s = waits s" by (simp add: waits_def fun_eq_iff)
  have j0: "joiner_of s t = 0" "life_of s t = FIBER_LIVE" using t by (simp_all add: joiner_of_def life_of_def)
  have "joined F ?s = insert t (joined F s)" "t \<notin> joined F s" using t(1) j0 D(8) by (auto simp: joined_def j)
  then have c: "joining_count ?s = of_nat (card (joined F ?s))"
    using wait_invD(6) [OF D(13)] fiber_invD(1) [OF D(11)] by (simp add: joined_def add.commute)
  have "wait_inv F ({f} - {f}) rs ps ?s"
  proof (rule wait_inv_asked [OF D(13) D(2) _ _ _ asking_not_waiting(2) [OF ask] al same _ _ _ _ c])
    show "waits s f q (is_join t)" using D L(3) rq by (auto simp: waits_def is_join_def)
    show "waiting F ps ?s x \<longleftrightarrow> waiting F ps s x \<or> x = q" for x
      using t(1) j0 D(8) by (auto simp: waiting_def j)
  qed (use L(2) rq j j0 in \<open>auto split: if_splits\<close>)
  moreover have "fiber_inv V A F {f} ?s" by (rule fiber_inv_update [OF D(11) t(3), where tb' = "tb\<lparr>f_joiner := q\<rparr>"]) simp_all
  then have "fiber_inv V A F ({f} - {f}) ?s"
    using D(3) L(1) rq t(2) by (intro fiber_inv_give) (auto simp: resumable_def suspended_at_def)
  moreover have "ready_queue ?s rs" by (rule ready_queue_update [OF D(10) t(3), where tb' = "tb\<lparr>f_joiner := q\<rparr>"]) simp_all
  ultimately have "sched_inv V A F {} rs ps ?s" using D(12) by (simp add: sched_inv_def ring_inv_def)
  then show ?thesis using that [OF h] j D(3) t(2) by simp
qed

section \<open>Detach\<close>

lemma detach_exited:
  assumes K: "kernel_ok V K" and ask: "asking V A F rs ps s f fb q rq" and rq: "r_kind rq = REQUEST_DETACH" "r_ask rq = Target t"
    and t: "t \<in> F" "fibers s t = Some tb" "f_joiner tb = 0" "f_life tb = FIBER_EXITED"
  shows "handle_detach K f q s = Trap \<or>
    (\<exists>s'. handle_detach K f q s = Done s' \<and> sched_inv V A (F - {t}) {} (rs @ [f]) ps s' \<and> fibers s' t = None)"
proof -
  note D = askingD [OF ask] and L = asking_live [OF ask]
  have ne: "t \<noteq> f" using L(3) rq t D(3) by (auto simp: alive_def)
  have w: "wait_inv (F - {t}) {f} rs ps s"
    using t by (intro wait_inv_drop [OF D(13) t(1)]) (auto simp: joiner_of_def alive_def)
  have nw: "\<not> waiting (F - {t}) ps s x" if "activations s f = Some (In_call x)" for x
    using asking_not_waiting(1) [OF ask] D(4) that by (auto simp: waiting_def)
  have h: "handle_detach K f q s = obind (destroy_or_trap K t s) (libuc_scheduler_enqueue f)"
    using D(5) rq t by (simp add: handle_detach_def)
  have "f \<in> F - {t}" "{f} - {f} - {t} = {}" using D(2) ne by auto
  with reclaim_and_enqueue [OF K D(10,11,12) w t(1,2) _ _ D(3) L(1,2) nw] rq show ?thesis by (auto simp: h)
qed

text \<open>Detaching a live fiber, itself included, only marks it.\<close>

lemma detach_live:
  assumes ask: "asking V A F rs ps s f fb q rq" and rq: "r_kind rq = REQUEST_DETACH" "r_ask rq = Target t"
    and t: "t \<in> F" "fibers s t = Some tb" "f_joiner tb = 0" "f_life tb = FIBER_LIVE"
  obtains s' where "handle_detach K f q s = Done s'" "sched_inv V A F {} (rs @ [f]) ps s'" "life_of s' t = FIBER_DETACHED"
proof -
  note D = askingD [OF ask] and L = asking_live [OF ask]
  let ?tb = "tb\<lparr>f_life := FIBER_DETACHED\<rparr>"
  let ?s = "s\<lparr>fibers := (fibers s)(t \<mapsto> ?tb)\<rparr>"
  have j: "joiner_of ?s g = joiner_of s g" "alive ?s g = alive s g" for g using t by (auto simp: joiner_of_def alive_def)
  have "wait_inv F {f} rs ps ?s"
    using t j by (intro wait_inv_transfer [OF D(13)]) (auto simp: life_of_def joiner_of_def)
  moreover have "fiber_inv V A F {f} ?s" by (rule fiber_inv_update [OF D(11) t(2), where tb' = ?tb]) (simp_all add: t)
  moreover have "ready_queue ?s rs" by (rule ready_queue_update [OF D(10) t(2), where tb' = ?tb]) simp_all
  ultimately have "sched_inv V A F {f} rs ps ?s" using D(12) by (simp add: sched_inv_def ring_inv_def)
  moreover obtain fb' where "fibers ?s f = Some fb'" "stack_range fb' = stack_range fb" "f_context fb' = f_context fb"
    "f_life fb' \<noteq> FIBER_EXITED" "f_joiner fb' = 0 \<or> f_life fb' = FIBER_LIVE"
    using D(3) t ask rq by (cases "t = f") (auto simp: asking_def)
  ultimately have "asking V A F rs ps ?s f fb' q rq" using ask D rq by (simp add: asking_def)
  then obtain s' where s': "libuc_scheduler_enqueue f ?s = Done s'" "relinked ?s s'" "sched_inv V A F {} (rs @ [f]) ps s'"
    using requeue_inv rq by (metis fiber_request_kind.distinct)
  moreover have "handle_detach K f q s = libuc_scheduler_enqueue f ?s"
    using D(5) rq t by (simp add: handle_detach_def set_fiber_def)
  moreover have "life_of s' t = FIBER_DETACHED" by (simp add: relinked_same [OF s'(2)] life_of_def)
  ultimately show ?thesis using that by simp
qed

section \<open>Await\<close>

lemma parked_length: "ring_inv V ps s \<Longrightarrow> unat (parked_count s) = length ps"
proof -
  assume i: "ring_inv V ps s"
  then have "length ps \<le> unat (cq_entries (sring s))" by (simp add: ring_inv_def)
  then have "length ps < 4294967296" using unat_lt_2p32 [of "cq_entries (sring s)"] by linarith
  then show ?thesis using i by (simp add: ring_inv_def unat_of_nat)
qed

lemma balance:
  fixes a :: "'a multiset"
  assumes "a + n = t + b" "p = a + i + c"
  shows "p + n = b + (i + t) + c"
proof -
  have "p + n = (a + n) + (i + c)" by (simp only: assms(2) ac_simps)
  then show ?thesis by (simp only: assms(1) ac_simps)
qed

lemma ring_inv_step:
  assumes V: "single_shot V" and inv: "ring_inv V ps s" and st: "ring_step V new (sring s) (kern s) (sring s') (kern s')"
    and ps': "ps' = ps @ map sq_user_data new" "distinct ps'" "length ps' \<le> unat (cq_entries (sring s))"
    and c: "parked_count s' = of_nat (length ps')"
  shows "ring_inv V ps' s'"
proof -
  obtain taken posted where t: "sq_batch (sring s) @ new = taken @ sq_batch (sring s')"
    "cq_pending (sring s') = cq_pending (sring s) @ posted"
    and posted: "posts (v_inflight V (kern s) + mset (map sq_user_data taken)) posted (v_inflight V (kern s'))"
      "\<forall>c \<in> set posted. v_posts V c"
    using st by (auto simp: ring_step_def)
  have flags: "\<forall>c \<in> set posted. cq_flags c AND stream_flags = 0" using V posted(2) by (simp add: single_shot_def)
  have "\<forall>c \<in> set posted. last_completion c" using flags stream_flags_last by blast
  note inflight = posted(1) [unfolded posts_single [OF this]]
  have "mset (map sq_user_data (sq_batch (sring s))) + mset (map sq_user_data new) =
      mset (map sq_user_data taken) + mset (map sq_user_data (sq_batch (sring s')))"
    using arg_cong [OF t(1), of "\<lambda>es. mset (map sq_user_data es)"] by simp
  moreover have "mset ps = mset (map sq_user_data (sq_batch (sring s))) + v_inflight V (kern s) +
      mset (map cq_user_data (cq_pending (sring s)))"
    using inv by (simp add: ring_inv_def)
  ultimately have "mset ps + mset (map sq_user_data new) = mset (map sq_user_data (sq_batch (sring s'))) +
      (v_inflight V (kern s) + mset (map sq_user_data taken)) + mset (map cq_user_data (cq_pending (sring s)))"
    by (rule balance)
  then have "mset ps' = mset (map sq_user_data (sq_batch (sring s'))) + v_inflight V (kern s') +
      mset (map cq_user_data (cq_pending (sring s')))"
    unfolding inflight by (simp add: ps'(1) t(2) ac_simps)
  then show ?thesis
    using inv st ps'(2,3) c t(2) flags by (auto simp: ring_inv_def ring_step_def)
qed

lemma ring_part:
  assumes "v_mapped V k = v_mapped V (kern s)"
  shows "fiber_inv V A F R (s\<lparr>sring := r, kern := k, parked_count := n\<rparr>) = fiber_inv V A F R s"
    "ready_queue (s\<lparr>sring := r, kern := k, parked_count := n\<rparr>) rs = ready_queue s rs"
  using assms by (simp_all add: fiber_inv_def fibers_wf_def fiber_wf_def resumable_def suspended_at_def ready_queue_def next_map_def)

text \<open>The batch is full and submitting it fails.\<close>

definition flush_fails :: "('k, 'y) ring_kernel_scheme \<Rightarrow> ('k, 'c, 'w) system \<Rightarrow> bool" where
  "flush_fails K s \<longleftrightarrow> batch_count (sring s) = sq_entries (sring s) \<and>
     (case libuc_ring_submit K 0 (sring s) (kern s) of
        Some (Done (result, r, k)) \<Rightarrow> libuc_syscall_failed result
      | _ \<Rightarrow> False)"

text \<open>
  An awaited operation is parked: its entry, with the request's address as user data, is the last of
  the batch (everything before it may have been submitted), unless the completion queue could
  overflow or the program asked for flags, or a flush failed.
\<close>

lemma park_inv:
  assumes K: "kernel_ok V K" and ask: "asking V A F rs ps s f fb q rq" and rq: "r_kind rq = REQUEST_AWAIT" "r_ask rq = Await_argument e"
  shows "(sq_flags e \<noteq> 0 \<or> length ps = unat (cq_entries (sring s)) \<or> flush_fails K s) \<and> park K q s = Some Trap \<or>
    (\<exists>s'. park K q s = ret s' \<and> sched_inv V A F {} rs (ps @ [q]) s' \<and> length ps < unat (cq_entries (sring s)) \<and>
      sq_flags e = 0 \<and> \<not> flush_fails K s \<and> ring_step V [e\<lparr>sq_user_data := q\<rparr>] (sring s) (kern s) (sring s') (kern s'))"
proof (cases "sq_flags e \<noteq> 0 \<or> parked_count s = cq_entries (sring s)")
  case True
  have "parked_count s = cq_entries (sring s) \<Longrightarrow> length ps = unat (cq_entries (sring s))"
    using parked_length [OF askingD(12) [OF ask]] by simp
  then show ?thesis using True askingD(5) [OF ask] rq by (auto simp: park_def)
next
  case ok: False
  note D = askingD [OF ask] and L = asking_live [OF ask]
  have V: "single_shot V" and en: "enter_ok V K" and wf: "ring_wf (sring s)" using K D(12) by (auto simp: kernel_ok_def ring_inv_def)
  from ring.slot_claimed [OF en wf, of "kern s"] consider
    "append_or_flush libuc_ring_append_sqe (libuc_ring_submit K) (sring s) (kern s) = Some Trap" "flush_fails K s"
    | i r' k' where "append_or_flush libuc_ring_append_sqe (libuc_ring_submit K) (sring s) (kern s) = ret (i, r', k')"
      "\<forall>e. ring_step V [e] (sring s) (kern s) (fill_slot i e r') k'"
    by (auto simp: flush_fails_def)
  then show ?thesis
  proof cases
    case 1
    then show ?thesis using D(5) rq ok by (simp add: park_def)
  next
    case (2 i r' k')
    let ?e = "e\<lparr>sq_user_data := q\<rparr>"
    let ?s = "s\<lparr>sring := fill_slot i ?e r', kern := k', parked_count := parked_count s + 1\<rparr>"
    have st: "ring_step V [?e] (sring s) (kern s) (fill_slot i ?e r') k'" using 2(2) by blast
    have p: "park K q s = ret ?s" using D(5) rq ok 2(1) by (simp add: park_def)
    have nf: "\<not> flush_fails K s"
      using 2(1) by (auto simp: flush_fails_def append_or_flush_def append_full split: option.splits outcome.splits)
    have room: "length ps < unat (cq_entries (sring s))"
      using ok D(12) by (auto simp: ring_inv_def order.order_iff_strict)
    have vm: "v_mapped V k' = v_mapped V (kern s)" using st by (simp add: ring_step_def)
    have np: "q \<notin> set ps" using asking_not_waiting(1) [OF ask] by (auto simp: waiting_def)
    have "ring_inv V (ps @ [q]) ?s"
      using room np D(12) st by (intro ring_inv_step [OF V D(12), where new = "[?e]"]) (auto simp: ring_inv_def)
    moreover have "wait_inv F ({f} - {f}) rs (ps @ [q]) ?s"
    proof (rule wait_inv_asked [OF D(13) D(2) _ _ _ asking_not_waiting(2) [OF ask]])
      show "waits s f q is_await" using D L(3) rq by (auto simp: waits_def is_await_def)
      show "joining_count ?s = of_nat (card (joined F ?s))" using wait_invD(6) [OF D(13)] by (simp add: joined_def joiner_of_def)
    qed (use L(2) rq in \<open>auto simp: alive_def life_of_def joiner_of_def waits_def waiting_def fun_eq_iff\<close>)
    moreover have "fiber_inv V A F ({f} - {f}) s" using D(3) L(1) rq by (intro fiber_inv_give [OF D(11)]) auto
    ultimately have "sched_inv V A F {} rs (ps @ [q]) ?s" using D(10) by (simp add: sched_inv_def ring_part [OF vm])
    then show ?thesis using p room ok st nf by simp
  qed
qed

section \<open>Completions\<close>

lemma inv_sring_counts [simp]:
  "fiber_inv V A F R (s\<lparr>sring := r\<rparr>) = fiber_inv V A F R s" "fiber_inv V A F R (s\<lparr>parked_count := n\<rparr>) = fiber_inv V A F R s"
  "ready_queue (s\<lparr>sring := r\<rparr>) rs = ready_queue s rs" "ready_queue (s\<lparr>parked_count := n\<rparr>) rs = ready_queue s rs"
  "wait_inv F R rs ps (s\<lparr>sring := r\<rparr>) = wait_inv F R rs ps s" "wait_inv F R rs ps (s\<lparr>parked_count := n\<rparr>) = wait_inv F R rs ps s"
  by (simp_all add: fiber_inv_def fibers_wf_def fiber_wf_def resumable_def suspended_at_def ready_queue_def next_map_def
      wait_inv_def waits_def alive_def joiner_of_def life_of_def waiting_def joined_def)

text \<open>One completion wakes the fiber whose request it answers, and no other.\<close>

lemma wake_inv:
  assumes inv: "sched_inv V A F {} rs ps s" and c: "cq_pending (sring s) = c # cs"
    and r: "r = (sring s)\<lparr>cq_head := cq_head (sring s) + 1\<rparr>"
  obtains g rq s' where "wake c (s\<lparr>sring := r\<rparr>) = Done s'" "g \<in> F" "requests s (cq_user_data c) = Some rq" "r_fiber rq = g"
    "cq_user_data c \<in> set ps" "sched_inv V A F {} (rs @ [g]) (remove1 (cq_user_data c) ps) s'" "sring s' = r" "cq_pending r = cs"
    "requests s' = (requests s)(cq_user_data c \<mapsto> rq\<lparr>r_result := scast (cq_res c)\<rparr>)" "activations s' = activations s"
    "world s' = world s"
proof -
  have q: "ready_queue s rs" and i: "fiber_inv V A F {} s" "ring_inv V ps s" "wait_inv F {} rs ps s"
    using inv by (simp_all add: sched_inv_def)
  have wf: "ring_wf (sring s)" and dist: "distinct ps" and fl: "cq_flags c AND stream_flags = 0"
    and ms: "mset ps = mset (map sq_user_data (sq_batch (sring s))) + v_inflight V (kern s) +
      mset (map cq_user_data (cq_pending (sring s)))"
    using i(2) c by (auto simp: ring_inv_def)
  note P = reap_pending [OF wf]
  let ?q = "cq_user_data c"
  have qp: "?q \<in> set ps"
    using arg_cong [OF ms, of set_mset] c by simp
  obtain g where g: "g \<in> F - {}" "waits s g ?q is_await" using wait_invD(3) [OF i(3) qp] by blast
  then obtain rq where rq: "requests s ?q = Some rq" "r_fiber rq = g" and ga: "alive s g" "activations s g = Some (In_call ?q)"
    by (auto simp: waits_def)
  obtain gb where gb: "fibers s g = Some gb" "resumable A s g gb"
    using ga(1) fiber_invD(4) [OF i(1) g(1)] by (auto simp: alive_def)
  let ?rq = "rq\<lparr>r_result := scast (cq_res c)\<rparr>"
  let ?s1 = "s\<lparr>requests := (requests s)(?q \<mapsto> ?rq)\<rparr>"
  let ?s2 = "?s1\<lparr>sring := r, parked_count := parked_count s - 1\<rparr>"
  note res = result_inv [OF rq(1) refl, where v = "scast (cq_res c)"]
  note W = wait_inv_await_answered [OF i(1,3) qp dist g]
  have p: "cq_pending r = cs" "ring_wf r" using P(2) [OF c] P(3) c by (simp_all add: r)
  have len: "length ps = Suc (length (remove1 ?q ps))" using qp length_pos_if_in_set [OF qp] by (simp add: length_remove1)
  have "ring_inv V (remove1 ?q ps) ?s2"
    using i(2) p c len ms dist by (auto simp: ring_inv_def sq_batch_def r)
  moreover have "wait_inv F {g} rs (remove1 ?q ps) ?s2" using W(1) [of "parked_count s"] by (simp add: res)
  moreover have "fiber_inv V A F {g} ?s2" using fiber_inv_mono [OF i(1)] by (simp add: res)
  ultimately have "sched_inv V A F {g} rs (remove1 ?q ps) ?s2" using q by (simp add: sched_inv_def res)
  moreover have "joiner_of ?s2 g = 0 \<or> life_of ?s2 g = FIBER_LIVE"
    using wait_invD(4) [OF i(3), of g] g(1) by (auto simp: joiner_of_def life_of_def)
  moreover have "resumable A ?s1 g gb" using gb(2) by (simp only: res)
  then have "resumable A ?s2 g gb" by (simp add: resumable_def suspended_at_def)
  moreover have "\<not> waiting F (remove1 ?q ps) ?s2 x" if "activations ?s2 g = Some (In_call x)" for x
    using W(2) that ga(2) by (auto simp: waiting_def joiner_of_def)
  ultimately obtain s' where s': "libuc_scheduler_enqueue g ?s2 = Done s'" "relinked ?s2 s'"
    "sched_inv V A F ({g} - {g}) (rs @ [g]) (remove1 ?q ps) s'"
    using enqueue_inv [of V A F "{g}" rs "remove1 ?q ps" ?s2 g gb] g(1) gb(1) by auto
  have "wake c (s\<lparr>sring := r\<rparr>) = libuc_scheduler_enqueue g
      (s\<lparr>sring := r, requests := (requests s)(?q \<mapsto> ?rq), parked_count := parked_count s - 1\<rparr>)"
    using fl rq by (simp add: wake_def set_request_def Let_def)
  also have "s\<lparr>sring := r, requests := (requests s)(?q \<mapsto> ?rq), parked_count := parked_count s - 1\<rparr> = ?s2"
    by (rule system.equality) simp_all
  finally have "wake c (s\<lparr>sring := r\<rparr>) = Done s'" by (simp only: s'(1))
  moreover have "sring s' = r" "requests s' = (requests s)(?q \<mapsto> ?rq)" "activations s' = activations s" "world s' = world s"
    unfolding relinked_same [OF s'(2)] by simp_all
  ultimately show ?thesis using that g(1) rq qp s'(3) p(1) by auto
qed

text \<open>
  The reap loop ends, having answered every completion in the queue in order and queued its fiber.
\<close>

lemma reap_loop_inv:
  assumes "sched_inv V A F {} rs ps s" "cq_pending (sring s) = cs"
  shows "\<exists>s'. reap_loop s = ret s' \<and> sched_inv V A F {} (rs @ map (\<lambda>c. r_fiber (the (requests s (cq_user_data c)))) cs)
      (fold (\<lambda>c. remove1 (cq_user_data c)) cs ps) s' \<and> cq_pending (sring s') = [] \<and> activations s' = activations s \<and> world s' = world s \<and>
    (\<forall>x. x \<notin> cq_user_data ` set cs \<longrightarrow> requests s' x = requests s x) \<and>
    (\<forall>c \<in> set cs. requests s' (cq_user_data c) = map_option (\<lambda>rq. rq\<lparr>r_result := scast (cq_res c)\<rparr>) (requests s (cq_user_data c)))"
  using assms
proof (induction cs arbitrary: s rs ps)
  case Nil
  then have "libuc_ring_reap (sring s) = Done (None, sring s)"
    using reap_pending(1) [of "sring s"] by (simp add: sched_inv_def ring_inv_def)
  then show ?case using Nil by (subst reap_loop.simps) simp
next
  case (Cons c cs)
  let ?r = "(sring s)\<lparr>cq_head := cq_head (sring s) + 1\<rparr>"
  let ?q = "cq_user_data c"
  have reap: "libuc_ring_reap (sring s) = Done (Some c, ?r)"
    using reap_pending(1) [of "sring s"] Cons.prems by (simp add: sched_inv_def ring_inv_def)
  obtain g rq s1 where w: "wake c (s\<lparr>sring := ?r\<rparr>) = Done s1" "requests s ?q = Some rq" "r_fiber rq = g" "?q \<in> set ps"
    "sched_inv V A F {} (rs @ [g]) (remove1 ?q ps) s1" "sring s1 = ?r" "cq_pending ?r = cs"
    "requests s1 = (requests s)(?q \<mapsto> rq\<lparr>r_result := scast (cq_res c)\<rparr>)" "activations s1 = activations s"
    "world s1 = world s"
    using wake_inv [OF Cons.prems refl] by metis
  have new: "?q \<notin> cq_user_data ` set cs"
  proof -
    have "distinct ps" using Cons.prems by (simp add: sched_inv_def ring_inv_def)
    moreover have "mset (remove1 ?q ps) = mset (map sq_user_data (sq_batch (sring s1))) + v_inflight V (kern s1) +
        mset (map cq_user_data cs)"
      using w(5,6,7) by (simp add: sched_inv_def ring_inv_def)
    from arg_cong [OF this, of set_mset] have "cq_user_data ` set cs \<subseteq> set (remove1 ?q ps)"
      by (simp only: set_mset_mset set_mset_union set_map) blast
    ultimately show ?thesis by auto
  qed
  have loop: "reap_loop s = reap_loop s1" by (subst reap_loop.simps) (simp add: reap w(1))
  from Cons.IH [OF w(5)] w(6,7) obtain s' where s': "reap_loop s1 = ret s'"
    "sched_inv V A F {} ((rs @ [g]) @ map (\<lambda>c. r_fiber (the (requests s1 (cq_user_data c)))) cs)
      (fold (\<lambda>c. remove1 (cq_user_data c)) cs (remove1 ?q ps)) s'" "cq_pending (sring s') = []"
    "\<forall>x. x \<notin> cq_user_data ` set cs \<longrightarrow> requests s' x = requests s1 x"
    "\<forall>c \<in> set cs. requests s' (cq_user_data c) = map_option (\<lambda>rq. rq\<lparr>r_result := scast (cq_res c)\<rparr>) (requests s1 (cq_user_data c))"
    "activations s' = activations s1" "world s' = world s1"
    by auto
  have same: "c' \<in> set cs \<Longrightarrow> requests s1 (cq_user_data c') = requests s (cq_user_data c')" for c'
    using new by (metis fun_upd_other imageI w(8))
  then have "map (\<lambda>c. r_fiber (the (requests s1 (cq_user_data c)))) cs = map (\<lambda>c. r_fiber (the (requests s (cq_user_data c)))) cs"
    by simp
  with s'(2) w(2,3) have "sched_inv V A F {} (rs @ map (\<lambda>c. r_fiber (the (requests s (cq_user_data c)))) (c # cs))
      (fold (\<lambda>c. remove1 (cq_user_data c)) (c # cs) ps) s'"
    by (simp del: map_map)
  moreover have "requests s' x = requests s x" if "x \<notin> cq_user_data ` set (c # cs)" for x
    using s'(4) that by (simp add: w(8))
  moreover have "requests s' (cq_user_data d) = map_option (\<lambda>rq. rq\<lparr>r_result := scast (cq_res d)\<rparr>) (requests s (cq_user_data d))"
    if "d \<in> set (c # cs)" for d
    using s'(4,5) that same [of d] new by (cases "d \<in> set cs") (auto simp: w(2,8))
  ultimately show ?case using s'(1,3,6,7) w(9,10) loop by auto
qed

lemma submit_and_wait_inv:
  assumes K: "kernel_ok V K" and inv: "sched_inv V A F {} rs ps s"
  shows "submit_and_wait K s = Some Trap \<or>
    (\<exists>s'. submit_and_wait K s = ret s' \<and> sched_inv V A F {} rs ps s' \<and> sq_batch (sring s') = [] \<and>
      (\<exists>r k. s' = s\<lparr>sring := r, kern := k\<rparr>) \<and> ring_step V [] (sring s) (kern s) (sring s') (kern s'))"
proof -
  have q: "ready_queue s rs" and i: "fiber_inv V A F {} s" "ring_inv V ps s" "wait_inv F {} rs ps s"
    using inv by (simp_all add: sched_inv_def)
  have V: "single_shot V" using K by (simp add: kernel_ok_def)
  have "enter_ok V K" "ring_wf (sring s)" using K i(2) by (auto simp: kernel_ok_def ring_inv_def)
  from ring_submit_returns [OF this] obtain res r k where
    sub: "libuc_ring_submit K (if ready_count s = 0 then 1 else 0) (sring s) (kern s) = ret (res, r, k)"
      "ring_step V [] (sring s) (kern s) r k" "libuc_syscall_failed res \<or> batch_count r = 0" by blast
  show ?thesis
  proof (cases "libuc_syscall_failed res")
    case True
    then show ?thesis using sub(1) by (simp add: submit_and_wait_def)
  next
    case False
    let ?s = "s\<lparr>sring := r, kern := k\<rparr>"
    have vm: "v_mapped V k = v_mapped V (kern s)" using sub(2) by (simp add: ring_step_def)
    have "ring_inv V ps ?s"
      using i(2) sub(2) by (intro ring_inv_step [OF V i(2), where new = "[]"]) (auto simp: ring_inv_def)
    moreover have "wait_inv F {} rs ps ?s"
      using i(3) by (simp add: wait_inv_def waits_def alive_def joiner_of_def life_of_def waiting_def joined_def)
    ultimately have "sched_inv V A F {} rs ps ?s"
      using ring_part(1) [OF vm, where r = r and n = "parked_count s" and A = A]
        ring_part(2) [OF vm, where r = r and n = "parked_count s"] q i(1)
      by (simp add: sched_inv_def)
    moreover have "sq_batch r = []" using sub(3) False by (simp add: sq_batch_def)
    ultimately show ?thesis using sub(1,2) False by (auto simp: submit_and_wait_def)
  qed
qed

end
