(* ===== verification/Uc_Reactor.thy ===== *)
theory Uc_Reactor
  imports Uc_Scheduler_Steps
begin

text \<open>
  Turns and runs of the reactor: what one turn does for each call a fiber can make, that no turn of
  a well-behaved program touches memory that is not there or loses a fiber, and what the turns of a
  generation do.
\<close>

section \<open>One turn\<close>

definition next_call :: "('k, 'c, 'r, 'w) prog \<Rightarrow> ('k, 'c, 'w) system \<Rightarrow> call" where
  "next_call U s = m_call (next_move U (ready_head s) (the (fibers s (ready_head s))) s)"

definition next_frame :: "('k, 'c, 'r, 'w) prog \<Rightarrow> ('k, 'c, 'w) system \<Rightarrow> u64" where
  "next_frame U s = m_frame (next_move U (ready_head s) (the (fibers s (ready_head s))) s)"

text \<open>Memory as the code of the front fiber leaves it when it makes its next call.\<close>

definition next_mem :: "('k, 'c, 'r, 'w) prog \<Rightarrow> ('k, 'c, 'w) system \<Rightarrow> mem" where
  "next_mem U s = m_mem (next_move U (ready_head s) (the (fibers s (ready_head s))) s)"

definition status_of :: "('k, 'c, 'w) system \<Rightarrow> u64 \<Rightarrow> i32" where
  "status_of s t = (case fibers s t of None \<Rightarrow> 0 | Some tb \<Rightarrow> f_status tb)"

text \<open>
  The situation at the start of a turn: the kernel keeps its contracts, the invariant holds with
  \<open>f\<close> at the front of the queue, and the next call of the program is one it may make.
\<close>

definition turn_ready ::
    "'k kernel_view \<Rightarrow> ('k, 'y) ring_kernel_scheme \<Rightarrow> ('c, 'r) arch \<Rightarrow> ('k, 'c, 'r, 'w) prog \<Rightarrow> u64 \<Rightarrow> u64 set \<Rightarrow>
     u64 \<Rightarrow> u64 list \<Rightarrow> u64 list \<Rightarrow> ('k, 'c, 'w) system \<Rightarrow> bool" where
  "turn_ready V K A U here F f rs ps s \<longleftrightarrow> kernel_ok V K \<and> fiber_arch A \<and> here \<noteq> 0 \<and>
     sched_inv V A F {} (f # rs) ps s \<and> well_behaved A U s"

lemma relinked_parts:
  assumes r: "relinked s s'"
  shows "map_option f_context (fibers s' t) = map_option f_context (fibers s t)"
    "map_option f_entry (fibers s' t) = map_option f_entry (fibers s t)"
    "map_option f_argument (fibers s' t) = map_option f_argument (fibers s t)"
    "status_of s' t = status_of s t" "resumes_as t s' = resumes_as t s"
proof -
  obtain n where n: "fibers s' = (\<lambda>p. map_option (\<lambda>fb. fb\<lparr>f_ready_next := n p\<rparr>) (fibers s p))"
    using relinked_fibers [OF r] .
  show "map_option f_context (fibers s' t) = map_option f_context (fibers s t)"
    "map_option f_entry (fibers s' t) = map_option f_entry (fibers s t)"
    "map_option f_argument (fibers s' t) = map_option f_argument (fibers s t)" "status_of s' t = status_of s t"
    by (cases "fibers s t"; simp add: n status_of_def)+
  show "resumes_as t s' = resumes_as t s"
    by (cases "fibers s t") (simp_all add: resumes_as_def n relinked_same [OF r] cong: activation.case_cong)
qed

lemma queue_head: "sched_inv V A F R (f # rs) ps s \<Longrightarrow> ready_head s = f"
  by (simp add: sched_inv_def ready_queue_def)

text \<open>The memory a fiber holds.\<close>

definition holdings :: "'c fiber \<Rightarrow> tl_block \<times> u64 \<times> u64" where
  "holdings fb = (f_block fb, f_stack fb, f_stack_length fb)"

lemma holdings_upd [simp]:
  "holdings (fb\<lparr>f_ready_next := n\<rparr>) = holdings fb" "holdings (resumed_fiber A mv fb) = holdings fb"
  by (simp_all add: holdings_def resumed_fiber_def poison_def split: option.splits)

text \<open>A turn takes the front fiber off the queue, resumes it, and has its request in hand.\<close>

lemma turn_asks:
  assumes ready: "turn_ready V K A U here F f rs ps s"
  obtains gb s2 where "turn K A U here s = handle K A f (next_frame U s) s2"
    "asking V A F rs ps s2 f gb (next_frame U s)
       \<lparr>r_kind = call_kind (next_call U s), r_ask = call_ask (next_call U s), r_result = 0, r_fiber = f\<rparr>"
    "f_life gb = (if exit_status (next_call U s) \<noteq> None \<and> life_of s f = FIBER_LIVE then FIBER_EXITED else life_of s f)"
    "exit_status (next_call U s) = Some st \<Longrightarrow> f_status gb = st" "f_joiner gb = joiner_of s f"
    "\<And>t. t \<noteq> f \<Longrightarrow> life_of s2 t = life_of s t" "\<And>t. joiner_of s2 t = joiner_of s t"
    "\<And>t. t \<noteq> f \<Longrightarrow> status_of s2 t = status_of s t" "sring s2 = sring s" "kern s2 = kern s"
    "\<And>x. x \<noteq> next_frame U s \<Longrightarrow> requests s2 x = requests s x" "\<And>t. t \<noteq> f \<Longrightarrow> activations s2 t = activations s t"
    "\<And>t. t \<noteq> f \<Longrightarrow> activations s t = Some At_entry \<Longrightarrow> resumes_as t s2 = resumes_as t s"
    "mem s2 = next_mem U s" "\<And>t. map_option holdings (fibers s2 t) = map_option holdings (fibers s t)"
    "process_layout s2 = process_layout s"
proof -
  have inv: "sched_inv V A F {} (f # rs) ps s" and here: "here \<noteq> 0" and wb: "well_behaved A U s"
    using ready by (simp_all add: turn_ready_def)
  note hd = queue_head [OF inv]
  obtain s1 where d: "dequeue s = Done (f, s1)" "relinked s s1" "sched_inv V A F {f} rs ps s1" "f \<in> F" "alive s1 f"
    and live1: "\<forall>fb. fibers s1 f = Some fb \<longrightarrow> resumable A s1 f fb" and d7: "joiner_of s1 f = 0 \<or> life_of s1 f = FIBER_LIVE"
    using dequeue_inv [OF inv] by metis
  obtain fb where fb: "fibers s f = Some fb" using d(5) relinked_same(13) [OF d(2)] by (auto simp: alive_def)
  obtain n where n: "fibers s1 = (\<lambda>p. map_option (\<lambda>fb. fb\<lparr>f_ready_next := n p\<rparr>) (fibers s p))"
    using relinked_fibers [OF d(2)] .
  let ?fb = "fb\<lparr>f_ready_next := n f\<rparr>"
  have fb1: "fibers s1 f = Some ?fb" using fb by (simp add: n)
  have i1: "fiber_inv V A F {f} s1" using d(3) by (simp add: sched_inv_def)
  obtain res where res: "resumes_as f s1 = Done res" using resumes_as_resumable [OF fb1 live1 [rule_format, OF fb1]] .
  let ?mv = "next_move U f fb s"
  have mv: "?mv = U f (f_entry ?fb, f_argument ?fb) (f_context ?fb) res (world s1) (mem s1) (kern s1)"
    using relinked_parts(5) [OF d(2)] res by (simp add: next_move_def relinked_same [OF d(2)])
  have ok: "move_ok A f ?fb ?mv" using wb fb hd by (simp add: well_behaved_def Let_def move_ok_def stack_range_def)
  have wf1: "fiber_wf s1 f ?fb" using fibers_wfD [OF fiber_invD(3) [OF i1] d(4)] fb1 by auto
  have r: "libuc_fiber_resume A U here f s1 = Done (m_frame ?mv, resumed A f ?fb ?mv s1)"
    by (rule resume_eq [where U = U, OF fb1 wf1 live1 [rule_format, OF fb1] here res mv ok])
  have nf: "next_frame U s = m_frame ?mv" "next_call U s = m_call ?mv" by (simp_all add: next_frame_def next_call_def hd fb)
  let ?s2 = "resumed A f ?fb ?mv s1"
  let ?gb = "resumed_fiber A ?mv ?fb"
  have lf: "life_of s f = f_life fb" "joiner_of s f = f_joiner fb" using fb by (simp_all add: life_of_def joiner_of_def)
  have life: "f_life ?gb = (if exit_status (next_call U s) \<noteq> None \<and> life_of s f = FIBER_LIVE then FIBER_EXITED else life_of s f)"
    by (auto simp: resumed_fiber_def poison_def nf lf split: option.splits)
  have lj: "f_joiner fb = 0 \<or> f_life fb = FIBER_LIVE" using d7 by (simp add: relinked_same [OF d(2)] lf)
  have live: "f_life fb \<noteq> FIBER_EXITED" using live1 [rule_format, OF fb1] by (simp add: resumable_def)
  have "turn K A U here s = handle K A f (next_frame U s) ?s2" by (simp add: turn_def d(1) r nf)
  moreover have "asking V A F rs ps ?s2 f ?gb (next_frame U s)
       \<lparr>r_kind = call_kind (next_call U s), r_ask = call_ask (next_call U s), r_result = 0, r_fiber = f\<rparr>"
    unfolding asking_def
  proof (intro conjI)
    show "sched_inv V A F {f} rs ps ?s2" by (rule resumed_inv [OF d(3,4) _ fb1 ok]) simp
  qed (use d(4) ok lj live in \<open>auto simp: resumed_def nf carried_request_def move_ok_def exit_status_kind [symmetric]
      resumed_fiber_def poison_def stack_range_def split: option.splits\<close>)
  moreover have "f_status ?gb = st" if "exit_status (next_call U s) = Some st"
    using that by (simp add: resumed_fiber_def nf)
  moreover have "joiner_of ?s2 t = joiner_of s t" for t
    using relinked_same(11) [OF d(2)] fb by (auto simp: joiner_of_def resumed_def fun_eq_iff n split: option.splits)
  moreover have "life_of ?s2 t = life_of s t" "status_of ?s2 t = status_of s t" if "t \<noteq> f" for t
    using that by (simp_all add: life_of_def status_of_def resumed_def n split: option.splits)
  moreover have "resumes_as t ?s2 = resumes_as t s" if "t \<noteq> f" "activations s t = Some At_entry" for t
    using that by (cases "fibers s t") (simp_all add: resumes_as_def resumed_def n relinked_same [OF d(2)])
  moreover have "mem ?s2 = next_mem U s" by (simp add: resumed_def next_mem_def hd fb)
  moreover have "map_option holdings (fibers ?s2 t) = map_option holdings (fibers s t)" for t
    using fb by (cases "t = f") (simp_all add: resumed_def n option.map_comp comp_def)
  ultimately show ?thesis
    using that [of ?s2 ?gb] life by (simp add: resumed_def relinked_same [OF d(2)] lf nf)
qed

text \<open>The fiber a well-behaved program names has a handle.\<close>

lemma named_in:
  assumes inv: "sched_inv V A F {} (f # rs) ps s" and wb: "well_behaved A U s" and t: "target_of (next_call U s) = Some t"
  shows "t \<in> F"
proof -
  have i: "fiber_inv V A F {} s" "wait_inv F {} (f # rs) ps s" using inv by (simp_all add: sched_inv_def)
  then obtain fb where "fibers s f = Some fb" using wait_invD(2) [OF i(2), of f] by (auto simp: alive_def)
  then have "activations s t \<noteq> None"
    using wb t queue_head [OF inv] by (simp add: well_behaved_def next_call_def Let_def)
  then show ?thesis using fiber_invD(2) [OF i(1)] by (auto simp: dom_def)
qed

lemma ucast_scast_i32: "(ucast (scast (x :: i32) :: i64) :: i32) = x"
  by (simp add: bit_eq_iff bit_ucast_iff bit_signed_iff)

text \<open>A turn that stops the reactor takes a process exit of the front fiber, with the status it asks for.\<close>

lemma stopping_turn:
  assumes ready: "turn_ready V K A U here F f rs ps s" and t: "turn K A U here s = ret (Some st, s')"
  shows "next_call U s = Call_process_exit f st"
proof -
  obtain gb s2 where h: "turn K A U here s = handle K A f (next_frame U s) s2"
    "asking V A F rs ps s2 f gb (next_frame U s)
       \<lparr>r_kind = call_kind (next_call U s), r_ask = call_ask (next_call U s), r_result = 0, r_fiber = f\<rparr>"
    using turn_asks [OF ready] by metis
  have k: "handle K A f (next_frame U s) s2 = ret (Some st, s')" using t h(1) by simp
  note rq = askingD(5) [OF h(2)]
  obtain g where g: "next_call U s = Call_process_exit g st"
    using k rq by (cases "next_call U s") (auto simp: handle_def outcome_simps ucast_scast_i32)
  have "well_behaved A U s" "ready_head s = f" using ready queue_head by (auto simp: turn_ready_def)
  moreover obtain b where "fibers s f = Some b"
    using ready wait_invD(2) [of F "{}" "f # rs" ps s f] by (auto simp: turn_ready_def sched_inv_def alive_def)
  ultimately have "g = f" using g by (auto simp: well_behaved_def next_call_def Let_def move_ok_def)
  then show ?thesis using g by simp
qed

section \<open>An exit with a joiner\<close>

text \<open>What an exiting fiber's turn has in hand.\<close>

lemma exit_asks:
  assumes ready: "turn_ready V K A U here F f rs ps s" and st: "exit_status (next_call U s) = Some st"
  obtains gb s2 q u where "turn K A U here s = rbind (Some (handle_exit K f s2)) (\<lambda>s'. ret (None, s'))"
    "asking V A F rs ps s2 f gb q \<lparr>r_kind = REQUEST_EXIT, r_ask = u, r_result = 0, r_fiber = f\<rparr>"
    "f_life gb = (if life_of s f = FIBER_LIVE then FIBER_EXITED else life_of s f)" "f_status gb = st" "f_joiner gb = joiner_of s f"
    "\<And>g x P. g \<in> F - {f} \<Longrightarrow> waits s2 g x P \<Longrightarrow> waits s g x P"
proof -
  have k: "call_kind (next_call U s) = REQUEST_EXIT" using st by (metis exit_status_kind option.distinct(1))
  obtain gb s2 q u where tk: "turn K A U here s = handle K A f q s2"
      "asking V A F rs ps s2 f gb q \<lparr>r_kind = REQUEST_EXIT, r_ask = u, r_result = 0, r_fiber = f\<rparr>"
    and life: "f_life gb = (if life_of s f = FIBER_LIVE then FIBER_EXITED else life_of s f)"
      "f_status gb = st" "f_joiner gb = joiner_of s f"
    and same: "\<And>t. t \<noteq> f \<Longrightarrow> life_of s2 t = life_of s t" "\<And>x. x \<noteq> q \<Longrightarrow> requests s2 x = requests s x"
      "\<And>t. t \<noteq> f \<Longrightarrow> activations s2 t = activations s t"
    using turn_asks [OF ready, of st] k st by (metis option.distinct(1))
  have "turn K A U here s = rbind (Some (handle_exit K f s2)) (\<lambda>s'. ret (None, s'))"
    using askingD(5) [OF tk(2)] by (simp add: tk(1) handle_def)
  moreover have "waits s g x P" if "g \<in> F - {f}" "waits s2 g x P" for g x P
  proof -
    have "x \<noteq> q" using asking_not_waiting(2) [OF tk(2) that(1)] that(2) by (auto simp: waits_def)
    then show ?thesis using that same by (auto simp: waits_def alive_life)
  qed
  ultimately show ?thesis using that [OF _ tk(2) life] by blast
qed

text \<open>The fiber that waits for an exiting one gets its status when it next runs.\<close>

lemma exit_turn_joined:
  assumes ready: "turn_ready V K A U here F f rs ps s" and st: "exit_status (next_call U s) = Some st"
    and j: "life_of s f \<noteq> FIBER_DETACHED" "joiner_of s f = j" "j \<noteq> 0"
  obtains g where "g \<in> F - {f}" "waits s g j (is_join f)"
    "turn K A U here s = Some Trap \<or> (\<exists>s'. turn K A U here s = ret (None, s') \<and> sched_inv V A (F - {f}) {} (rs @ [g]) ps s' \<and>
      fibers s' f = None \<and> map_option r_result (requests s' j) = Some (scast st) \<and> resumes_as g s' = Done (Answer (scast st)))"
proof -
  have K: "kernel_ok V K" using ready by (simp add: turn_ready_def)
  obtain gb s2 q u where tk: "turn K A U here s = rbind (Some (handle_exit K f s2)) (\<lambda>s'. ret (None, s'))"
    "asking V A F rs ps s2 f gb q \<lparr>r_kind = REQUEST_EXIT, r_ask = u, r_result = 0, r_fiber = f\<rparr>"
    "f_status gb = st" "f_joiner gb = joiner_of s f" "\<And>g x P. g \<in> F - {f} \<Longrightarrow> waits s2 g x P \<Longrightarrow> waits s g x P"
    using exit_asks [OF ready st] by metis
  have "r_kind \<lparr>r_kind = REQUEST_EXIT, r_ask = u, r_result = 0, r_fiber = f\<rparr> = REQUEST_EXIT" by simp
  from exit_joined [OF K tk(2) this refl, unfolded tk(3,4) j(2), OF j(3)]
  obtain g jrq where g: "g \<in> F - {f}" "waits s2 g j (is_join f)" "requests s2 j = Some jrq"
    and h: "handle_exit K f s2 = Trap \<or> (\<exists>s'. handle_exit K f s2 = Done s' \<and> sched_inv V A (F - {f}) {} (rs @ [g]) ps s' \<and>
      fibers s' f = None \<and> requests s' j = Some (jrq\<lparr>r_result := scast st\<rparr>) \<and> activations s' g = Some (In_call j))" .
  have "r_kind jrq = REQUEST_JOIN" using g(2,3) by (auto simp: waits_def is_join_def)
  with h show ?thesis using that [OF g(1) tk(5) [OF g(1,2)]] by (auto simp: tk(1) resumes_as_def)
qed

section \<open>Completions\<close>

text \<open>A completion that is posted is awaited, and the fiber that awaits it gets its result when it next runs.\<close>

lemma posted_parked:
  assumes "sched_inv V A F {} rs ps s" "c \<in> set (cq_pending (sring s))"
  shows "cq_user_data c \<in> set ps"
proof -
  have "mset ps = mset (map sq_user_data (sq_batch (sring s))) + v_inflight V (kern s) + mset (map cq_user_data (cq_pending (sring s)))"
    using assms(1) by (simp add: sched_inv_def ring_inv_def)
  from arg_cong [OF this, of set_mset] assms(2) show ?thesis by auto
qed

lemma posted_awaited:
  assumes "sched_inv V A F {} rs ps s" "c \<in> set (cq_pending (sring s))"
  obtains g where "g \<in> F" "waits s g (cq_user_data c) is_await"
  using wait_invD(3) posted_parked [OF assms] assms(1) that unfolding sched_inv_def by blast

lemma reaped_resumes:
  assumes inv: "sched_inv V A F {} rs ps s" and c: "c \<in> set (cq_pending (sring s))" and rq: "requests s (cq_user_data c) = Some rq"
  obtains s' where "reap_loop s = ret s'" "resumes_as (r_fiber rq) s' = Done (Answer (scast (cq_res c)))"
proof -
  obtain g where "waits s g (cq_user_data c) is_await" using posted_awaited [OF inv c] .
  then have g: "r_fiber rq = g" "r_kind rq = REQUEST_AWAIT" "activations s g = Some (In_call (cq_user_data c))"
    using rq by (auto simp: waits_def is_await_def)
  obtain s' where "reap_loop s = ret s'" "activations s' = activations s"
    "requests s' (cq_user_data c) = Some (rq\<lparr>r_result := scast (cq_res c)\<rparr>)"
    using reap_loop_inv [OF inv refl] c rq by auto
  then show ?thesis using that g by (simp add: resumes_as_def)
qed

section \<open>Every turn\<close>

text \<open>A run's outcome is a stop, or a state where the invariant holds with \<open>rs\<close> at the front of the queue.\<close>

definition carries_on ::
    "'k kernel_view \<Rightarrow> ('c, 'r) arch \<Rightarrow> u64 list \<Rightarrow> (i32 option \<times> ('k, 'c, 'w) system) run \<Rightarrow> bool" where
  "carries_on V A rs m \<longleftrightarrow> m = Some Trap \<or> (\<exists>st s'. m = ret (Some st, s')) \<or>
     (\<exists>F new ps s'. m = ret (None, s') \<and> sched_inv V A F {} (rs @ new) ps s')"

lemma carries_onI:
  "sched_inv V A F {} (rs @ new) ps s' \<Longrightarrow> carries_on V A rs (ret (None, s'))"
  "sched_inv V A F {} rs ps s' \<Longrightarrow> carries_on V A rs (ret (None, s'))"
  "carries_on V A rs (Some Trap)"
proof -
  show one: "sched_inv V A F {} (rs @ new) ps s' \<Longrightarrow> carries_on V A rs (ret (None, s'))" for new
    by (auto simp: carries_on_def)
  show "sched_inv V A F {} rs ps s' \<Longrightarrow> carries_on V A rs (ret (None, s'))" using one [of "[]"] by simp
qed (simp add: carries_on_def)

lemma exit_carries_on:
  assumes K: "kernel_ok V K" and ask: "asking V A F rs ps s f fb q rq" and k: "r_kind rq = REQUEST_EXIT"
  shows "carries_on V A rs (handle K A f q s)"
proof -
  have h: "handle K A f q s = rbind (Some (handle_exit K f s)) (\<lambda>s'. ret (None, s'))"
    using askingD(5) [OF ask] k by (simp add: handle_def)
  consider "f_life fb = FIBER_DETACHED" | "f_life fb \<noteq> FIBER_DETACHED" "f_joiner fb = 0" | "f_joiner fb \<noteq> 0" by blast
  then show ?thesis
  proof cases
    case 1
    then show ?thesis using exit_detached [OF K ask 1 k] by (auto simp: h intro: carries_onI)
  next
    case 2
    then show ?thesis
      using exit_kept(1) [OF ask 2(1) k 2(2), where K = K] exit_kept(2) [OF ask 2(1) k 2(2)]
      by (auto simp: h intro: carries_onI(2))
  next
    case 3
    obtain g where "handle_exit K f s = Trap \<or> (\<exists>s'. handle_exit K f s = Done s' \<and> sched_inv V A (F - {f}) {} (rs @ [g]) ps s')"
      using exit_joined [OF K ask k refl 3] by metis
    then show ?thesis by (auto simp: h intro: carries_onI)
  qed
qed

lemma join_carries_on:
  assumes K: "kernel_ok V K" and ask: "asking V A F rs ps s f fb q rq"
    and k: "r_kind rq = REQUEST_JOIN" "r_ask rq = Target t" and t: "t \<in> F"
  shows "carries_on V A rs (handle K A f q s)"
proof -
  note D = askingD [OF ask]
  have h: "handle K A f q s = rbind (Some (handle_join K f q s)) (\<lambda>s'. ret (None, s'))"
    using D(5) k by (simp add: handle_def)
  obtain tb where tb: "fibers s t = Some tb" using fibers_wfD [OF fiber_invD(3) [OF D(11)] t] by metis
  consider "t = f \<or> f_joiner tb \<noteq> 0 \<or> f_life tb = FIBER_DETACHED" | "t \<noteq> f" "f_joiner tb = 0" "f_life tb = FIBER_EXITED"
    | "t \<noteq> f" "f_joiner tb = 0" "f_life tb = FIBER_LIVE" by (cases "f_life tb") auto
  then show ?thesis
  proof cases
    case 1
    then show ?thesis using D(5) tb k by (auto simp: h handle_join_def intro: carries_onI)
  next
    case 2
    then show ?thesis using join_exited [OF K ask k t 2(1) tb 2(2,3)] by (auto simp: h intro: carries_onI)
  next
    case 3
    obtain s' where "handle_join K f q s = Done s'" "sched_inv V A F {} rs ps s'"
      using join_live [OF ask k t 3(1) tb 3(2,3)] .
    then show ?thesis by (auto simp: h intro: carries_onI(2))
  qed
qed

lemma detach_carries_on:
  assumes K: "kernel_ok V K" and ask: "asking V A F rs ps s f fb q rq"
    and k: "r_kind rq = REQUEST_DETACH" "r_ask rq = Target t" and t: "t \<in> F"
  shows "carries_on V A rs (handle K A f q s)"
proof -
  note D = askingD [OF ask]
  have h: "handle K A f q s = rbind (Some (handle_detach K f q s)) (\<lambda>s'. ret (None, s'))"
    using D(5) k by (simp add: handle_def)
  obtain tb where tb: "fibers s t = Some tb" using fibers_wfD [OF fiber_invD(3) [OF D(11)] t] by metis
  consider "f_joiner tb \<noteq> 0 \<or> f_life tb = FIBER_DETACHED" | "f_joiner tb = 0" "f_life tb = FIBER_EXITED"
    | "f_joiner tb = 0" "f_life tb = FIBER_LIVE" by (cases "f_life tb") auto
  then show ?thesis
  proof cases
    case 1
    then show ?thesis using D(5) tb k by (auto simp: h handle_detach_def intro: carries_onI)
  next
    case 2
    then show ?thesis using detach_exited [OF K ask k t tb 2] by (auto simp: h intro: carries_onI)
  next
    case 3
    obtain s' where "handle_detach K f q s = Done s'" "sched_inv V A F {} (rs @ [f]) ps s'"
      using detach_live [OF ask k t tb 3] .
    then show ?thesis by (auto simp: h intro: carries_onI)
  qed
qed

lemma handle_carries_on:
  assumes K: "kernel_ok V K" "fiber_arch A" and ask: "asking V A F rs ps s f fb q rq"
    and c: "r_kind rq = call_kind c" "r_ask rq = call_ask c" "\<And>t. target_of c = Some t \<Longrightarrow> t \<in> F"
  shows "carries_on V A rs (handle K A f q s)"
proof -
  note defs = handle_def askingD(5) [OF ask] c
  show ?thesis
  proof (cases c)
    case Call_yield
    then obtain s' where "libuc_scheduler_enqueue f s = Done s'" "sched_inv V A F {} (rs @ [f]) ps s'"
      using requeue_inv [OF ask] c(1) by (metis call_kind.simps(1) fiber_request_kind.distinct(1,11))
    then show ?thesis using Call_yield by (auto simp: defs intro: carries_onI)
  next
    case (Call_await e)
    then show ?thesis using park_inv [OF K(1) ask] c by (auto simp: defs intro: carries_onI)
  next
    case (Call_start n e a)
    then show ?thesis using spawn_inv [OF K ask] c by (auto simp: defs intro: carries_onI)
  next
    case (Call_join t)
    then show ?thesis using join_carries_on [OF K(1) ask] c by (simp add: target_of_def)
  next
    case (Call_detach t)
    then show ?thesis using detach_carries_on [OF K(1) ask] c by (simp add: target_of_def)
  next
    case (Call_process_exit g st)
    then show ?thesis by (simp add: defs carries_on_def)
  qed (use exit_carries_on [OF K(1) ask] c(1) in simp_all)
qed

lemma turn_carries_on:
  assumes ready: "turn_ready V K A U here F f rs ps s"
  shows "carries_on V A rs (turn K A U here s)"
proof -
  have K: "kernel_ok V K" "fiber_arch A" and inv: "sched_inv V A F {} (f # rs) ps s" "well_behaved A U s"
    using ready by (simp_all add: turn_ready_def)
  obtain gb s2 where t: "turn K A U here s = handle K A f (next_frame U s) s2"
    "asking V A F rs ps s2 f gb (next_frame U s)
       \<lparr>r_kind = call_kind (next_call U s), r_ask = call_ask (next_call U s), r_result = 0, r_fiber = f\<rparr>"
    using turn_asks [OF ready] by metis
  show ?thesis
    unfolding t(1) using named_in [OF inv] by (intro handle_carries_on [OF K t(2), of "next_call U s"]) simp_all
qed

section \<open>A generation of turns\<close>

text \<open>The program behaves at every state the reactor can come to from \<open>s\<close>.\<close>

inductive reaches ::
    "('k, 'y) ring_kernel_scheme \<Rightarrow> ('c, 'r) arch \<Rightarrow> ('k, 'c, 'r, 'w) prog \<Rightarrow> u64 \<Rightarrow> ('k, 'c, 'w) system \<Rightarrow> ('k, 'c, 'w) system \<Rightarrow> bool"
  for K A U here where
  here: "reaches K A U here s s"
| turned: "reaches K A U here s s' \<Longrightarrow> ready_head s' \<noteq> 0 \<Longrightarrow> turn K A U here s' = ret (None, s'') \<Longrightarrow> reaches K A U here s s''"
| waited: "reaches K A U here s s' \<Longrightarrow> parked_count s' \<noteq> 0 \<Longrightarrow> submit_and_wait K s' = ret s1 \<Longrightarrow> reap_loop s1 = ret s'' \<Longrightarrow> reaches K A U here s s''"

definition behaves ::
    "('k, 'y) ring_kernel_scheme \<Rightarrow> ('c, 'r) arch \<Rightarrow> ('k, 'c, 'r, 'w) prog \<Rightarrow> u64 \<Rightarrow> ('k, 'c, 'w) system \<Rightarrow> bool" where
  "behaves K A U here s \<longleftrightarrow> (\<forall>s'. reaches K A U here s s' \<longrightarrow>
     card (dom (activations s')) < 2 ^ 32 \<and> (ready_head s' \<noteq> 0 \<longrightarrow> well_behaved A U s'))"

lemma reaches_trans: "reaches K A U here s1 s2 \<Longrightarrow> reaches K A U here s s1 \<Longrightarrow> reaches K A U here s s2"
  by (induction rule: reaches.induct) (auto intro: reaches.intros)

lemma behaves_reaches: "behaves K A U here s \<Longrightarrow> reaches K A U here s s' \<Longrightarrow> behaves K A U here s'"
  using reaches_trans by (fastforce simp: behaves_def)

text \<open>
  The reactor is stopped with a status: at some state it comes to, the front fiber's next call is to
  exit the process with that status, and its turn stops the run.
\<close>

definition stops_at ::
    "('k, 'y) ring_kernel_scheme \<Rightarrow> ('c, 'r) arch \<Rightarrow> ('k, 'c, 'r, 'w) prog \<Rightarrow> u64 \<Rightarrow> ('k, 'c, 'w) system \<Rightarrow> i32 \<Rightarrow> ('k, 'c, 'w) system \<Rightarrow> bool" where
  "stops_at K A U here s st s' \<longleftrightarrow>
     (\<exists>s1. reaches K A U here s s1 \<and> ready_head s1 \<noteq> 0 \<and> next_call U s1 = Call_process_exit (ready_head s1) st \<and>
        turn K A U here s1 = ret (Some st, s'))"

lemma next_turn_ready:
  assumes "kernel_ok V K" "fiber_arch A" "here \<noteq> 0" "behaves K A U here s" "sched_inv V A F {} (f # rs) ps s"
  shows "ready_head s = f" "ready_head s \<noteq> 0" "turn_ready V K A U here F f rs ps s"
proof -
  show hd: "ready_head s = f" by (rule queue_head [OF assms(5)])
  show nz: "ready_head s \<noteq> 0"
    using assms(5) chain_non_null [of "next_map s"] by (auto simp: hd sched_inv_def ready_queue_def)
  have "well_behaved A U s" using assms(4) nz reaches.here unfolding behaves_def by blast
  then show "turn_ready V K A U here F f rs ps s" using assms by (simp add: turn_ready_def)
qed

text \<open>
  Running as many turns as there were ready fibers runs each of them: what is left at the front of
  the queue is what became ready meanwhile.
\<close>

lemma run_turns_generation:
  assumes "kernel_ok V K" "fiber_arch A" "here \<noteq> 0" "behaves K A U here s"
    and "sched_inv V A F {} (xs @ ys) ps s" "unat n = length xs"
  shows "carries_on V A ys (run_turns K A U here n s) \<and>
    (\<forall>s'. run_turns K A U here n s = ret (None, s') \<longrightarrow> reaches K A U here s s') \<and>
    (\<forall>st s'. run_turns K A U here n s = ret (Some st, s') \<longrightarrow> stops_at K A U here s st s')"
  using assms(4-)
proof (induction xs arbitrary: n s F ys ps)
  case Nil
  then have "run_turns K A U here n s = ret (None, s)" by (subst run_turns.simps) (simp add: unat_eq_0)
  then show ?case using Nil by (auto intro: carries_onI(2) reaches.intros)
next
  case (Cons f xs)
  have n: "n \<noteq> 0" "unat (n - 1) = length xs" using Cons.prems(3) by (auto simp: unat_eq_0 [symmetric] unat_pred_pos)
  have q: "sched_inv V A F {} (f # xs @ ys) ps s" using Cons.prems(2) by simp
  note hd = next_turn_ready(1) [OF assms(1-3) Cons.prems(1) q] and nz = next_turn_ready(2) [OF assms(1-3) Cons.prems(1) q]
    and ready = next_turn_ready(3) [OF assms(1-3) Cons.prems(1) q]
  note unf = run_turns.simps [of K A U here n s]
  from turn_carries_on [OF ready] consider "turn K A U here s = Some Trap" | st s' where "turn K A U here s = ret (Some st, s')"
    | F' new ps' s1 where "turn K A U here s = ret (None, s1)" "sched_inv V A F' {} (xs @ ys @ new) ps' s1"
    by (auto simp: carries_on_def)
  then show ?case
  proof cases
    case 1
    then show ?thesis using n by (simp add: unf carries_onI)
  next
    case (2 st s')
    have "stops_at K A U here s st s'"
      unfolding stops_at_def using reaches.here nz stopping_turn [OF ready 2] 2 hd by blast
    then show ?thesis using n 2 by (auto simp: unf carries_on_def)
  next
    case (3 F' new ps' s1)
    have r: "reaches K A U here s s1" using reaches.turned [OF reaches.here nz 3(1)] .
    have run: "run_turns K A U here n s = run_turns K A U here (n - 1) s1" using 3(1) n by (simp add: unf)
    from Cons.IH [OF behaves_reaches [OF Cons.prems(1) r] 3(2) n(2)]
    show ?thesis
      using reaches_trans [OF _ r] by (auto simp: run carries_on_def stops_at_def) (metis append.assoc)
  qed
qed

text \<open>Turns one after the other, each resuming the fiber then at the front of the queue: the fibers resumed, in order.\<close>

inductive turns ::
    "('k, 'y) ring_kernel_scheme \<Rightarrow> ('c, 'r) arch \<Rightarrow> ('k, 'c, 'r, 'w) prog \<Rightarrow> u64 \<Rightarrow> ('k, 'c, 'w) system \<Rightarrow> u64 list \<Rightarrow> ('k, 'c, 'w) system \<Rightarrow> bool"
  for K A U here where
  none: "turns K A U here s [] s"
| more: "ready_head s = f \<Longrightarrow> f \<noteq> 0 \<Longrightarrow> turn K A U here s = ret (None, s1) \<Longrightarrow> turns K A U here s1 fs s' \<Longrightarrow> turns K A U here s (f # fs) s'"

inductive_cases turns_NilE: "turns K A U here s [] s'"
inductive_cases turns_ConsE: "turns K A U here s (f # fs) s'"

text \<open>A generation runs turns for the fibers ready at its start, or for a part of them up to one that stops the process.\<close>

lemma run_turns_turns:
  assumes "kernel_ok V K" "fiber_arch A" "here \<noteq> 0" "behaves K A U here s"
    and "sched_inv V A F {} (xs @ ys) ps s" "unat n = length xs"
  shows "(run_turns K A U here n s = ret (None, s') \<longleftrightarrow> turns K A U here s xs s') \<and>
    (run_turns K A U here n s = ret (Some st, s') \<longleftrightarrow>
      (\<exists>fs f gs s1. xs = fs @ f # gs \<and> turns K A U here s fs s1 \<and> ready_head s1 = f \<and>
         next_call U s1 = Call_process_exit f st \<and> turn K A U here s1 = ret (Some st, s')))"
  using assms(4-)
proof (induction xs arbitrary: n s F ps ys)
  case Nil
  then have "run_turns K A U here n s = ret (None, s)" by (subst run_turns.simps) (simp add: unat_eq_0)
  then show ?case by (auto intro: turns.none elim: turns_NilE)
next
  case (Cons f xs)
  have n: "n \<noteq> 0" "unat (n - 1) = length xs" using Cons.prems(3) by (auto simp: unat_eq_0 [symmetric] unat_pred_pos)
  have q: "sched_inv V A F {} (f # xs @ ys) ps s" using Cons.prems(2) by simp
  note hd = next_turn_ready(1) [OF assms(1-3) Cons.prems(1) q] and nz = next_turn_ready(2) [OF assms(1-3) Cons.prems(1) q]
    and ready = next_turn_ready(3) [OF assms(1-3) Cons.prems(1) q]
  note unf = run_turns.simps [of K A U here n s]
  from turn_carries_on [OF ready] consider "turn K A U here s = Some Trap" | v u where "turn K A U here s = ret (Some v, u)"
    | F' new ps' s1 where "turn K A U here s = ret (None, s1)" "sched_inv V A F' {} (xs @ ys @ new) ps' s1"
    by (auto simp: carries_on_def)
  then show ?case
  proof cases
    case 1
    then show ?thesis using n(1) by (auto simp: unf Cons_eq_append_conv elim!: turns_ConsE turns_NilE)
  next
    case (2 v u)
    then show ?thesis
      using n(1) hd stopping_turn [OF ready 2]
      by (auto simp: unf Cons_eq_append_conv intro: turns.none elim!: turns_ConsE turns_NilE)
  next
    case (3 F' new ps' s1)
    have r: "reaches K A U here s s1" using reaches.turned [OF reaches.here nz 3(1)] .
    have run: "run_turns K A U here n s = run_turns K A U here (n - 1) s1" using 3(1) n(1) by (simp add: unf)
    note IH = Cons.IH [OF behaves_reaches [OF Cons.prems(1) r] 3(2) n(2)]
    have t: "turns K A U here s (f # fs) z \<longleftrightarrow> turns K A U here s1 fs z" for fs z
      using 3(1) hd nz by (auto intro: turns.more elim!: turns_ConsE)
    have "(\<exists>fs g gs z. f # xs = fs @ g # gs \<and> turns K A U here s fs z \<and> ready_head z = g \<and>
         next_call U z = Call_process_exit g st \<and> turn K A U here z = ret (Some st, s')) \<longleftrightarrow>
      (\<exists>fs g gs z. xs = fs @ g # gs \<and> turns K A U here s1 fs z \<and> ready_head z = g \<and>
         next_call U z = Call_process_exit g st \<and> turn K A U here z = ret (Some st, s'))" (is "?l = ?r")
    proof
      assume ?l
      then obtain fs g gs z where l: "f # xs = fs @ g # gs" "turns K A U here s fs z" "ready_head z = g"
        "next_call U z = Call_process_exit g st" "turn K A U here z = ret (Some st, s')" by blast
      then obtain fs' where "fs = f # fs'" using 3(1) by (cases fs) (auto elim: turns_NilE)
      then show ?r using l t by auto
    next
      assume ?r
      then show ?l using t by (metis append_Cons)
    qed
    then show ?thesis unfolding run t using IH by blast
  qed
qed

text \<open>The invariant holds at every state the reactor comes to.\<close>

lemma reaches_inv:
  assumes "reaches K A U here s s'" and K: "kernel_ok V K" "fiber_arch A" "here \<noteq> 0"
    and "sched_inv V A F {} rs ps s" "behaves K A U here s"
  shows "\<exists>F rs ps. sched_inv V A F {} rs ps s'"
  using assms(1,5,6)
proof (induction rule: reaches.induct)
  case (turned s s' s'')
  then obtain F' rs' ps' where IH: "sched_inv V A F' {} rs' ps' s'" by blast
  obtain f xs where rs: "rs' = f # xs"
    using IH turned.hyps(2) by (cases rs') (auto simp: sched_inv_def ready_queue_def)
  have "turn_ready V K A U here F' f xs ps' s'"
    using next_turn_ready(3) [OF K behaves_reaches [OF turned.prems(2) turned.hyps(1)]] IH rs by simp
  then show ?case using turn_carries_on turned.hyps(3) by (fastforce simp: carries_on_def)
next
  case (waited s s' s1 s'')
  then obtain F' rs' ps' where "sched_inv V A F' {} rs' ps' s'" by blast
  then show ?case using submit_and_wait_inv [OF K(1)] reap_loop_inv [OF _ refl] waited.hyps(3,4) by fastforce
qed blast

section \<open>Counting\<close>

text \<open>Every live fiber is in one place, so the counters count at most the fibers.\<close>

lemma places_bound:
  assumes inv: "sched_inv V A F {} rs ps s"
  shows "length rs + length ps \<le> card F"
proof -
  have i: "ready_queue s rs" "fiber_inv V A F {} s" "ring_inv V ps s" "wait_inv F {} rs ps s"
    using inv by (simp_all add: sched_inv_def)
  obtain w where w: "\<And>q. q \<in> set ps \<Longrightarrow> w q \<in> F \<and> waits s (w q) q is_await"
    using wait_invD(3) [OF i(4)] by (metis DiffD1)
  have "inj_on w (set ps)"
  proof (rule inj_onI)
    fix p q assume "p \<in> set ps" "q \<in> set ps" "w p = w q"
    then show "p = q" using w [of p] w [of q] by (auto simp: waits_def)
  qed
  moreover have "w q \<notin> set rs" if "q \<in> set ps" for q
    using waits_not_ready [OF i(4)] w [OF that] that by (auto simp: waiting_def)
  ultimately have "distinct (rs @ map w ps)" using i(1,3) by (auto simp: distinct_map ready_queue_def ring_inv_def)
  moreover have "set (rs @ map w ps) \<subseteq> F" using wait_invD(1) [OF i(4)] w by auto
  ultimately show ?thesis
    using card_mono [OF fiber_invD(1) [OF i(2)], of "set (rs @ map w ps)"] distinct_card [of "rs @ map w ps"] by simp
qed

lemma counters:
  assumes inv: "sched_inv V A F {} rs ps s" and few: "card F < 2 ^ 32"
  shows "unat (ready_count s) = length rs" "parked_count s = 0 \<longleftrightarrow> ps = []"
    "parked_count s + ready_count s = 0 \<longleftrightarrow> rs = [] \<and> ps = []" "joining_count s = 0 \<longleftrightarrow> joined F s = {}"
proof -
  have i: "ready_queue s rs" "fiber_inv V A F {} s" "ring_inv V ps s" "wait_inv F {} rs ps s"
    using inv by (simp_all add: sched_inv_def)
  have zero: "(of_nat n :: u32) = 0 \<longleftrightarrow> n = 0" if "n < 2 ^ 32" for n
  proof -
    have "unat (of_nat n :: u32) = n" using that by (simp add: unat_of_nat)
    then show ?thesis by (metis of_nat_0 unat_eq_0)
  qed
  have le: "length rs + length ps < 2 ^ 32" using places_bound [OF inv] few by linarith
  have rp: "ready_count s = of_nat (length rs)" "parked_count s = of_nat (length ps)"
    using i(1,3) by (simp_all add: ready_queue_def ring_inv_def)
  show "unat (ready_count s) = length rs" using le by (simp add: rp unat_of_nat)
  show "parked_count s = 0 \<longleftrightarrow> ps = []" using le zero [of "length ps"] by (simp add: rp)
  have "parked_count s + ready_count s = of_nat (length rs + length ps)" by (simp add: rp add.commute)
  then show "parked_count s + ready_count s = 0 \<longleftrightarrow> rs = [] \<and> ps = []" using zero [OF le] by simp
  have "joined F s \<subseteq> F" by (auto simp: joined_def)
  then have "card (joined F s) \<le> card F" "finite (joined F s)"
    using card_mono finite_subset fiber_invD(1) [OF i(2)] by blast+
  then show "joining_count s = 0 \<longleftrightarrow> joined F s = {}"
    using zero [of "card (joined F s)"] few wait_invD(6) [OF i(4)] by simp
qed

lemma run_drained:
  assumes "sched_inv V A F {} [] [] s" "card F < 2 ^ 32"
  shows "libuc_scheduler_run K A U here s = (if joined F s = {} then ret (0, s) else Some Trap)"
  using counters(3,4) [OF assms] by (subst libuc_scheduler_run.simps) simp

text \<open>Nobody ready, nobody parked, nobody joining: nobody is left.\<close>

lemma nobody_left:
  assumes "sched_inv V A F {} [] [] s" "joined F s = {}" "f \<in> F"
  shows "\<not> alive s f"
proof
  assume a: "alive s f"
  have w: "wait_inv F {} [] [] s" using assms(1) by (simp add: sched_inv_def)
  obtain q where "waiting F [] s q" using wait_invD(7) [OF w, of f] a assms(3) by auto
  then show False using assms(2) by (auto simp: waiting_def joined_def)
qed

lemma drained_dead: "sched_inv V A F {} [] [] s \<Longrightarrow> joined F s = {} \<Longrightarrow> \<forall>f \<in> dom (activations s). \<not> alive s f"
  using nobody_left by (fastforce simp: sched_inv_def fiber_inv_def)

end
