(* ===== verification/Uc_Threads.thy ===== *)
theory Uc_Threads
  imports Uc_Reactor
begin

text \<open>
  The library code a fiber runs between its own code and the reactor: a function that makes calls of
  \<open>src/fiber\<close> is a value that finishes, or suspends in a call and goes on with the call's result, or
  leaves through a call that does not return. Then
  \<open>src/threads/thrd.c\<close>, the C11 threads over fibers.
\<close>

section \<open>Code that suspends\<close>

datatype 'a action = Finish 'a | Suspend call "i64 \<Rightarrow> 'a action" | Leave call

text \<open>The code left to run once the pending call has returned \<open>r\<close>.\<close>

primrec resume_with :: "'a action \<Rightarrow> i64 \<Rightarrow> 'a action" where
  "resume_with (Finish x) r = Finish x"
| "resume_with (Suspend c k) r = k r"
| "resume_with (Leave c) r = Leave c"

primrec pending :: "'a action \<Rightarrow> call option" where
  "pending (Finish x) = None"
| "pending (Suspend c k) = Some c"
| "pending (Leave c) = Some c"

section \<open>C11 threads\<close>

definition thrd_success :: i32 where "thrd_success = 0"
definition thrd_busy :: i32 where "thrd_busy = 1"
definition thrd_error :: i32 where "thrd_error = 2"
definition thrd_nomem :: i32 where "thrd_nomem = 3"
definition thrd_timedout :: i32 where "thrd_timedout = 4"

definition thread_stack_length :: u64 where "thread_stack_length = 256 * 1024"

text \<open>With the return value, the value stored through the out-parameter, if it is stored.\<close>

definition thrd_create :: "u64 \<Rightarrow> u64 \<Rightarrow> (i32 \<times> u64 option) action" where
  "thrd_create func arg =
     Suspend (Call_start thread_stack_length func arg) (\<lambda>thread.
       if thread = 0 then Finish (thrd_nomem, None) else Finish (thrd_success, Some thread))"

definition thrd_current :: "('k, 'z) machine_scheme \<Rightarrow> u64 outcome" where
  "thrd_current s = libuc_fiber_current s"

definition thrd_detach :: "u64 \<Rightarrow> i32 action" where
  "thrd_detach thr = Suspend (Call_detach thr) (\<lambda>_. Finish thrd_success)"

definition thrd_equal :: "u64 \<Rightarrow> u64 \<Rightarrow> i32" where
  "thrd_equal lhs rhs = (if lhs = rhs then 1 else 0)"

text \<open>\<open>__libuc_fiber_exit\<close> does not return; a switch back into it traps (\<open>resumes_as\<close>).\<close>

definition thrd_exit :: "i32 \<Rightarrow> 'a action" where
  "thrd_exit res = Leave (Call_exit res)"

definition thrd_join :: "u64 \<Rightarrow> u64 \<Rightarrow> (i32 \<times> i32 option) action" where
  "thrd_join thr res =
     Suspend (Call_join thr) (\<lambda>status. Finish (thrd_success, if res \<noteq> 0 then Some (ucast status) else None))"

definition thrd_yield :: "unit action" where
  "thrd_yield = Suspend Call_yield (\<lambda>_. Finish ())"

lemma thrd_join_status:
  "resume_with (thrd_join thr res) (scast st) = Finish (thrd_success, if res = 0 then None else Some st)"
  by (simp add: thrd_join_def ucast_scast_i32)

end
