(* ===== verification/Uc_Io.thy ===== *)
theory Uc_Io
  imports Uc_Threads
begin

text \<open>
  \<open>src/unistd\<close> and \<open>src/sys/socket\<close>: each function fills one submission entry, awaits its completion
  on the fiber, and turns the kernel's result into a return value and \<open>errno\<close>. \<open>errno\<close> is the calling
  fiber's thread-local object, passed in and out.
\<close>

definition IORING_OP_ACCEPT :: u8 where "IORING_OP_ACCEPT = 13"
definition IORING_OP_CONNECT :: u8 where "IORING_OP_CONNECT = 16"
definition IORING_OP_CLOSE :: u8 where "IORING_OP_CLOSE = 19"
definition IORING_OP_READ :: u8 where "IORING_OP_READ = 22"
definition IORING_OP_WRITE :: u8 where "IORING_OP_WRITE = 23"
definition IORING_OP_SOCKET :: u8 where "IORING_OP_SOCKET = 45"
definition IORING_OP_BIND :: u8 where "IORING_OP_BIND = 56"
definition IORING_OP_LISTEN :: u8 where "IORING_OP_LISTEN = 57"
definition IORING_OP_PIPE :: u8 where "IORING_OP_PIPE = 62"

section \<open>Helpers\<close>

definition libuc_rw_len :: "u64 \<Rightarrow> u32" where
  "libuc_rw_len cnt = ucast (if cnt > 0x7FFFFFFF then 0x7FFFFFFF else cnt)"

text \<open>\<open>__libuc_errno_result(__libuc_fiber_await(&sqe))\<close>, and the same narrowed to \<open>int\<close>.\<close>

definition await_long :: "sqe \<Rightarrow> i32 \<Rightarrow> (i64 \<times> i32) action" where
  "await_long e errno = Suspend (Call_await e) (\<lambda>res. Finish (libuc_errno_result res errno))"

definition await_int :: "sqe \<Rightarrow> i32 \<Rightarrow> (i32 \<times> i32) action" where
  "await_int e errno = Suspend (Call_await e) (\<lambda>res. Finish (map_prod ucast id (libuc_errno_result res errno)))"

section \<open>unistd\<close>

definition uc_read :: "i32 \<Rightarrow> u64 \<Rightarrow> u64 \<Rightarrow> i32 \<Rightarrow> (i64 \<times> i32) action" where
  "uc_read fd buf cnt errno =
     (if sint cnt < 0 then Finish (- 1, EINVAL)
      else await_long (zero_sqe\<lparr>sq_opcode := IORING_OP_READ, sq_fd := fd, sq_off := - 1, sq_addr := buf,
             sq_len := libuc_rw_len cnt\<rparr>) errno)"

definition uc_write :: "i32 \<Rightarrow> u64 \<Rightarrow> u64 \<Rightarrow> i32 \<Rightarrow> (i64 \<times> i32) action" where
  "uc_write fd buf cnt errno =
     (if sint cnt < 0 then Finish (- 1, EINVAL)
      else await_long (zero_sqe\<lparr>sq_opcode := IORING_OP_WRITE, sq_fd := fd, sq_off := - 1, sq_addr := buf,
             sq_len := libuc_rw_len cnt\<rparr>) errno)"

definition uc_close :: "i32 \<Rightarrow> i32 \<Rightarrow> (i32 \<times> i32) action" where
  "uc_close fd errno = await_int (zero_sqe\<lparr>sq_opcode := IORING_OP_CLOSE, sq_fd := fd\<rparr>) errno"

definition uc_pipe2 :: "u64 \<Rightarrow> i32 \<Rightarrow> i32 \<Rightarrow> (i32 \<times> i32) action" where
  "uc_pipe2 fds flags errno = await_int (zero_sqe\<lparr>sq_opcode := IORING_OP_PIPE, sq_addr := fds, sq_op_flags := flags\<rparr>) errno"

definition uc_pipe :: "u64 \<Rightarrow> i32 \<Rightarrow> (i32 \<times> i32) action" where
  "uc_pipe fds errno = uc_pipe2 fds 0 errno"

section \<open>Sockets\<close>

text \<open>\<open>off = (uint32_t)type\<close> is zero-extended.\<close>

definition uc_socket :: "i32 \<Rightarrow> i32 \<Rightarrow> i32 \<Rightarrow> i32 \<Rightarrow> (i32 \<times> i32) action" where
  "uc_socket domain ty protocol errno =
     await_int (zero_sqe\<lparr>sq_opcode := IORING_OP_SOCKET, sq_fd := domain, sq_off := ucast ty, sq_len := protocol\<rparr>) errno"

text \<open>\<open>addr2\<close> has the place of \<open>off\<close>; a \<open>socklen_t\<close> is 32 bits wide.\<close>

definition uc_bind :: "i32 \<Rightarrow> u64 \<Rightarrow> u32 \<Rightarrow> i32 \<Rightarrow> (i32 \<times> i32) action" where
  "uc_bind fd addr len errno =
     await_int (zero_sqe\<lparr>sq_opcode := IORING_OP_BIND, sq_fd := fd, sq_addr := addr, sq_off := ucast len\<rparr>) errno"

definition uc_connect :: "i32 \<Rightarrow> u64 \<Rightarrow> u32 \<Rightarrow> i32 \<Rightarrow> (i32 \<times> i32) action" where
  "uc_connect fd addr len errno =
     await_int (zero_sqe\<lparr>sq_opcode := IORING_OP_CONNECT, sq_fd := fd, sq_addr := addr, sq_off := ucast len\<rparr>) errno"

definition uc_listen :: "i32 \<Rightarrow> i32 \<Rightarrow> i32 \<Rightarrow> (i32 \<times> i32) action" where
  "uc_listen fd backlog errno = await_int (zero_sqe\<lparr>sq_opcode := IORING_OP_LISTEN, sq_fd := fd, sq_len := backlog\<rparr>) errno"

definition uc_accept :: "i32 \<Rightarrow> u64 \<Rightarrow> u64 \<Rightarrow> i32 \<Rightarrow> (i32 \<times> i32) action" where
  "uc_accept fd addr len errno =
     await_int (zero_sqe\<lparr>sq_opcode := IORING_OP_ACCEPT, sq_fd := fd, sq_addr := addr, sq_off := len\<rparr>) errno"

section \<open>Results\<close>

lemma sint_scast_i32: "sint (scast (r :: i32) :: i64) = sint r"
  by (rule sint_up_scast) (simp add: is_up)

lemma ucast_minus_scast: "(ucast (- (scast (res :: i32) :: i64)) :: i32) = - res"
proof -
  have "(ucast (word_of_int k :: i64) :: i32) = word_of_int k" for k
    by (simp add: bit_eq_iff bit_ucast_iff bit_of_int_iff)
  from this [of "- sint res"] have "(ucast (- word_of_int (sint res) :: i64) :: i32) = - word_of_int (sint res)"
    by (simp only: of_int_minus)
  moreover have "(word_of_int (sint res) :: i64) = scast res" by (rule scast_eq [symmetric])
  moreover have "(word_of_int (sint res) :: i32) = res" by simp
  ultimately show ?thesis by argo
qed

lemma errno_result_completion:
  "libuc_errno_result (scast (res :: i32)) errno = (if sint res < 0 then (- 1, - res) else (scast res, errno))"
  by (simp add: libuc_errno_result_def sint_scast_i32 ucast_minus_scast)

end
