(* ===== verification/Uc_Sim_Ring.thy ===== *)
theory Uc_Sim_Ring
  imports Uc_Ring
begin

text \<open>
  A simulated kernel with one ring, on top of the simulated address space. It interrupts the first
  few waits, accepts at most a fixed number of entries per enter, completes what is in flight as
  far as the completion queue has room, and reports a fixed result. It meets every contract the
  properties assume, and the witnesses run on it. Nothing of the model depends on it.
\<close>

record sim =
  space :: sim_space
  log :: "sqe list"
  flight :: "u64 list"
  interrupts :: nat
  burst :: nat

definition sim_cqe :: "u64 \<Rightarrow> cqe" where
  "sim_cqe u = \<lparr>cq_user_data = u, cq_res = 42, cq_flags = 0\<rparr>"

lemma sim_cqe_simps [simp]:
  "cq_flags (sim_cqe u) = 0" "image_mset cq_user_data (image_mset sim_cqe M) = M"
  by (simp_all add: sim_cqe_def multiset.map_comp comp_def)

fun sim_post :: "u32 \<Rightarrow> u64 list \<Rightarrow> u32 \<Rightarrow> cqe list \<Rightarrow> u32 \<times> cqe list \<times> u64 list" where
  "sim_post head [] tail cs = (tail, cs, [])"
| "sim_post head (u # us) tail cs =
     (if unat (tail - head) < length cs
      then sim_post head us (tail + 1) (cs[unat tail mod length cs := sim_cqe u])
      else (tail, cs, u # us))"

definition sim_enter ::
    "i32 \<Rightarrow> u32 \<Rightarrow> u32 \<Rightarrow> u32 \<Rightarrow> sqe list \<Rightarrow> u32 \<Rightarrow> u32 \<Rightarrow> cqe list \<Rightarrow> sim \<Rightarrow> i64 \<times> u32 \<times> cqe list \<times> sim" where
  "sim_enter d n minc flags sq head tail cs k =
     (if 0 < interrupts k then (minus_EINTR, tail, cs, k\<lparr>interrupts := interrupts k - 1\<rparr>)
      else let m = min (unat n) (Suc (burst k)) in
        case sim_post head (flight k @ map sq_user_data (take m sq)) tail cs of
          (tail', cs', us) \<Rightarrow> (of_nat m, tail', cs', k\<lparr>log := log k @ take m sq, flight := us\<rparr>))"

text \<open>The ring has four submission entries and eight completion entries; its mapping holds the
  completion mask at offset 8.\<close>

definition sim_ring_mmap ::
    "u64 \<Rightarrow> u64 \<Rightarrow> i32 \<Rightarrow> i32 \<Rightarrow> i32 \<Rightarrow> u64 \<Rightarrow> mem \<Rightarrow> sim \<Rightarrow> i64 \<times> mem \<times> sim" where
  "sim_ring_mmap address len protection flags d offset m k =
     (case sim_mmap address len protection flags d offset m (space k) of
        (r, m', sp) \<Rightarrow>
          (r, (if flags = map_shared_populate \<and> offset = IORING_OFF_SQ_RING \<and> \<not> libuc_syscall_failed r \<and> 64 \<le> len
               then m'(r + 8 := 7)
               else m'), k\<lparr>space := sp\<rparr>))"

definition sim_ring_munmap :: "u64 \<Rightarrow> u64 \<Rightarrow> mem \<Rightarrow> sim \<Rightarrow> i64 \<times> mem \<times> sim" where
  "sim_ring_munmap s len m k =
     (case sim_munmap s len m (space k) of (r, m', sp) \<Rightarrow> (r, m', k\<lparr>space := sp\<rparr>))"

definition sim_setup :: "u32 \<Rightarrow> u32 \<Rightarrow> sim \<Rightarrow> i64 \<times> io_uring_params \<times> sim" where
  "sim_setup entries flags k =
     (3, \<lparr>p_sq_entries = 4, p_cq_entries = 8, p_features = 1, p_cq_off_head = 0,
          p_cq_off_tail = 4, p_cq_off_ring_mask = 8, p_cq_off_cqes = 64\<rparr>, k)"

definition sim_kernel :: "sim ring_kernel" where
  "sim_kernel = \<lparr>k_mmap = sim_ring_mmap, k_munmap = sim_ring_munmap, k_setup = sim_setup, k_enter = sim_enter\<rparr>"

definition sim_view :: "sim kernel_view" where
  "sim_view = \<lparr>v_mapped = sim_mapped \<circ> space, v_accepted = log, v_inflight = mset \<circ> flight, v_patience = interrupts,
     v_posts = (\<lambda>c. cq_flags c = 0)\<rparr>"

lemma sim_post_spec:
  assumes "sim_post head us tail cs = (tail', cs', us')" "j < 32" "length cs = 2 ^ j"
    "unat (tail - head) \<le> length cs"
  shows "length cs' = length cs \<and> unat (tail' - head) \<le> length cs \<and>
    (\<exists>posted. us = posted @ us' \<and> cq_view head tail' cs' = cq_view head tail cs @ map sim_cqe posted)"
  using assms
proof (induction head us tail cs rule: sim_post.induct)
  case (2 head u us tail cs)
  show ?case
  proof (cases "unat (tail - head) < length cs")
    case True
    note step = cq_view_step [OF 2(3,4) True]
    from 2(1) [OF True] 2(2,3,4) True step show ?thesis
      by (auto intro: exI [of _ "u # _"])
  qed (use 2 in auto)
qed auto

lemma sim_enter_ok: "enter_ok sim_view sim_kernel"
  unfolding enter_ok_def
proof (intro allI impI)
  fix d n minc sq head tail cs k r tail' cs' k'
  assume e: "k_enter sim_kernel d n minc IORING_ENTER_GETEVENTS sq head tail cs k = (r, tail', cs', k')"
    and n: "unat n \<le> length sq" and t: "unat (tail - head) \<le> length cs" and j: "\<exists>j < 32. length cs = 2 ^ j"
  let ?taken = "if libuc_syscall_failed r then [] else take (unat r) sq"
  show "let taken = ?taken in
      (libuc_syscall_failed r \<or> (unat r \<le> unat n \<and> (n \<noteq> 0 \<longrightarrow> r \<noteq> 0))) \<and>
      (r = minus_EINTR \<longrightarrow> v_patience sim_view k' < v_patience sim_view k) \<and>
      v_mapped sim_view k' = v_mapped sim_view k \<and>
      v_accepted sim_view k' = v_accepted sim_view k @ taken \<and>
      length cs' = length cs \<and> unat (tail' - head) \<le> length cs \<and>
      (\<exists>posted. cq_view head tail' cs' = cq_view head tail cs @ posted \<and>
         posts (v_inflight sim_view k + mset (map sq_user_data taken)) posted (v_inflight sim_view k') \<and>
         (\<forall>c \<in> set posted. v_posts sim_view c))"
  proof (cases "0 < interrupts k")
    case True
    then show ?thesis using e t by (auto simp: sim_kernel_def sim_enter_def sim_view_def)
  next
    case False
    let ?m = "min (unat n) (Suc (burst k))"
    obtain us where p: "sim_post head (flight k @ map sq_user_data (take ?m sq)) tail cs = (tail', cs', us)"
      and r: "r = of_nat ?m" "k' = k\<lparr>log := log k @ take ?m sq, flight := us\<rparr>"
      using e False by (auto simp: sim_kernel_def sim_enter_def Let_def split: prod.splits)
    have m: "?m < 2 ^ 32" by (simp add: min_less_iff_disj)
    then have u: "unat r = ?m" by (simp add: r unat_of_nat)
    then have nf: "\<not> libuc_syscall_failed r" using m by (intro not_failed_nonneg) simp
    obtain j where "j < 32" "length cs = 2 ^ j" using j by blast
    from sim_post_spec [OF p this t] obtain posted where
      l: "length cs' = length cs" "unat (tail' - head) \<le> length cs"
      and q: "flight k @ map sq_user_data (take ?m sq) = posted @ us"
        "cq_view head tail' cs' = cq_view head tail cs @ map sim_cqe posted" by blast
    have "mset (flight k) + mset (map sq_user_data (take ?m sq)) = mset us + mset posted"
      using arg_cong [OF q(1), of mset] by (simp add: add.commute)
    then have "posts (mset (flight k) + mset (map sq_user_data (take ?m sq))) (map sim_cqe posted) (mset us)"
      by (subst posts_single) (auto simp: comp_def last_completion_def sim_cqe_def)
    moreover have "n \<noteq> 0 \<longrightarrow> r \<noteq> 0" using u by (auto simp: unat_eq_0 min_def split: if_splits)
    moreover have "r \<noteq> minus_EINTR" using nf by auto
    ultimately show ?thesis
      using nf l q(2) u by (auto simp: sim_view_def r(2) Let_def intro!: exI [of _ "map sim_cqe posted"])
  qed
qed

lemma sim_post_fills:
  assumes "sim_post head us tail cs = (tail', cs', us')" "unat (tail - head) \<le> length cs" "j < 32" "length cs = 2 ^ j"
  shows "unat (tail' - head) = min (length cs) (unat (tail - head) + length us)"
  using assms
proof (induction head us tail cs rule: sim_post.induct)
  case (2 head u us tail cs)
  show ?case
  proof (cases "unat (tail - head) < length cs")
    case True
    have "unat (tail + 1 - head) = Suc (unat (tail - head))" using 2(4,5) True by (intro cq_view_step(1))
    then show ?thesis using 2(1) [OF True] 2(2-) True by simp
  qed (use 2 in auto)
qed auto

lemma sim_enter_waits: "enter_waits sim_view sim_kernel"
  unfolding enter_waits_def
proof (intro allI impI)
  fix d n minc sq head tail cs k r tail' cs' k'
  assume e: "k_enter sim_kernel d n minc IORING_ENTER_GETEVENTS sq head tail cs k = (r, tail', cs', k')"
    and n: "unat n \<le> length sq" and t: "unat (tail - head) \<le> length cs" and j: "\<exists>j < 32. length cs = 2 ^ j"
    and ok: "\<not> libuc_syscall_failed r" "unat r = unat n"
    and m: "unat minc \<le> unat (tail - head) + size (v_inflight sim_view k) + unat n" "unat minc \<le> length cs"
  have ni: "interrupts k = 0" using e ok by (auto simp: sim_kernel_def sim_enter_def split: if_splits)
  let ?m = "min (unat n) (Suc (burst k))"
  obtain us where p: "sim_post head (flight k @ map sq_user_data (take ?m sq)) tail cs = (tail', cs', us)" and r: "r = of_nat ?m"
    using e ni by (auto simp: sim_kernel_def sim_enter_def Let_def split: prod.splits)
  have "?m < 2 ^ 32" by (simp add: min_less_iff_disj)
  then have "unat n = ?m" using ok(2) by (simp add: r unat_of_nat)
  then have "length (take ?m sq) = unat n" using n by simp
  moreover obtain i where "i < 32" "length cs = 2 ^ i" using j by blast
  ultimately show "unat minc \<le> unat (tail' - head)"
    using sim_post_fills [OF p t] m by (simp add: sim_view_def)
qed

lemma sim_kernel_mmap_ok: "mmap_ok (v_mapped sim_view) sim_kernel"
  unfolding mmap_ok_def
proof (intro allI impI)
  fix len m k r m' k'
  assume "k_mmap sim_kernel 0 len prot_rw map_private_anonymous (- 1) 0 m k = (r, m', k')"
  then have "sim_mmap 0 len prot_rw map_private_anonymous (- 1) 0 m (space k) = (r, m', space k')"
    by (auto simp: sim_kernel_def sim_ring_mmap_def map_private_anonymous_def map_shared_populate_def
        split: prod.splits)
  from sim_mmap_ok [of "\<lambda>_ _ _ _. undefined" "()", unfolded mmap_ok_def, rule_format, simplified, OF this]
  show "if libuc_syscall_failed r then m' = m \<and> v_mapped sim_view k' = v_mapped sim_view k
    else r \<noteq> 0 \<and> 4096 dvd unat r \<and> unat r + unat len \<le> 2 ^ 64 \<and> region r len \<inter> v_mapped sim_view k = {} \<and>
      v_mapped sim_view k' = v_mapped sim_view k \<union> region r len \<and>
      (\<forall>a. m' a = (if a \<in> region r len then 0 else m a))"
    by (simp only: sim_view_def kernel_view.simps comp_apply)
qed

lemma sim_kernel_munmap_ok: "munmap_ok (v_mapped sim_view) sim_kernel"
  unfolding munmap_ok_def
proof (intro allI impI)
  fix s len m k r m' k'
  assume "k_munmap sim_kernel s len m k = (r, m', k')"
  then have "sim_munmap s len m (space k) = (r, m', space k')"
    by (auto simp: sim_kernel_def sim_ring_munmap_def split: prod.splits)
  from sim_munmap_ok [of "\<lambda>_ _ _ _ _ _ _ _. undefined" "()", unfolded munmap_ok_def, rule_format, simplified, OF this]
  show "if libuc_syscall_failed r then m' = m \<and> v_mapped sim_view k' = v_mapped sim_view k
    else v_mapped sim_view k' = v_mapped sim_view k - region s len \<and> (\<forall>a. a \<notin> region s len \<longrightarrow> m' a = m a)"
    by (simp add: sim_view_def)
qed

end
