(* ===== verification/Uc_Ring_Properties.thy ===== *)
theory Uc_Ring_Properties
  imports Uc_Sim_Ring
begin

text \<open>What the rings promise, over \<open>Uc_Ring\<close>, with runs on the simulated kernel.\<close>

section \<open>Creation\<close>

text \<open>
  \<open>io_uring_setup(2)\<close> and the mapping of a ring: a granted ring has at least one submission entry and
  a power of two of completion entries, its index words lie before its completion entries, and
  a ring that was never entered has equal completion indices. A shared mapping of the descriptor
  is fresh, and leaves all other memory alone.
\<close>

definition ring_setup_ok :: "'k kernel_view \<Rightarrow> ('k, 'y) ring_kernel_scheme \<Rightarrow> bool" where
  "ring_setup_ok V K \<longleftrightarrow> (\<forall>entries k d p k1. k_setup K entries setup_flags k = (d, p, k1) \<longrightarrow>
     v_mapped V k1 = v_mapped V k \<and>
     (\<not> libuc_syscall_failed d \<longrightarrow>
       0 < p_sq_entries p \<and> (\<exists>j < 32. p_cq_entries p = 2 ^ j) \<and>
       unat (p_cq_off_head p) + 4 \<le> unat (p_cq_off_cqes p) \<and> unat (p_cq_off_tail p) + 4 \<le> unat (p_cq_off_cqes p) \<and>
       (\<forall>len m r m' k2. k_mmap K 0 len prot_rw map_shared_populate (ucast d) IORING_OFF_SQ_RING m k1 = (r, m', k2) \<longrightarrow>
          \<not> libuc_syscall_failed r \<longrightarrow> unat (p_cq_off_cqes p) \<le> unat len \<longrightarrow>
          load32 m' (ring_at r (p_cq_off_head p)) = load32 m' (ring_at r (p_cq_off_tail p)))))"

definition mmap_shared_ok :: "'k kernel_view \<Rightarrow> ('k, 'y) ring_kernel_scheme \<Rightarrow> bool" where
  "mmap_shared_ok V K \<longleftrightarrow> (\<forall>len d off m k r m' k'.
     k_mmap K 0 len prot_rw map_shared_populate d off m k = (r, m', k') \<longrightarrow> \<not> libuc_syscall_failed r \<longrightarrow>
       unat r + unat len \<le> 2 ^ 64 \<and> region r len \<inter> v_mapped V k = {} \<and>
       v_mapped V k' = v_mapped V k \<union> region r len \<and> (\<forall>a. a \<notin> region r len \<longrightarrow> m' a = m a))"

lemma load32_outside:
  assumes "\<And>a. a \<notin> region q len' \<Longrightarrow> m' a = m a" "region b len \<inter> region q len' = {}"
    and "unat off + 4 \<le> unat len"
  shows "load32 m' (ring_at b off) = load32 m (ring_at b off)"
proof -
  have "m' (ring_at b off + of_nat i) = m (ring_at b off + of_nat i)" if "i < 4" for i
  proof -
    have l: "unat off + i < unat len" "unat len < 2 ^ 64" using assms(3) that by simp_all
    have "unat (of_nat (unat off + i) :: u64) = unat off + i"
      using order.strict_trans [OF l] by (simp only: unat_of_nat) simp
    then have "(of_nat (unat off + i) :: u64) < len" using l by (simp add: word_less_nat_alt)
    moreover have "ring_at b off + of_nat i - b = of_nat (unat off + i)"
      by (simp add: ring_at_def)
    ultimately have "ring_at b off + of_nat i \<in> region b len" by (simp only: region_simps)
    with assms(2) show ?thesis by (intro assms(1)) auto
  qed
  then have "bytes m' (ring_at b off) 4 = bytes m (ring_at b off) 4" by (rule bytes_cong)
  then show ?thesis by (simp only: load32_def)
qed

lemma ring_lengthsD:
  assumes "ring_lengths p = Some (rl, sl)"
  shows "unat rl = unat (p_cq_off_cqes p) + 16 * unat (p_cq_entries p)" "unat sl = 64 * unat (p_sq_entries p)"
proof -
  obtain cl where "ckd_mul (ucast (p_cq_entries p)) sizeof_cqe = Some cl"
    "ckd_add (ucast (p_cq_off_cqes p)) cl = Some rl" "ckd_mul (ucast (p_sq_entries p)) sizeof_sqe = Some sl"
    using assms by (auto simp: ring_lengths_def split: option.splits)
  note e = ckd_mul_SomeD [OF this(1), THEN conjunct2] ckd_add_unat [OF this(2)]
    ckd_mul_SomeD [OF this(3), THEN conjunct2]
  have "unat (ucast w :: u64) = unat w" for w :: u32
    by (simp add: unsigned_ucast_eq take_bit_nat_eq_self order.strict_trans [OF unat_lt_2p32])
  with e show "unat rl = unat (p_cq_off_cqes p) + 16 * unat (p_cq_entries p)" "unat sl = 64 * unat (p_sq_entries p)"
    by (simp_all add: sizeof_cqe_def sizeof_sqe_def)
qed

lemma created_ring:
  assumes ringok: "ring_setup_ok V K" and mmap: "mmap_shared_ok V K"
    and c: "libuc_ring_create K entries s = (Some r, s')"
  shows "ring_wf r \<and> sq_batch r = [] \<and> cq_pending r = [] \<and>
    unat (sqes_mapping_length r) = 64 * unat (sq_entries r) \<and>
    unat (cqes_ptr r - ring_mapping r) + 16 * unat (cq_entries r) = unat (ring_mapping_length r) \<and>
    region (ring_mapping r) (ring_mapping_length r) \<inter> region (sqes_ptr r) (sqes_mapping_length r) = {} \<and>
    (region (ring_mapping r) (ring_mapping_length r) \<union> region (sqes_ptr r) (sqes_mapping_length r))
      \<inter> v_mapped V (kern s) = {} \<and>
    v_mapped V (kern s') = v_mapped V (kern s) \<union> region (ring_mapping r) (ring_mapping_length r) \<union>
      region (sqes_ptr r) (sqes_mapping_length r)"
proof -
  obtain d p k1 where su: "k_setup K entries setup_flags (kern s) = (d, p, k1)" and d: "\<not> libuc_syscall_failed d"
    using c by (auto simp: libuc_ring_create_def Let_def split: prod.splits if_splits)
  obtain rl sl where ln: "ring_lengths p = Some (rl, sl)"
    using c d by (auto simp: libuc_ring_create_def Let_def su split: prod.splits if_splits option.splits)
  obtain rm m2 k2 where m2: "k_mmap K 0 rl prot_rw map_shared_populate (ucast d) IORING_OFF_SQ_RING (mem s) k1 = (rm, m2, k2)"
    by (metis prod_cases3)
  obtain sm m3 k3 where m3: "k_mmap K 0 sl prot_rw map_shared_populate (ucast d) IORING_OFF_SQES m2 k2 = (sm, m3, k3)"
    by (metis prod_cases3)
  note steps = libuc_ring_create_def mmap_ring_def Let_def su d ln m2 m3
  have ok: "\<not> libuc_syscall_failed rm" "\<not> libuc_syscall_failed sm"
    and r: "ring_mapping r = rm" "ring_mapping_length r = rl" "sqes_ptr r = ring_at sm 0"
      "sqes_mapping_length r = sl" "cqes_ptr r = ring_at rm (p_cq_off_cqes p)"
      "sq_entries r = p_sq_entries p" "cq_entries r = p_cq_entries p" "batch_count r = 0"
      "cq_mask r = p_cq_entries p - 1"
      "sqes r = sqes_at m3 (ring_at sm 0) (p_sq_entries p)"
      "cqes r = cqes_at m3 (ring_at rm (p_cq_off_cqes p)) (p_cq_entries p)"
      "cq_head r = load32 m3 (ring_at rm (p_cq_off_head p))" "cq_tail r = load32 m3 (ring_at rm (p_cq_off_tail p))"
    and k: "kern s' = k3"
    using c by (auto simp: steps split: if_splits)
  note S = ringok [unfolded ring_setup_ok_def, rule_format, OF su]
  note M2 = mmap [unfolded mmap_shared_ok_def, rule_format, OF m2 ok(1)]
  note M3 = mmap [unfolded mmap_shared_ok_def, rule_format, OF m3 ok(2)]
  note L = ring_lengthsD [OF ln]
  have apart: "region rm rl \<inter> region sm sl = {}" using M2 M3 by auto
  have "load32 m2 (ring_at rm (p_cq_off_head p)) = load32 m2 (ring_at rm (p_cq_off_tail p))"
    using S d m2 ok(1) L by (metis le_add1)
  then have pre: "cq_head r = cq_tail r"
    using S d M3 apart L load32_outside [of sm sl m3 m2 rm rl "p_cq_off_head p"]
      load32_outside [of sm sl m3 m2 rm rl "p_cq_off_tail p"] by (auto simp: r)
  have at: "ring_at sm 0 = sm" "unat (ring_at rm (p_cq_off_cqes p) - rm) = unat (p_cq_off_cqes p)"
    by (simp_all add: ring_at_def unsigned_ucast_eq take_bit_nat_eq_self order.strict_trans [OF unat_lt_2p32])
  have "ring_wf r"
    using S d by (auto simp: ring_wf_def r sqes_at_def cqes_at_def pre [unfolded r])
  moreover have "sq_batch r = []" "cq_pending r = []"
    using pre by (simp_all add: sq_batch_def cq_pending_def cq_view_def r)
  ultimately show ?thesis
    using S M2 M3 L apart by (auto simp: r k at)
qed

text \<open>
  C32. A ring that \<open>__libuc_ring_create\<close> returns is well-formed: the completion mask selects
  exactly the completion entries, both queues start empty, the submission entries fill their
  mapping and the completion entries end at the end of theirs, and the two mappings are fresh
  and apart from each other.
\<close>

theorem ring_create_wf:
  assumes "ring_setup_ok V K" "mmap_shared_ok V K" and "libuc_ring_create K entries s = (Some r, s')"
  shows "ring_wf r \<and> sq_batch r = [] \<and> cq_pending r = [] \<and>
    unat (sqes_mapping_length r) = 64 * unat (sq_entries r) \<and>
    unat (cqes_ptr r - ring_mapping r) + 16 * unat (cq_entries r) = unat (ring_mapping_length r) \<and>
    region (ring_mapping r) (ring_mapping_length r) \<inter> region (sqes_ptr r) (sqes_mapping_length r) = {} \<and>
    (region (ring_mapping r) (ring_mapping_length r) \<union> region (sqes_ptr r) (sqes_mapping_length r))
      \<inter> v_mapped V (kern s) = {} \<and>
    v_mapped V (kern s') = v_mapped V (kern s) \<union> region (ring_mapping r) (ring_mapping_length r) \<union>
      region (sqes_ptr r) (sqes_mapping_length r)"
  by (rule created_ring [OF assms])

lemma sim_ring_setup_ok: "ring_setup_ok sim_view sim_kernel"
proof -
  have "load32 m' (r + 0) = load32 m' (r + 4)"
    if e: "sim_ring_mmap 0 len prot_rw map_shared_populate d IORING_OFF_SQ_RING m k = (r, m', k')"
      and ok: "\<not> libuc_syscall_failed r" and len: "64 \<le> unat len" for len d m k r m' k'
  proof -
    from e ok len have "m' = (\<lambda>a. if a - r < len then 0 else m a)(r + 8 := 7)"
      by (auto simp: sim_ring_mmap_def sim_mmap_def Let_def word_le_nat_alt split: prod.splits if_splits)
        (use sint_of_neg_nat [of 12] in \<open>auto simp: libuc_syscall_failed_def\<close>)
    moreover have "x < len" if "unat x < 64" for x using that len by (simp add: word_less_nat_alt)
    ultimately show ?thesis by (simp add: load32_def bytes_def upt_rec)
  qed
  then show ?thesis
    unfolding ring_setup_ok_def
    by (auto simp: sim_kernel_def sim_setup_def sim_view_def ring_at_def intro: exI [of _ 3])
qed

lemma sim_mmap_shared_ok: "mmap_shared_ok sim_view sim_kernel"
  unfolding mmap_shared_ok_def
proof (intro allI impI)
  fix len d off m k r m' k'
  assume e: "k_mmap sim_kernel 0 len prot_rw map_shared_populate d off m k = (r, m', k')"
    and ok: "\<not> libuc_syscall_failed r"
  show "unat r + unat len \<le> 2 ^ 64 \<and> region r len \<inter> v_mapped sim_view k = {} \<and>
       v_mapped sim_view k' = v_mapped sim_view k \<union> region r len \<and> (\<forall>a. a \<notin> region r len \<longrightarrow> m' a = m a)"
  proof -
    have "sim_mmap 0 len prot_rw map_shared_populate d off m (space k) =
        sim_mmap 0 len prot_rw map_private_anonymous (- 1) 0 m (space k)"
      by (simp add: sim_mmap_def)
    with e obtain m1 where s: "sim_mmap 0 len prot_rw map_private_anonymous (- 1) 0 m (space k) = (r, m1, space k')"
      and m': "\<And>a. a \<noteq> r + 8 \<or> \<not> 64 \<le> len \<Longrightarrow> m' a = m1 a"
      by (auto simp: sim_kernel_def sim_ring_mmap_def split: prod.splits if_splits)
    have "(8 :: u64) < len" if "64 \<le> len" using that by (simp add: word_le_nat_alt word_less_nat_alt)
    then have out: "a \<noteq> r + 8 \<or> \<not> 64 \<le> len" if "a \<notin> region r len" for a
      using that by (auto simp: region_simps)
    from sim_mmap_ok [of "\<lambda>_ _ _ _. undefined" "()", unfolded mmap_ok_def, rule_format, simplified, OF s] ok m' out
    show ?thesis by (simp add: sim_view_def)
  qed
qed

definition ring_machine :: "sim machine" where
  "ring_machine = \<lparr>mem = (\<lambda>_. 0), tcbs = Map.empty, tp = 0, auxiliary_vector = 0, process_layout = None,
     kern = \<lparr>space = (0x10000, []), log = [], flight = [], interrupts = 1, burst = 1\<rparr>\<rparr>"

lemmas sim_ring_defs = sim_kernel_def sim_setup_def sim_ring_mmap_def sim_mmap_def map_shared_populate_def
  IORING_FEAT_SINGLE_MMAP_def IORING_OFF_SQ_RING_def IORING_OFF_SQES_def align_down_def apart_def

lemma sim_ring_created:
  "\<exists>r s'. libuc_ring_create sim_kernel 1024 ring_machine = (Some r, s') \<and> cq_entries r = 8"
proof -
  have l: "ring_lengths \<lparr>p_sq_entries = 4, p_cq_entries = 8, p_features = 1, p_cq_off_head = 0,
      p_cq_off_tail = 4, p_cq_off_ring_mask = 8, p_cq_off_cqes = 64\<rparr> = Some (192, 256)"
    by (simp add: ring_lengths_def ckd_mul_def ckd_add_def sizeof_cqe_def sizeof_sqe_def)
  show ?thesis
    by (simp add: libuc_ring_create_def mmap_ring_def ring_machine_def sim_ring_defs libuc_syscall_failed_def
        l ring_at_def Let_def load32_def bytes_def upt_rec word_rcat_def)
qed

theorem ring_create_wf_witness:
  "\<exists>r s'. libuc_ring_create sim_kernel 1024 ring_machine = (Some r, s') \<and> ring_wf r \<and> cq_entries r = 8"
  using sim_ring_created ring_create_wf [OF sim_ring_setup_ok sim_mmap_shared_ok] by blast

section \<open>Submission\<close>

text \<open>
  C30. \<open>__libuc_ring_submit\<close> always returns, however often it is interrupted and however short the
  kernel's submissions are, and so does the operation scheduler's, with the same result: the
  accepted entries are a prefix of the batch, in order and each exactly once; a success (which is
  never \<open>-EINTR\<close>) leaves the batch empty, and a failure leaves exactly the unaccepted entries in the
  batch from slot zero on. Completions already posted stay, in order, and new ones follow them.
\<close>

theorem ring_submit_total:
  assumes "enter_ok V K" "ring_wf r"
  shows "\<exists>result r' k' taken posted.
    libuc_ring_submit K min_complete r k = ret (result, r', k') \<and>
    libuc_scheduler_ring_submit K min_complete r k = ret (result, r', k') \<and>
    ring_wf r' \<and> sq_batch r = taken @ sq_batch r' \<and> v_accepted V k' = v_accepted V k @ taken \<and>
    cq_pending r' = cq_pending r @ posted \<and>
    (if libuc_syscall_failed result then result \<noteq> minus_EINTR else sq_batch r' = [])"
  using ring_submit_returns [OF assms, of min_complete k]
    scheduler_ring.submit_reference [OF assms, of min_complete k]
  by (fastforce simp: ring_step_def sq_batch_def)

definition small_ring :: ring where
  "small_ring = \<lparr>ring_mapping = 0x10000, ring_mapping_length = 192, sqes_ptr = 0x11000, sqes_mapping_length = 256,
     cq_head_ptr = 0x10000, cq_tail_ptr = 0x10004, cqes_ptr = 0x10040, descriptor = 3, sq_entries = 4,
     cq_entries = 8, cq_mask = 7, batch_count = 3,
     sqes = map (\<lambda>i. zero_sqe\<lparr>sq_user_data := i\<rparr>) [10, 20, 30, 0],
     cq_head = 0xFFFFFFFF, cq_tail = 0xFFFFFFFF, cqes = replicate 8 \<lparr>cq_user_data = 0, cq_res = 0, cq_flags = 0\<rparr>\<rparr>"

lemma small_ring_wf: "ring_wf small_ring"
  by (auto simp: ring_wf_def small_ring_def intro: exI [of _ 3])

theorem ring_submit_total_witness:
  "\<exists>result r' k'. libuc_ring_submit sim_kernel 1 small_ring (kern ring_machine) = ret (result, r', k') \<and> ring_wf r'"
  using ring_submit_total [OF sim_enter_ok small_ring_wf, of 1 "kern ring_machine"] by blast

text \<open>
  The operation scheduler's ring drops a submitted prefix with a loop over 32-bit indices where
  the fiber scheduler's ring calls \<open>memmove\<close>; on every batch that fits the submission queue the loop
  leaves the same array, with the unsubmitted entries from slot zero on in their order.
\<close>

theorem shift_is_memmove:
  assumes "submitted \<le> batch_count r" "unat (batch_count r) \<le> length (sqes r)" "length (sqes r) < 2 ^ 32"
  shows "\<exists>r'. shift_unsubmitted r submitted = Some r' \<and>
    sqes_memmove submitted (batch_count r) (sqes r) = Some (sqes r') \<and>
    sq_batch r' = drop (unat submitted) (sq_batch r)"
proof -
  have "unat (batch_count r - submitted) = unat (batch_count r) - unat submitted"
    "unat submitted \<le> unat (batch_count r)"
    using assms(1) by (simp_all add: unat_sub word_le_nat_alt)
  then show ?thesis
    using shift_reference [OF assms] assms(2)
    by (simp add: memmove_unsubmitted_def sqes_memmove_def Let_def sq_batch_def drop_take)
qed

theorem shift_is_memmove_witness:
  "\<exists>r'. shift_unsubmitted small_ring 2 = Some r' \<and> map sq_user_data (sq_batch r') = [30]"
  using shift_is_memmove [of 2 small_ring] by (auto simp: small_ring_def sq_batch_def zero_sqe_def)

text \<open>An entry is a function of its 64 bytes.\<close>

lemma sqe_at_cong:
  assumes "\<And>j :: nat. j < 64 \<Longrightarrow> m' (a' + of_nat j) = m (a + of_nat j)"
  shows "sqe_at m' a' = sqe_at m a"
proof -
  have b: "bytes m' (a' + of_nat q) n = bytes m (a + of_nat q) n" if "q + n \<le> 64" for q n :: nat
  proof (rule bytes_cong)
    fix i assume "i < n"
    then show "m' (a' + of_nat q + of_nat i) = m (a + of_nat q + of_nat i)"
      using assms [of "q + i"] that by (simp add: add.assoc)
  qed
  show ?thesis
    using assms [of 0] assms [of 1] b [of 4 4] b [of 8 8] b [of 16 8] b [of 24 4] b [of 28 4] b [of 32 8]
    by (simp add: sqe_at_def load32_def load64_def)
qed

lemma unat_ucast_u64 [simp]: "unat (ucast (w :: u32) :: u64) = unat w"
  by (simp add: unsigned_ucast_eq take_bit_nat_eq_self order.strict_trans [OF unat_lt_2p32])

lemma sqe_byte_offset:
  fixes n :: nat
  assumes "n * 64 \<le> k" "k \<le> 2 ^ 64" "i < n" "j < 64"
  shows "unat (64 * of_nat i + of_nat j :: u64) = 64 * i + j" "64 * i + j < n * 64"
proof -
  have "i + 1 \<le> n" using assms(3) by simp
  then have "(i + 1) * 64 \<le> n * 64" by (rule mult_le_mono1)
  then show lt: "64 * i + j < n * 64" using assms(4) by simp
  have "64 * of_nat i + of_nat j = (of_nat (64 * i + j) :: u64)" by simp
  moreover have "64 * i + j < 2 ^ 64" using lt assms(1,2) by linarith
  ultimately show "unat (64 * of_nat i + of_nat j :: u64) = 64 * i + j" by (simp only: unat_of_nat) simp
qed

text \<open>
  C33. The typed shift is what the code's \<open>memmove(sqes, &sqes[submitted], (batch_count - submitted) *
  sizeof(*sqes))\<close> does to the bytes of the submission array: decoding the array after the byte
  copy gives the shifted array of entries.
\<close>

theorem sqes_memmove_bytes:
  assumes le: "submitted \<le> batch" "batch \<le> n" and fit: "unat base + 64 * unat n \<le> 2 ^ 64"
  shows "sqes_memmove submitted batch (sqes_at m base n) =
    Some (sqes_at (snd (memmove m base (base + 64 * ucast submitted) (ucast (batch - submitted) * 64))) base n)"
proof -
  let ?s = "unat submitted" and ?k = "unat (batch - submitted)" and ?n = "unat n"
  let ?d = "ucast (batch - submitted) * 64 :: u64" and ?src = "base + 64 * ucast submitted :: u64"
  have k: "?k = unat batch - ?s" "?s \<le> unat batch" "unat batch \<le> ?n"
    using le by (simp_all add: unat_sub word_le_nat_alt)
  have small: "64 * x < 2 ^ 64" if "x < 2 ^ 32" for x :: nat using that by simp
  have d: "unat ?d = 64 * ?k" using small [of ?k] by (simp add: unat_word_ariths)
  have s64: "unat (64 * ucast submitted :: u64) = 64 * ?s" using small [of ?s] by (simp add: unat_word_ariths)
  have sum: "64 * ?s + 64 * ?k \<le> 64 * ?n" using k by linarith
  have src: "unat ?src \<le> unat base + 64 * ?s" by (simp add: unat_word_ariths s64)
  have pre: "memmove_pre base ?src ?d"
    using fit sum src d by (simp add: memmove_pre_def)
  let ?m = "snd (memmove m base ?src ?d)"
  have copied: "?m (base + q) = (if unat q < 64 * ?k then m (?src + q) else m (base + q))" for q
    using mov.copy_copied [OF pre, of m] d by (simp add: copied_def region_simps word_less_nat_alt)
  have bytes: "64 * ?n \<le> 2 ^ 64" using fit by linarith
  have "sqe_at ?m (base + 64 * of_nat i) =
      (if i < ?k then sqe_at m (base + 64 * of_nat (?s + i)) else sqe_at m (base + 64 * of_nat i))" if "i < ?n" for i
  proof -
    have off: "?m (base + 64 * of_nat i + of_nat j) =
        (if i < ?k then m (base + 64 * of_nat (?s + i) + of_nat j) else m (base + 64 * of_nat i + of_nat j))"
      if "j < 64" for j :: nat
    proof -
      have "unat (64 * of_nat i + of_nat j :: u64) = 64 * i + j"
        using sqe_byte_offset [of ?n "2 ^ 64" i j] bytes \<open>i < ?n\<close> that by simp
      moreover have "64 * i + j < 64 * ?k \<longleftrightarrow> i < ?k" using that by linarith
      moreover have "?src + (64 * of_nat i + of_nat j) = base + 64 * of_nat (?s + i) + of_nat j"
        by (simp add: algebra_simps)
      ultimately show ?thesis using copied [of "64 * of_nat i + of_nat j"] by (simp add: add.assoc)
    qed
    show ?thesis
    proof (cases "i < ?k")
      case True
      then show ?thesis using off by (simp only: if_True) (rule sqe_at_cong, simp)
    next
      case False
      then show ?thesis using off by (simp only: if_False) (rule sqe_at_cong, simp)
    qed
  qed
  moreover have "min (?n - ?s) (unat batch - ?s) = unat batch - ?s" using k by linarith
  ultimately show ?thesis
    using k by (auto simp: sqes_memmove_def Let_def sqes_at_def sizeof_sqe_def nth_append intro!: nth_equalityI)
qed

theorem sqes_memmove_bytes_witness:
  "map sq_user_data (sqes_at (snd (memmove ((\<lambda>_. 0)(0x1060 := 9)) 0x1000 0x1040 64)) 0x1000 2) = [9, 9]"
proof -
  have "map sq_user_data (sqes_at ((\<lambda>_. 0)(0x1060 := 9)) 0x1000 2) = [0, 9]"
    by (simp add: sqes_at_def sqe_at_def sizeof_sqe_def upt_rec load64_def bytes_def word_rcat_def)
  then obtain a z where az: "sqes_at ((\<lambda>_. 0)(0x1060 := 9)) 0x1000 2 = [a, z]" "sq_user_data z = 9"
    by (auto simp: map_eq_Cons_conv)
  have "Some (sqes_at (snd (memmove ((\<lambda>_. 0)(0x1060 := 9)) 0x1000 0x1040 64)) 0x1000 2) =
      sqes_memmove 1 2 [a, z]"
    using sqes_memmove_bytes [of 1 2 2 "0x1000" "(\<lambda>_. 0)(0x1060 := 9)"] by (simp add: az)
  then show ?thesis using az(2) by (simp add: sqes_memmove_def Let_def)
qed

section \<open>The two queues\<close>

text \<open>
  C31. The completion queue is a FIFO read through 32-bit indices that wrap: \<open>__libuc_ring_reap\<close> is
  false exactly when nothing is pending, and otherwise hands over the oldest pending completion
  and leaves the rest; reading stays inside the completion array.
\<close>

theorem ring_reap_fifo:
  assumes "ring_wf r"
  shows "\<exists>r'. ring_wf r' \<and> sqes r' = sqes r \<and> batch_count r' = batch_count r \<and>
    (case cq_pending r of
       [] \<Rightarrow> libuc_ring_reap r = Done (None, r) \<and> r' = r
     | c # cs \<Rightarrow> libuc_ring_reap r = Done (Some c, r') \<and> cq_pending r' = cs)"
  using assms reap_pending [OF assms] by (cases "cq_pending r") (auto intro!: exI [of _ "r\<lparr>cq_head := cq_head r + 1\<rparr>"])

text \<open>One completion in the last slot and one in the first: the indices wrap.\<close>

definition wrapped_ring :: ring where
  "wrapped_ring = small_ring\<lparr>cq_tail := 1, cqes := map sim_cqe [20, 0, 0, 0, 0, 0, 0, 10]\<rparr>"

theorem ring_reap_fifo_witness:
  "\<exists>r'. libuc_ring_reap wrapped_ring = Done (Some (sim_cqe 10), r') \<and> cq_pending r' = [sim_cqe 20]"
proof -
  have "ring_wf wrapped_ring" using small_ring_wf by (simp add: ring_wf_def wrapped_ring_def small_ring_def)
  moreover have "cq_pending wrapped_ring = [sim_cqe 10, sim_cqe 20]"
    by (simp add: cq_pending_def cq_view_def wrapped_ring_def small_ring_def upt_rec)
  ultimately show ?thesis using ring_reap_fifo [of wrapped_ring] by auto
qed

text \<open>
  \<open>__libuc_ring_append_sqe\<close> returns null exactly on a full batch, and otherwise the next slot,
  zeroed, inside the submission queue; the batch before it is unchanged.
\<close>

theorem ring_append_extends:
  assumes "ring_wf r"
  shows "if batch_count r = sq_entries r then libuc_ring_append_sqe r = Done (None, r)
    else \<exists>r'. libuc_ring_append_sqe r = Done (Some (batch_count r), r') \<and> ring_wf r' \<and>
      unat (batch_count r) < length (sqes r') \<and> sq_batch r' = sq_batch r @ [zero_sqe] \<and>
      cq_pending r' = cq_pending r"
proof (cases "batch_count r = sq_entries r")
  case False
  define V :: "unit kernel_view" where "V = \<lparr>v_mapped = \<lambda>_. {}, v_accepted = \<lambda>_. [], v_inflight = \<lambda>_. {#}, v_patience = \<lambda>_. 0,
    v_posts = \<lambda>_. True\<rparr>"
  obtain r' where a: "libuc_ring_append_sqe r = Done (Some (batch_count r), r')" "ring_step V [zero_sqe] r () r' ()"
    using append_slot [OF assms False, of V "()"] by auto
  then show ?thesis
    using False append_slot_bound(1) [OF assms False a(1)] by (auto simp: ring_step_def V_def)
qed (simp add: append_full)

theorem ring_append_extends_witness:
  "\<exists>r'. libuc_ring_append_sqe small_ring = Done (Some 3, r') \<and> ring_wf r'"
  using ring_append_extends [OF small_ring_wf] by (auto simp: small_ring_def)

end
