(* ===== verification/Uc_Sim_System.thy ===== *)
theory Uc_Sim_System
  imports Uc_Reactor Uc_Ring_Properties
begin

text \<open>
  A concrete system of two fibers on the simulated kernel, for the witnesses: both ready; or one
  ready and the other parked on the ring with its completion posted; or one ready and the other
  waiting to join it. The program makes the call its state names. Nothing of the model depends on it.
\<close>

abbreviation one :: u64 where "one \<equiv> 0x20F00"
abbreviation two :: u64 where "two \<equiv> 0x30F00"
abbreviation frame_two :: u64 where "frame_two \<equiv> 0x30800"
abbreviation sim_arch :: "(x86_context, x86_state) arch" where "sim_arch \<equiv> x86_64_arch 0x4000 0x5000"

definition sim_regs :: x86_state where
  "sim_regs = \<lparr>xr = (\<lambda>r. 0x1000), xip = 0, xmem = (\<lambda>a. 0x6000)\<rparr>"

definition sim_prog :: "(sim, x86_context, x86_state, call) prog" where
  "sim_prog f e c res w m k = \<lparr>m_call = w, m_regs = sim_regs, m_tp = f + 0x900, m_frame = f - 0x700, m_mem = m, m_world = w\<rparr>"

definition sim_fiber :: "u64 \<Rightarrow> u64 \<Rightarrow> u64 \<Rightarrow> x86_context fiber" where
  "sim_fiber base nxt join =
     \<lparr>f_context = x86_64_fiber_context_make 0x4000 (base + 0xF00) 0x5000 (base + 0xF00), f_entry = 0x7000, f_argument = 0,
      f_stack = base, f_stack_length = 0x1000,
      f_block = \<lparr>mapping = base + 0x1000, mapping_length = 0x1000, tls_block = base + 0x1000, thread_pointer = base + 0x1800\<rparr>,
      f_return_to = 0, f_ready_next = nxt, f_joiner = join, f_status = 0, f_life = FIBER_LIVE\<rparr>"

definition sim_system ::
    "call \<Rightarrow> u64 \<Rightarrow> activation \<Rightarrow> (u64 \<rightharpoonup> fiber_request) \<Rightarrow> u32 \<Rightarrow> u32 \<Rightarrow> ring \<Rightarrow> (sim, x86_context, call) system" where
  "sim_system c join act rqs joins parked r =
     \<lparr>mem = (\<lambda>_. 0),
      tcbs = [0x21800 \<mapsto> \<lparr>tcb_self = 0x21800, tcb_fiber = one\<rparr>, 0x31800 \<mapsto> \<lparr>tcb_self = 0x31800, tcb_fiber = two\<rparr>],
      tp = 0, auxiliary_vector = 0,
      process_layout = Some \<lparr>tls_image = 0, image_size = 0, block_size = 0, alignment = 8\<rparr>,
      kern = \<lparr>space = (0x40000, [(0x20000, 0x1000), (0x21000, 0x1000), (0x30000, 0x1000), (0x31000, 0x1000)]), log = [], flight = [],
        interrupts = 1, burst = 1\<rparr>,
      fibers = [one \<mapsto> sim_fiber 0x20000 (if act = At_entry then two else 0) join, two \<mapsto> sim_fiber 0x30000 0 0],
      requests = rqs, activations = [one \<mapsto> At_entry, two \<mapsto> act], world = c,
      sring = r, ready_head = one, ready_tail = (if act = At_entry then two else one),
      ready_count = (if act = At_entry then 2 else 1), parked_count = parked, joining_count = joins\<rparr>"

definition both_ready :: "call \<Rightarrow> (sim, x86_context, call) system" where
  "both_ready c = sim_system c 0 At_entry Map.empty 0 0 (small_ring\<lparr>batch_count := 0\<rparr>)"

definition two_parked :: "call \<Rightarrow> (sim, x86_context, call) system" where
  "two_parked c = sim_system c 0 (In_call frame_two)
     [frame_two \<mapsto> \<lparr>r_kind = REQUEST_AWAIT, r_ask = Await_argument zero_sqe, r_result = 0, r_fiber = two\<rparr>] 0 1
     (small_ring\<lparr>batch_count := 0, cq_tail := 0, cqes := replicate 8 (sim_cqe frame_two)\<rparr>)"

definition two_joining :: "call \<Rightarrow> (sim, x86_context, call) system" where
  "two_joining c = sim_system c frame_two (In_call frame_two)
     [frame_two \<mapsto> \<lparr>r_kind = REQUEST_JOIN, r_ask = Target one, r_result = 0, r_fiber = two\<rparr>] 1 0
     (small_ring\<lparr>batch_count := 0\<rparr>)"

section \<open>The invariant holds\<close>

lemma sim_regions:
  "stack_range (sim_fiber b n j) = region b 0x1000" "block_range (sim_fiber b n j) = region (b + 0x1000) 0x1000"
  by (simp_all add: sim_fiber_def stack_range_def block_range_def)

lemma sim_mapped_ranges:
  "v_mapped sim_view (kern (sim_system c j a q m p r)) = region 0x20000 0x1000 \<union> region 0x21000 0x1000 \<union> region 0x30000 0x1000 \<union> region 0x31000 0x1000"
  by (auto simp: sim_view_def sim_mapped_def sim_system_def)

lemma sim_fibers_wf: "fibers_wf (v_mapped sim_view) {one, two} (sim_system c j a q m p r)"
  unfolding fibers_wf_def sim_mapped_ranges
  by (auto simp: footprint_def sim_regions sim_system_def fiber_wf_def in_region_nat) (auto simp: sim_fiber_def)

lemma sim_fiber_inv:
  assumes "a \<noteq> At_entry \<longrightarrow> a = In_call frame_two \<and>
    (\<exists>rq. q frame_two = Some rq \<and> r_fiber rq = two \<and> r_kind rq \<noteq> REQUEST_EXIT \<and> r_kind rq \<noteq> REQUEST_PROCESS_EXIT)"
  shows "fiber_inv sim_view sim_arch {one, two} {} (sim_system c j a q m p r)"
proof (rule fiber_invI)
  fix f fb assume "f \<in> {one, two} - {}" "fibers (sim_system c j a q m p r) f = Some fb"
  then show "resumable sim_arch (sim_system c j a q m p r) f fb"
    using assms by (cases "a = At_entry") (auto simp: resumable_def suspended_at_def sim_regions sim_system_def in_region_nat
        sim_fiber_def x86_64_arch_def x86_64_fiber_context_make_def stack_range_def)
qed (simp_all add: sim_fibers_wf, auto simp: sim_system_def layout_ok_def)

lemma sim_ready_queue: "ready_queue (sim_system c j a q m p r) (if a = At_entry then [one, two] else [one])"
  by (simp add: ready_queue_def next_map_def sim_system_def sim_fiber_def)

lemma sim_kernel_ok: "kernel_ok sim_view sim_kernel"
  using sim_kernel_mmap_ok sim_kernel_munmap_ok sim_enter_ok
  by (auto simp: kernel_ok_def single_shot_def inert_def sim_view_def sim_kernel_def sim_ring_mmap_def sim_ring_munmap_def split: prod.splits)

lemma sim_ring_wf: "ring_wf (small_ring\<lparr>batch_count := 0\<rparr>)"
  using small_ring_wf by (simp add: ring_wf_def small_ring_def)

lemma sim_kinds [simp]:
  "joiner_of (sim_system c j a q m p r) f = (if f = one then j else 0)"
  "life_of (sim_system c j a q m p r) f = (if f = one \<or> f = two then FIBER_LIVE else FIBER_EXITED)"
  "alive (sim_system c j a q m p r) f = (f = one \<or> f = two)"
  by (auto simp: joiner_of_def life_of_def alive_def sim_system_def sim_fiber_def)

lemma both_ready_inv: "sched_inv sim_view sim_arch {one, two} {} [one, two] [] (both_ready c)"
proof -
  have "ring_inv sim_view [] (both_ready c)"
    using sim_ring_wf by (simp add: ring_inv_def both_ready_def sim_system_def sim_view_def sq_batch_def cq_pending_def
        cq_view_def small_ring_def)
  moreover have "wait_inv {one, two} {} [one, two] [] (both_ready c)"
    by (rule wait_invI) (auto simp: both_ready_def waiting_def joined_def, auto simp: sim_system_def)
  ultimately show ?thesis
    using sim_fiber_inv [of At_entry] sim_ready_queue [of c 0 At_entry] by (simp add: sched_inv_def both_ready_def)
qed

lemma two_parked_inv: "sched_inv sim_view sim_arch {one, two} {} [one] [frame_two] (two_parked c)"
proof -
  have r: "ring_wf (sring (two_parked c))"
    using small_ring_wf by (auto simp: two_parked_def sim_system_def ring_wf_def small_ring_def)
  have p: "cq_pending (sring (two_parked c)) = [sim_cqe frame_two]"
    by (simp add: cq_pending_def cq_view_def two_parked_def sim_system_def small_ring_def upt_rec)
  have "ring_inv sim_view [frame_two] (two_parked c)"
    using r p by (simp add: ring_inv_def) (simp add: two_parked_def sim_system_def sim_view_def sq_batch_def small_ring_def sim_cqe_def)
  moreover have w: "waits (two_parked c) two frame_two is_await"
    by (simp add: waits_def two_parked_def is_await_def) (simp add: sim_system_def)
  have "wait_inv {one, two} {} [one] [frame_two] (two_parked c)"
  proof (rule wait_invI)
    show "\<exists>f \<in> {one, two} - {}. waits (two_parked c) f q is_await" if "q \<in> set [frame_two]" for q
      using w that by auto
  qed (auto simp: two_parked_def waiting_def joined_def, auto simp: sim_system_def)
  ultimately show ?thesis
    using sim_fiber_inv [of "In_call frame_two"] sim_ready_queue [of c 0 "In_call frame_two"]
    by (simp add: sched_inv_def two_parked_def)
qed

lemma two_joining_inv: "sched_inv sim_view sim_arch {one, two} {} [one] [] (two_joining c)"
proof -
  have "ring_inv sim_view [] (two_joining c)"
    using sim_ring_wf by (simp add: ring_inv_def two_joining_def sim_system_def sim_view_def sq_batch_def cq_pending_def
        cq_view_def small_ring_def)
  moreover have w: "waits (two_joining c) two frame_two (is_join one)"
    by (simp add: waits_def two_joining_def is_join_def) (simp add: sim_system_def)
  have "joined {one, two} (two_joining c) = {one}" by (auto simp: joined_def two_joining_def)
  then have "wait_inv {one, two} {} [one] [] (two_joining c)"
  proof (intro wait_invI)
    show "\<exists>f \<in> {one, two} - {}. waits (two_joining c) f (joiner_of (two_joining c) t) (is_join t)"
      if "t \<in> {one, two}" "joiner_of (two_joining c) t \<noteq> 0" for t
      using w that by (auto simp: two_joining_def)
  qed (auto simp: two_joining_def waiting_def, auto simp: sim_system_def)
  ultimately show ?thesis
    using sim_fiber_inv [of "In_call frame_two"] sim_ready_queue [of c frame_two "In_call frame_two"]
    by (simp add: sched_inv_def two_joining_def)
qed

section \<open>The program behaves\<close>

lemma sim_resumes: "resumes_as one (sim_system c j a q m p r) = Done (Enter 0x7000 0)"
  by (simp add: resumes_as_def sim_system_def sim_fiber_def)

lemma sim_move: "next_move sim_prog one fb (sim_system c j a q m p r) =
    \<lparr>m_call = c, m_regs = sim_regs, m_tp = 0x21800, m_frame = 0x20800, m_mem = (\<lambda>_. 0), m_world = c\<rparr>"
  by (simp add: next_move_def sim_resumes sim_prog_def) (simp add: sim_system_def)

lemma sim_move_ok:
  assumes "\<And>g st. c = Call_process_exit g st \<Longrightarrow> g = one"
  shows "move_ok sim_arch one (sim_fiber 0x20000 n j)
    \<lparr>m_call = c, m_regs = sim_regs, m_tp = 0x21800, m_frame = 0x20800, m_mem = (\<lambda>_. 0), m_world = c\<rparr>"
  using assms by (auto simp: move_ok_def sim_regions in_region_nat x86_64_arch_def x86_save_def sim_regs_def)
    (simp add: sim_fiber_def)

text \<open>The front fiber of a system where both are ready.\<close>

lemma sim_one:
  "fibers (both_ready c) one = Some (sim_fiber 0x20000 two 0)" "fiber_wf (both_ready c) one (sim_fiber 0x20000 two 0)"
  "resumable sim_arch (both_ready c) one (sim_fiber 0x20000 two 0)" "resumes_as one (both_ready c) = Done (Enter 0x7000 0)"
  "sim_prog one (f_entry (sim_fiber 0x20000 two 0), f_argument (sim_fiber 0x20000 two 0)) (f_context (sim_fiber 0x20000 two 0)) (Enter 0x7000 0) (world (both_ready c)) (mem (both_ready c)) (kern (both_ready c)) =
    \<lparr>m_call = c, m_regs = sim_regs, m_tp = 0x21800, m_frame = 0x20800, m_mem = (\<lambda>_. 0), m_world = c\<rparr>"
  "tp (both_ready c) = 0"
proof -
  have i: "fiber_inv sim_view sim_arch {one, two} {} (both_ready c)" using both_ready_inv by (simp add: sched_inv_def)
  show f: "fibers (both_ready c) one = Some (sim_fiber 0x20000 two 0)" by (simp add: both_ready_def sim_system_def)
  then show "fiber_wf (both_ready c) one (sim_fiber 0x20000 two 0)"
    "resumable sim_arch (both_ready c) one (sim_fiber 0x20000 two 0)"
    using fibers_wfD [OF fiber_invD(3) [OF i], of one] fiber_invD(4) [OF i _ f] by (auto simp: sim_fiber_def)
  show "resumes_as one (both_ready c) = Done (Enter 0x7000 0)" unfolding both_ready_def by (rule sim_resumes)
  show "sim_prog one (f_entry (sim_fiber 0x20000 two 0), f_argument (sim_fiber 0x20000 two 0)) (f_context (sim_fiber 0x20000 two 0)) (Enter 0x7000 0) (world (both_ready c)) (mem (both_ready c)) (kern (both_ready c)) =
    \<lparr>m_call = c, m_regs = sim_regs, m_tp = 0x21800, m_frame = 0x20800, m_mem = (\<lambda>_. 0), m_world = c\<rparr>" "tp (both_ready c) = 0"
    by (simp_all add: sim_prog_def both_ready_def sim_system_def)
qed

lemma sim_well_behaved:
  assumes "\<And>t. target_of c = Some t \<Longrightarrow> t = one \<or> t = two" "\<And>g st. c = Call_process_exit g st \<Longrightarrow> g = one"
  shows "well_behaved sim_arch sim_prog (sim_system c j a q m p r)"
proof -
  have head: "ready_head (sim_system c j a q m p r) = one" "fibers (sim_system c j a q m p r) one = Some (sim_fiber 0x20000 (if a = At_entry then two else 0) j)"
    by (simp_all add: sim_system_def)
  show ?thesis
    unfolding well_behaved_def head option.case sim_move Let_def
    using assms(1) sim_move_ok [OF assms(2)] by (auto simp: sim_system_def split: option.splits)
qed

lemma sim_next [simp]:
  "next_call sim_prog (sim_system c j a q m p r) = c" "next_frame sim_prog (sim_system c j a q m p r) = 0x20800"
proof -
  have "ready_head (sim_system c j a q m p r) = one" by (simp add: sim_system_def)
  then show "next_call sim_prog (sim_system c j a q m p r) = c" "next_frame sim_prog (sim_system c j a q m p r) = 0x20800"
    by (simp_all add: next_call_def next_frame_def sim_move)
qed

lemma sim_turn_ready:
  assumes "\<And>t. target_of c = Some t \<Longrightarrow> t = one \<or> t = two" "\<And>g st. c = Call_process_exit g st \<Longrightarrow> g = one"
  shows "turn_ready sim_view sim_kernel sim_arch sim_prog 0x8000 {one, two} one [two] [] (both_ready c)"
    "turn_ready sim_view sim_kernel sim_arch sim_prog 0x8000 {one, two} one [] [] (two_joining c)"
  using assms sim_well_behaved both_ready_inv two_joining_inv sim_kernel_ok x86_64_fibers.fiber_arch_axioms
  by (auto simp: turn_ready_def both_ready_def two_joining_def)

end
