(* ===== verification/Uc_Run.thy ===== *)
theory Uc_Run
  imports Uc_Reactor
begin

text \<open>
  Runs of the reactor. Each iteration of its loop runs a generation and then submits, waits and reaps;
  it stops, or comes to a state of the invariant again. From that follows what a run that returns has
  done, and that a program which makes finitely many calls runs to its end: an iteration with ready
  fibers makes calls, and one without waits for a completion, which wakes a fiber.
\<close>

section \<open>Waiting\<close>

text \<open>With nobody ready and somebody parked, submitting waits until there is a completion to reap.\<close>

lemma submit_and_wait_wakes:
  assumes K: "kernel_ok V K" "enter_waits V K" and inv: "sched_inv V A F {} [] ps s" and ps: "ps \<noteq> []"
    and w: "submit_and_wait K s = ret s'"
  shows "cq_pending (sring s') \<noteq> []"
proof -
  have i: "ready_queue s []" "ring_inv V ps s" using inv by (simp_all add: sched_inv_def)
  have wf: "ring_wf (sring s)" and ok: "enter_ok V K" using i(2) K(1) by (auto simp: ring_inv_def kernel_ok_def)
  obtain res r k where sub: "libuc_ring_submit K 1 (sring s) (kern s) = ret (res, r, k)" "\<not> libuc_syscall_failed res" "sring s' = r"
    using w i(1) ring_submit_returns [OF ok wf, of 1 "kern s"]
    by (auto simp: submit_and_wait_def ready_queue_def Let_def split: if_splits)
  have "length ps = outstanding V (sring s) (kern s)"
    unfolding size_mset [symmetric, of ps] using i(2) by (simp add: ring_inv_def outstanding_def)
  then have "unat (1 :: u32) \<le> outstanding V (sring s) (kern s)" using ps by (cases ps) simp_all
  moreover have "unat (1 :: u32) \<le> unat (cq_entries (sring s))"
    using wf unat_pow2_u32 by (auto simp: ring_wf_def)
  ultimately have "unat (1 :: u32) \<le> length (cq_pending r)" by (rule submit_waits [OF ok wf K(2) sub(1,2)])
  then show ?thesis using sub(3) by auto
qed

lemma length_fold_remove1: "length (fold (\<lambda>c. remove1 (u c)) cs ps) \<le> length ps"
proof (induction cs arbitrary: ps)
  case (Cons c cs)
  from Cons [of "remove1 (u c) ps"] show ?case by (simp add: length_remove1 split: if_splits)
qed simp

lemma fold_remove1_less: "cs \<noteq> [] \<Longrightarrow> u (hd cs) \<in> set ps \<Longrightarrow> length (fold (\<lambda>c. remove1 (u c)) cs ps) < length ps"
proof (cases cs)
  case (Cons c cs')
  assume "u (hd cs) \<in> set ps"
  then have "length (remove1 (u c) ps) < length ps" using Cons length_pos_if_in_set by (fastforce simp: length_remove1)
  then show ?thesis using length_fold_remove1 [of u cs' "remove1 (u c) ps"] Cons by simp
qed simp

section \<open>Programs that wind down\<close>

text \<open>A measure of the program's state that every call it makes lowers.\<close>

definition winds_down ::
    "('k, 'y) ring_kernel_scheme \<Rightarrow> ('c, 'r) arch \<Rightarrow> ('k, 'c, 'r, 'w) prog \<Rightarrow> u64 \<Rightarrow> ('w \<Rightarrow> nat) \<Rightarrow> ('k, 'c, 'w) system \<Rightarrow> bool" where
  "winds_down K A U here m s \<longleftrightarrow> (\<forall>s' s''. reaches K A U here s s' \<longrightarrow> ready_head s' \<noteq> 0 \<longrightarrow> turn K A U here s' = ret (None, s'') \<longrightarrow>
     m (world s'') < m (world s'))"

lemma winds_down_reaches: "winds_down K A U here m s \<Longrightarrow> reaches K A U here s s' \<Longrightarrow> winds_down K A U here m s'"
  using reaches_trans by (fastforce simp: winds_down_def)

lemma generation_winds_down:
  assumes "kernel_ok V K" "fiber_arch A" "here \<noteq> 0" "behaves K A U here s" "winds_down K A U here m s"
    and "sched_inv V A F {} (xs @ ys) ps s" "unat n = length xs" "run_turns K A U here n s = ret (None, s')"
  shows "if xs = [] then s' = s else m (world s') < m (world s)"
  using assms(4-)
proof (induction xs arbitrary: n s F ps ys)
  case Nil
  then show ?case by (subst (asm) run_turns.simps) (simp add: unat_eq_0)
next
  case (Cons f xs)
  have n: "n \<noteq> 0" "unat (n - 1) = length xs" using Cons.prems(4) by (auto simp: unat_eq_0 [symmetric] unat_pred_pos)
  have q: "sched_inv V A F {} (f # xs @ ys) ps s" using Cons.prems(3) by simp
  note nx = next_turn_ready [OF assms(1-3) Cons.prems(1) q]
  obtain F' new ps' s1 where t: "turn K A U here s = ret (None, s1)" "sched_inv V A F' {} (xs @ ys @ new) ps' s1"
    using turn_carries_on [OF nx(3)] Cons.prems(5) n(1) run_turns.simps [of K A U here n s]
    by (auto simp: carries_on_def)
  have r: "reaches K A U here s s1" using reaches.turned [OF reaches.here nx(2) t(1)] .
  have less: "m (world s1) < m (world s)" using Cons.prems(2) reaches.here nx(2) t(1) unfolding winds_down_def by blast
  have "run_turns K A U here (n - 1) s1 = ret (None, s')"
    using Cons.prems(5) t(1) n(1) run_turns.simps [of K A U here n s] by simp
  from Cons.IH [OF behaves_reaches [OF Cons.prems(1) r] winds_down_reaches [OF Cons.prems(2) r] t(2) n(2) this] less
  show ?case by (auto split: if_splits)
qed

text \<open>A wait keeps the program's state, and one with nobody ready leaves fewer parked.\<close>

lemma wait_lowers:
  assumes K: "kernel_ok V K" and inv: "sched_inv V A F {} rs ps s"
  obtains "submit_and_wait K s = Some Trap"
    | s1 s2 rs' ps' where "submit_and_wait K s = ret s1" "reap_loop s1 = ret s2" "sched_inv V A F {} rs' ps' s2"
      "world s2 = world s" "enter_waits V K \<Longrightarrow> rs = [] \<Longrightarrow> ps \<noteq> [] \<Longrightarrow> length ps' < length ps"
proof -
  from submit_and_wait_inv [OF K inv] consider "submit_and_wait K s = Some Trap"
    | s1 where "submit_and_wait K s = ret s1" "sched_inv V A F {} rs ps s1" "world s1 = world s" by fastforce
  then show thesis
  proof cases
    case (2 s1)
    let ?cs = "cq_pending (sring s1)"
    from reap_loop_inv [OF 2(2) refl] obtain rs' s2 where s2: "reap_loop s1 = ret s2"
      "sched_inv V A F {} rs' (fold (\<lambda>c. remove1 (cq_user_data c)) ?cs ps) s2" "world s2 = world s1" by blast
    have "length (fold (\<lambda>c. remove1 (cq_user_data c)) ?cs ps) < length ps" if "enter_waits V K" "rs = []" "ps \<noteq> []"
    proof (rule fold_remove1_less)
      show "?cs \<noteq> []" using submit_and_wait_wakes [OF K that(1) _ that(3) 2(1)] inv that(2) by simp
      then show "cq_user_data (hd ?cs) \<in> set ps" using posted_parked [OF 2(2)] by simp
    qed
    then show thesis using that(2) 2 s2 by metis
  qed (rule that(1))
qed

section \<open>An iteration\<close>

text \<open>The body of the reactor's loop, with what comes after it as \<open>run\<close>.\<close>

definition iteration ::
    "('k, 'y) ring_kernel_scheme \<Rightarrow> ('c, 'r) arch \<Rightarrow> ('k, 'c, 'r, 'w) prog \<Rightarrow> u64 \<Rightarrow>
     (('k, 'c, 'w) system \<Rightarrow> (i32 \<times> ('k, 'c, 'w) system) run) \<Rightarrow> ('k, 'c, 'w) system \<Rightarrow> (i32 \<times> ('k, 'c, 'w) system) run" where
  "iteration K A U here run s =
     rbind (run_turns K A U here (ready_count s) s) (\<lambda>(stop, s1).
       case stop of
         Some st \<Rightarrow> ret (st, s1)
       | None \<Rightarrow> if parked_count s1 = 0 then run s1 else rbind (submit_and_wait K s1) (\<lambda>s2. rbind (reap_loop s2) run))"

lemma run_unfold:
  "libuc_scheduler_run K A U here s =
     (if parked_count s + ready_count s \<noteq> 0 then iteration K A U here (libuc_scheduler_run K A U here) s
      else if joining_count s \<noteq> 0 then Some Trap else ret (0, s))"
  unfolding iteration_def by (rule libuc_scheduler_run.simps)

lemma behaves_few:
  assumes "sched_inv V A F {} rs ps s" "behaves K A U here s"
  shows "card F < 2 ^ 32"
proof -
  have "dom (activations s) = F" using assms(1) by (auto simp: sched_inv_def fiber_inv_def)
  then show ?thesis using assms(2) reaches.here unfolding behaves_def by blast
qed

text \<open>What an iteration lowers: the program's measure, or with it unchanged the number of parked fibers.\<close>

definition descends :: "('w \<Rightarrow> nat) \<Rightarrow> ('k, 'c, 'w) system \<Rightarrow> u64 list \<Rightarrow> ('k, 'c, 'w) system \<Rightarrow> u64 list \<Rightarrow> bool" where
  "descends m s ps s' ps' \<longleftrightarrow> ((m (world s'), length ps'), (m (world s), length ps)) \<in> less_than <*lex*> less_than"

lemma iteration_cases:
  assumes K: "kernel_ok V K" "fiber_arch A" "here \<noteq> 0" and inv: "sched_inv V A F {} rs ps s" "behaves K A U here s"
    and n: "parked_count s + ready_count s \<noteq> 0"
  obtains (trapped) "\<forall>run. iteration K A U here run s = Some Trap"
    | (stopped) st s' where "\<forall>run. iteration K A U here run s = ret (st, s')" "stops_at K A U here s st s'"
    | (continued) F' rs' ps' s' where "\<forall>run. iteration K A U here run s = run s'" "sched_inv V A F' {} rs' ps' s'"
        "reaches K A U here s s'" "\<And>m. enter_waits V K \<Longrightarrow> winds_down K A U here m s \<Longrightarrow> descends m s ps s' ps'"
proof -
  note C = counters [OF inv(1) behaves_few [OF inv]]
  have gen: "carries_on V A [] (run_turns K A U here (ready_count s) s)"
    and reach: "\<And>s'. run_turns K A U here (ready_count s) s = ret (None, s') \<Longrightarrow> reaches K A U here s s'"
    and stop: "\<And>st s'. run_turns K A U here (ready_count s) s = ret (Some st, s') \<Longrightarrow> stops_at K A U here s st s'"
    using run_turns_generation [OF K inv(2), of F rs "[]" ps "ready_count s"] inv(1) C(1) by auto
  have idle: "s' = s" if "rs = []" "run_turns K A U here (ready_count s) s = ret (None, s')" for s'
    using that C(1) by (subst (asm) run_turns.simps) (simp add: unat_eq_0)
  have down: "m (world s') < m (world s)"
    if "winds_down K A U here m s" "rs \<noteq> []" "run_turns K A U here (ready_count s) s = ret (None, s')" for m s'
    using generation_winds_down [OF K inv(2) that(1), of F rs "[]" ps "ready_count s" s'] inv(1) C(1) that(2,3) by simp
  from gen consider "run_turns K A U here (ready_count s) s = Some Trap"
    | st s1 where "run_turns K A U here (ready_count s) s = ret (Some st, s1)"
    | F1 rs1 ps1 s1 where "run_turns K A U here (ready_count s) s = ret (None, s1)" "sched_inv V A F1 {} rs1 ps1 s1"
      "rs = [] \<Longrightarrow> rs1 = [] \<and> ps1 = ps"
    using inv(1) idle by (fastforce simp: carries_on_def)
  then show thesis
  proof cases
    case (3 F1 rs1 ps1 s1)
    note r1 = reach [OF 3(1)]
    show thesis
    proof (cases "parked_count s1 = 0")
      case True
      then have "rs \<noteq> []" using idle [OF _ 3(1)] n C(1) unat_eq_0 by fastforce
      then show thesis
        using 3(1) True by (intro continued [OF _ 3(2) r1]) (auto simp: iteration_def descends_def dest!: down [OF _ _ 3(1)])
    next
      case p: False
      from wait_lowers [OF K(1) 3(2)] show thesis
      proof cases
        case 1
        then show thesis using 3(1) p by (intro trapped) (simp add: iteration_def)
      next
        case (2 s2 s3 rs3 ps3)
        show thesis
        proof (rule continued [OF _ 2(3) reaches.waited [OF r1 p 2(1,2)]])
          show "\<forall>run. iteration K A U here run s = run s3" using 3(1) p 2(1,2) by (simp add: iteration_def)
          show "descends m s ps s3 ps3" if "enter_waits V K" "winds_down K A U here m s" for m
            using 2(4,5) 3(3) idle [OF _ 3(1)] down [OF that(2) _ 3(1)] that(1) n C(3) by (cases "rs = []") (auto simp: descends_def)
        qed
      qed
    qed
  qed (use trapped stopped stop in \<open>auto simp: iteration_def\<close>)
qed

section \<open>What a run has done\<close>

definition finished ::
    "'k kernel_view \<Rightarrow> ('k, 'y) ring_kernel_scheme \<Rightarrow> ('c, 'r) arch \<Rightarrow> ('k, 'c, 'r, 'w) prog \<Rightarrow> u64 \<Rightarrow> ('k, 'c, 'w) system \<Rightarrow>
     (i32 \<times> ('k, 'c, 'w) system) outcome \<Rightarrow> bool" where
  "finished V K A U here s y \<longleftrightarrow> y = Trap \<or> (\<exists>st s'. y = Done (st, s') \<and> (stops_at K A U here s st s' \<or>
     st = 0 \<and> reaches K A U here s s' \<and> (\<exists>F. sched_inv V A F {} [] [] s' \<and> joined F s' = {})))"

lemma finished_reaches: "finished V K A U here s1 y \<Longrightarrow> reaches K A U here s s1 \<Longrightarrow> finished V K A U here s y"
  using reaches_trans unfolding finished_def stops_at_def by blast

lemma run_step:
  assumes K: "kernel_ok V K" "fiber_arch A" "here \<noteq> 0" and inv: "sched_inv V A F {} rs ps s" "behaves K A U here s"
    and IH: "\<And>F rs ps s y. run s = Some y \<Longrightarrow> sched_inv V A F {} rs ps s \<Longrightarrow> behaves K A U here s \<Longrightarrow> finished V K A U here s y"
    and body: "(if parked_count s + ready_count s \<noteq> 0 then iteration K A U here run s
      else if joining_count s \<noteq> 0 then Some Trap else ret (0, s)) = Some y"
  shows "finished V K A U here s y"
proof (cases "parked_count s + ready_count s = 0")
  case True
  note C = counters [OF inv(1) behaves_few [OF inv]]
  from True have "rs = []" "ps = []" using C(3) by blast+
  then show ?thesis
    using body True C(4) inv(1) reaches.here [of K A U here s] by (auto simp: finished_def split: if_splits)
next
  case False
  from iteration_cases [OF K inv False] show ?thesis
  proof cases
    case (3 F' rs' ps' s')
    have "run s' = Some y" using body False 3(1) by simp
    from finished_reaches [OF IH [OF this 3(2) behaves_reaches [OF inv(2) 3(3)]] 3(3)] show ?thesis .
  qed (use body False in \<open>auto simp: finished_def\<close>)
qed

lemma run_outcome:
  assumes K: "kernel_ok V K" "fiber_arch A" "here \<noteq> 0" and r: "libuc_scheduler_run K A U here s = Some y"
    and inv: "sched_inv V A F {} rs ps s" "behaves K A U here s"
  shows "finished V K A U here s y"
proof -
  define P where "P = (\<lambda>K' A' U' here' s y. K' = K \<longrightarrow> A' = A \<longrightarrow> U' = U \<longrightarrow> here' = here \<longrightarrow>
    (\<forall>F rs ps. sched_inv V A F {} rs ps s \<longrightarrow> behaves K A U here s \<longrightarrow> finished V K A U here s y))"
  have "P K A U here s y"
  proof (rule libuc_scheduler_run.raw_induct [OF _ r])
    fix run K' A' U' here' s y
    assume IH: "\<And>K' A' U' here' s y. run K' A' U' here' s = Some y \<Longrightarrow> P K' A' U' here' s y"
      and body: "(if parked_count s + ready_count s \<noteq> 0
        then rbind (run_turns K' A' U' here' (ready_count s) s) (\<lambda>(stop, s1).
          case stop of
            Some st \<Rightarrow> ret (st, s1)
          | None \<Rightarrow> if parked_count s1 = 0 then run K' A' U' here' s1
              else rbind (submit_and_wait K' s1) (\<lambda>s2. rbind (reap_loop s2) (run K' A' U' here')))
        else if joining_count s \<noteq> 0 then Some Trap else ret (0, s)) = Some y"
    show "P K' A' U' here' s y"
      unfolding P_def
    proof (intro impI allI)
      fix F rs ps assume eq: "K' = K" "A' = A" "U' = U" "here' = here" and i: "sched_inv V A F {} rs ps s" "behaves K A U here s"
      show "finished V K A U here s y"
      proof (rule run_step [OF K i, where run = "run K A U here"])
        fix F rs ps s y assume "run K A U here s = Some y" "sched_inv V A F {} rs ps s" "behaves K A U here s"
        with IH [of K A U here s y] show "finished V K A U here s y" unfolding P_def by blast
      qed (rule body [unfolded eq, folded iteration_def])
    qed
  qed
  then show ?thesis using inv unfolding P_def by blast
qed

section \<open>Runs return\<close>

lemma run_returns:
  assumes K: "kernel_ok V K" "fiber_arch A" "here \<noteq> 0" and W: "enter_waits V K"
    and "sched_inv V A F {} rs ps s" "behaves K A U here s" "winds_down K A U here m s"
  shows "libuc_scheduler_run K A U here s \<noteq> None"
  using assms(5-)
proof (induction "(m (world s), length ps)" arbitrary: s F rs ps
    rule: wf_induct_rule [OF wf_lex_prod [OF wf_less_than wf_less_than]])
  case 1
  note unf = run_unfold [of K A U here s]
  show ?case
  proof (cases "parked_count s + ready_count s = 0")
    case False
    from iteration_cases [OF K 1(2,3) False] show ?thesis
    proof cases
      case (3 F' rs' ps' s')
      have "libuc_scheduler_run K A U here s' \<noteq> None"
        using 3(4) [OF W 1(4)] unfolding descends_def
        by (rule 1(1) [OF _ 3(2) behaves_reaches [OF 1(3) 3(3)] winds_down_reaches [OF 1(4) 3(3)]])
      then show ?thesis using False 3(1) by (simp add: unf)
    qed (use False in \<open>simp_all add: unf\<close>)
  qed (simp add: unf)
qed

end
