(* ===== verification/Uc_Reactor_Properties.thy ===== *)
theory Uc_Reactor_Properties
  imports Uc_Sim_System Uc_Run
begin

text \<open>
  The properties of the reactor, each with a witness on the two simulated fibers: what every turn and
  every run keeps, who runs when, and what each call of a fiber does.
\<close>

section \<open>Runs of the simulated system\<close>

text \<open>With \<open>one\<close> about to stop the process, the reactor comes to no other state.\<close>

lemma sim_turn_stops: "\<exists>s'. turn sim_kernel sim_arch sim_prog 0x8000 (both_ready (Call_process_exit one 3)) = ret (Some 3, s')"
proof -
  let ?s = "both_ready (Call_process_exit one 3)"
  have "turn_ready sim_view sim_kernel sim_arch sim_prog 0x8000 {one, two} one [two] [] ?s"
    by (rule sim_turn_ready(1)) (simp_all add: target_of_def)
  then obtain gb s2 where t: "turn sim_kernel sim_arch sim_prog 0x8000 ?s = handle sim_kernel sim_arch one 0x20800 s2"
    "asking sim_view sim_arch {one, two} [two] [] s2 one gb 0x20800
      \<lparr>r_kind = REQUEST_PROCESS_EXIT, r_ask = Status (scast (3 :: i32)), r_result = 0, r_fiber = one\<rparr>"
    by (rule turn_asks) (simp add: both_ready_def)
  then show ?thesis using askingD(5) [OF t(2)] by (simp add: handle_def ucast_scast_i32)
qed

lemma sim_stops_behaves: "behaves sim_kernel sim_arch sim_prog 0x8000 (both_ready (Call_process_exit one 3))"
proof -
  let ?s = "both_ready (Call_process_exit one 3)"
  have "s' = ?s" if "reaches sim_kernel sim_arch sim_prog 0x8000 ?s s'" for s'
    using that
  proof (induction "?s" s' rule: reaches.induct)
    case (turned s' s'')
    then show ?case using sim_turn_stops by auto
  next
    case (waited s' s1 s'')
    then show ?case by (simp add: both_ready_def sim_system_def)
  qed simp
  moreover have "card (dom (activations ?s)) < 2 ^ 32" by (simp add: both_ready_def sim_system_def)
  moreover have "well_behaved sim_arch sim_prog ?s"
    unfolding both_ready_def by (rule sim_well_behaved) (simp_all add: target_of_def)
  ultimately show ?thesis unfolding behaves_def by blast
qed

lemma sim_run_stops:
  "\<exists>s'. libuc_scheduler_run sim_kernel sim_arch sim_prog 0x8000 (both_ready (Call_process_exit one 3)) = ret (3, s')"
proof -
  let ?s = "both_ready (Call_process_exit one 3)"
  obtain s' where t: "turn sim_kernel sim_arch sim_prog 0x8000 ?s = ret (Some 3, s')" using sim_turn_stops by blast
  have c: "parked_count ?s = 0" "ready_count ?s = 2" by (simp_all add: both_ready_def sim_system_def)
  have "run_turns sim_kernel sim_arch sim_prog 0x8000 2 ?s = ret (Some 3, s')" by (subst run_turns.simps) (simp add: t)
  then show ?thesis by (subst libuc_scheduler_run.simps) (simp add: c)
qed

text \<open>With each of the two joining the other, nobody is ready.\<close>

lemma sim_join_cycle:
  "\<exists>s'. turn sim_kernel sim_arch sim_prog 0x8000 (two_joining (Call_join two)) = ret (None, s') \<and>
    sched_inv sim_view sim_arch {one, two} {} [] [] s' \<and> joiner_of s' two = 0x20800"
proof -
  let ?s = "two_joining (Call_join two)"
  have "turn_ready sim_view sim_kernel sim_arch sim_prog 0x8000 {one, two} one [] [] ?s"
    by (rule sim_turn_ready(2)) (simp_all add: target_of_def)
  then obtain gb s2 where t: "turn sim_kernel sim_arch sim_prog 0x8000 ?s = handle sim_kernel sim_arch one 0x20800 s2"
    "asking sim_view sim_arch {one, two} [] [] s2 one gb 0x20800
      \<lparr>r_kind = REQUEST_JOIN, r_ask = Target two, r_result = 0, r_fiber = one\<rparr>"
    "\<And>t. t \<noteq> one \<Longrightarrow> life_of s2 t = life_of ?s t" "\<And>t. joiner_of s2 t = joiner_of ?s t"
    by (rule turn_asks) (simp add: two_joining_def)
  note D = askingD [OF t(2)]
  obtain tb where tb: "fibers s2 two = Some tb" using fibers_wfD [OF fiber_invD(3) [OF D(11)], of two] by auto
  then have "f_joiner tb = 0" "f_life tb = FIBER_LIVE"
    using t(3) [of two] t(4) [of two] by (simp_all add: joiner_of_def [of s2] life_of_def [of s2] two_joining_def)
  then obtain s' where "handle_join sim_kernel one 0x20800 s2 = Done s'"
    "sched_inv sim_view sim_arch {one, two} {} [] [] s'" "joiner_of s' two = 0x20800"
    using join_live [OF t(2) _ _ _ _ tb] by auto
  then show ?thesis using D(5) by (simp add: t(1) handle_def)
qed

lemma sim_cycle_behaves: "behaves sim_kernel sim_arch sim_prog 0x8000 (two_joining (Call_join two))"
proof -
  let ?s = "two_joining (Call_join two)"
  obtain s1 where s1: "turn sim_kernel sim_arch sim_prog 0x8000 ?s = ret (None, s1)"
    "sched_inv sim_view sim_arch {one, two} {} [] [] s1" using sim_join_cycle by blast
  then have e: "ready_head s1 = 0" "parked_count s1 = 0" "dom (activations s1) = {one, two}"
    by (auto simp: sched_inv_def ready_queue_def ring_inv_def fiber_inv_def)
  have two: "s' = ?s \<or> s' = s1" if "reaches sim_kernel sim_arch sim_prog 0x8000 ?s s'" for s'
    using that
  proof (induction "?s" s' rule: reaches.induct)
    case (turned s' s'')
    then show ?case using s1(1) e(1) by auto
  next
    case (waited s' s2 s'')
    then show ?case using e(2) by (auto simp: two_joining_def sim_system_def)
  qed simp
  have "dom (activations ?s) = {one, two}" by (auto simp: two_joining_def sim_system_def)
  moreover have "well_behaved sim_arch sim_prog ?s"
    unfolding two_joining_def by (rule sim_well_behaved) (simp_all add: target_of_def)
  ultimately show ?thesis unfolding behaves_def using two e by (auto dest!: two)
qed

section \<open>Properties\<close>

text \<open>C4. A turn of a well-behaved program always returns: it stops the process on a trap or on a process-exit
  request, or leaves the reactor in a state where the invariant holds again, with the fibers that
  were ready before it ahead of whatever became ready. It never touches a fiber, request or control
  block that is not there.\<close>

theorem turn_keeps_invariant:
  assumes "turn_ready V K A U here F f rs ps s"
  shows "turn K A U here s \<noteq> None \<and> turn K A U here s \<noteq> Some Fault \<and>
    (\<forall>s'. turn K A U here s = ret (None, s') \<longrightarrow> (\<exists>F' new ps'. sched_inv V A F' {} (rs @ new) ps' s'))"
  using turn_carries_on [OF assms] by (auto simp: carries_on_def; blast)

theorem turn_keeps_invariant_witness:
  "turn sim_kernel sim_arch sim_prog 0x8000 (two_joining (Return 0)) \<noteq> Some Fault \<and> turn sim_kernel sim_arch sim_prog 0x8000 (two_joining (Return 0)) \<noteq> None"
  using turn_keeps_invariant [OF sim_turn_ready(2), of "Return 0"] by (simp add: target_of_def)

text \<open>Where a fiber that has not exited is.\<close>

lemma placed:
  assumes "sched_inv V A F {} rs ps s" and "f \<in> F" "alive s f"
  shows "let ready = (f \<in> set rs); parked = (\<exists>q \<in> set ps. waits s f q is_await);
      joining = (\<exists>t \<in> F. joiner_of s t \<noteq> 0 \<and> life_of s t = FIBER_LIVE \<and> waits s f (joiner_of s t) (is_join t))
    in (ready \<or> parked \<or> joining) \<and> \<not> (ready \<and> parked) \<and> \<not> (ready \<and> joining) \<and> \<not> (parked \<and> joining)"
proof -
  have i: "fiber_inv V A F {} s" "wait_inv F {} rs ps s" using assms(1) by (simp_all add: sched_inv_def)
  note D = wait_invD [OF i(2)]
  have own: "g = f" if "g \<in> F - {}" "waits s g q P" "activations s f = Some (In_call q)" for g q P
    using activation_unique [OF i(1), of g q f] that assms(2,3) by (auto simp: waits_def)
  have w: "\<not> (f \<in> set rs \<and> waits s f q P \<and> waiting F ps s q)" for q P
    using waits_not_ready [OF i(2)] assms(2) by blast
  have "f \<in> set rs \<or> (\<exists>q \<in> set ps. waits s f q is_await) \<or>
    (\<exists>t \<in> F. joiner_of s t \<noteq> 0 \<and> life_of s t = FIBER_LIVE \<and> waits s f (joiner_of s t) (is_join t))"
  proof (cases "f \<in> set rs")
    case False
    then obtain q where q: "activations s f = Some (In_call q)" "waiting F ps s q"
      using D(7) [of f] assms(2,3) by auto
    from q(2) consider "q \<in> set ps" | t where "t \<in> F" "joiner_of s t = q" "q \<noteq> 0" by (auto simp: waiting_def)
    then show ?thesis
    proof cases
      case 1
      then show ?thesis using D(3) [of q] own q(1) by blast
    next
      case (2 t)
      then show ?thesis using D(4,5) [of t] own q(1) by blast
    qed
  qed blast
  moreover have "waiting F ps s q" if "q \<in> set ps" for q using that by (simp add: waiting_def)
  moreover have "waiting F ps s (joiner_of s t)" if "t \<in> F" "joiner_of s t \<noteq> 0" for t using that by (auto simp: waiting_def)
  moreover have "\<not> (waits s f q is_await \<and> waits s f q' (is_join t))" for q q' t
    by (auto simp: waits_def is_await_def is_join_def)
  ultimately show ?thesis using w unfolding Let_def by blast
qed

text \<open>C11. No fiber is lost: at every state the reactor comes to, every fiber that has not exited is in exactly one of three
  places. It is on the chain of the ready queue, or it waits for an operation that the ring's batch, the
  kernel or the completion queue holds, or it waits in the record of a fiber that has not exited either.\<close>

theorem no_fiber_lost:
  assumes "kernel_ok V K" "fiber_arch A" "here \<noteq> 0" and "sched_inv V A F {} rs ps s" "behaves K A U here s"
    and "reaches K A U here s s'" and "f \<in> dom (activations s')" "alive s' f"
    and "held = mset (map sq_user_data (sq_batch (sring s'))) + v_inflight V (kern s') + mset (map cq_user_data (cq_pending (sring s')))"
  shows "\<exists>q. ready_queue s' q \<and> (let ready = (f \<in> set q); parked = (\<exists>x \<in># held. waits s' f x is_await);
      joining = (\<exists>t \<in> dom (activations s'). joiner_of s' t \<noteq> 0 \<and> life_of s' t = FIBER_LIVE \<and> waits s' f (joiner_of s' t) (is_join t))
    in (ready \<or> parked \<or> joining) \<and> \<not> (ready \<and> parked) \<and> \<not> (ready \<and> joining) \<and> \<not> (parked \<and> joining))"
proof -
  obtain F' rs' ps' where i: "sched_inv V A F' {} rs' ps' s'" using reaches_inv [OF assms(6,1-5)] by blast
  have F: "F' = dom (activations s')" using i by (auto simp: sched_inv_def fiber_inv_def)
  have "mset ps' = held" using i by (simp add: sched_inv_def ring_inv_def assms(9))
  then have h: "set_mset held = set ps'" by (metis set_mset_mset)
  have q: "ready_queue s' rs'" using i by (simp add: sched_inv_def)
  show ?thesis by (rule exI [of _ rs'], rule conjI [OF q], unfold h) (rule placed [OF i [unfolded F] assms(7,8)])
qed

theorem no_fiber_lost_witness:
  "\<exists>s' g. turn sim_kernel sim_arch sim_prog 0x8000 (two_joining (Call_join two)) = ret (None, s') \<and> alive s' g \<and> ready_head s' = 0 \<and>
    (\<exists>t \<in> dom (activations s'). joiner_of s' t \<noteq> 0 \<and> life_of s' t = FIBER_LIVE \<and> waits s' g (joiner_of s' t) (is_join t))"
proof -
  let ?s = "two_joining (Call_join two)"
  obtain s' where s': "turn sim_kernel sim_arch sim_prog 0x8000 ?s = ret (None, s')"
    "sched_inv sim_view sim_arch {one, two} {} [] [] s'" "joiner_of s' two = 0x20800" using sim_join_cycle by blast
  have r: "reaches sim_kernel sim_arch sim_prog 0x8000 ?s s'"
    by (rule reaches.turned [OF reaches.here _ s'(1)]) (simp add: two_joining_def sim_system_def)
  have w: "wait_inv {one, two} {} [] [] s'" and e: "ready_head s' = 0" "ring_inv sim_view [] s'" "dom (activations s') = {one, two}"
    using s'(2) by (auto simp: sched_inv_def ready_queue_def fiber_inv_def)
  obtain g where g: "g \<in> {one, two}" "alive s' g" using wait_invD(5) [OF w, of two] s'(3) by (auto simp: waits_def)
  have n: "q = []" if "ready_queue s' q" for q using that e(1) by (cases q) (auto simp: ready_queue_def dest: chain_non_null)
  have h: "mset (map sq_user_data (sq_batch (sring s'))) + v_inflight sim_view (kern s') + mset (map cq_user_data (cq_pending (sring s'))) = {#}"
    using e(2) by (simp add: ring_inv_def)
  have "\<exists>t \<in> dom (activations s'). joiner_of s' t \<noteq> 0 \<and> life_of s' t = FIBER_LIVE \<and> waits s' g (joiner_of s' t) (is_join t)"
    using no_fiber_lost [OF sim_kernel_ok x86_64_fibers.fiber_arch_axioms _ two_joining_inv sim_cycle_behaves r _ g(2) refl] g(1) n
    unfolding h e(3) Let_def by fastforce
  then show ?thesis using s'(1) g(2) e(1) by blast
qed

text \<open>C5. A run of a well-behaved program never touches memory that is not there, however long it runs: if it
  ends, it ends by trapping or by returning.\<close>

theorem scheduler_run_safe:
  assumes "kernel_ok V K" "fiber_arch A" "here \<noteq> 0" and "sched_inv V A F {} rs ps s" "behaves K A U here s"
  shows "libuc_scheduler_run K A U here s \<noteq> Some Fault"
  using run_outcome [OF assms(1-3) _ assms(4,5)] by (auto simp: finished_def)

theorem scheduler_run_safe_witness:
  "libuc_scheduler_run sim_kernel sim_arch sim_prog 0x8000 (both_ready (Call_process_exit one 3)) \<noteq> Some Fault"
  using scheduler_run_safe [OF sim_kernel_ok x86_64_fibers.fiber_arch_axioms _ both_ready_inv sim_stops_behaves] by simp

text \<open>C10. A run that returns has either been stopped at a state it came to, where the fiber whose turn it was
  made a process-exit request with exactly the status the run returns (\<open>stops_at\<close>), or returns zero with no
  fiber left that could still run.\<close>

theorem scheduler_run_result:
  assumes "kernel_ok V K" "fiber_arch A" "here \<noteq> 0" and "sched_inv V A F {} rs ps s" "behaves K A U here s"
    and "libuc_scheduler_run K A U here s = ret (st, s')"
  shows "stops_at K A U here s st s' \<or> st = 0 \<and> reaches K A U here s s' \<and> (\<forall>f \<in> dom (activations s'). \<not> alive s' f)"
proof -
  consider "stops_at K A U here s st s'" | F' where "st = 0" "reaches K A U here s s'" "sched_inv V A F' {} [] [] s'" "joined F' s' = {}"
    using run_outcome [OF assms(1-3,6,4,5)] by (auto simp: finished_def)
  then show ?thesis
  proof cases
    case 2
    then have "dom (activations s') = F'" by (auto simp: sched_inv_def fiber_inv_def)
    then show ?thesis using 2 nobody_left by blast
  qed blast
qed

theorem scheduler_run_result_witness:
  "\<exists>s'. libuc_scheduler_run sim_kernel sim_arch sim_prog 0x8000 (both_ready (Call_process_exit one 3)) = ret (3, s') \<and>
    stops_at sim_kernel sim_arch sim_prog 0x8000 (both_ready (Call_process_exit one 3)) 3 s'"
proof -
  obtain s' where "libuc_scheduler_run sim_kernel sim_arch sim_prog 0x8000 (both_ready (Call_process_exit one 3)) = ret (3, s')"
    using sim_run_stops by blast
  then show ?thesis
    using scheduler_run_result [OF sim_kernel_ok x86_64_fibers.fiber_arch_axioms _ both_ready_inv sim_stops_behaves, of 3 s'] by simp
qed

text \<open>C12. Every fiber gets its turn: a generation makes exactly one turn for each fiber that was ready when it
  began, in the order they became ready, and no more; what became ready meanwhile waits for the next
  generation. A generation that is cut short made those turns for the fibers ahead of one that asked
  for the process to exit, in its own turn. So a fiber that is ready is resumed before any other is resumed twice.\<close>

theorem generation_resumes_in_order:
  assumes "kernel_ok V K" "fiber_arch A" "here \<noteq> 0" and "sched_inv V A F {} rs ps s" "behaves K A U here s"
  shows "(run_turns K A U here (ready_count s) s = ret (None, s') \<longleftrightarrow> turns K A U here s rs s') \<and>
    (run_turns K A U here (ready_count s) s = ret (Some st, s') \<longleftrightarrow>
      (\<exists>fs f gs s1. rs = fs @ f # gs \<and> turns K A U here s fs s1 \<and> ready_head s1 = f \<and>
         next_call U s1 = Call_process_exit f st \<and> turn K A U here s1 = ret (Some st, s'))) \<and>
    (turns K A U here s rs s' \<longrightarrow> (\<exists>F' new ps'. sched_inv V A F' {} new ps' s'))"
proof -
  note n = counters(1) [OF assms(4) behaves_few [OF assms(4,5)]]
  have i: "sched_inv V A F {} (rs @ []) ps s" using assms(4) by simp
  show ?thesis
    using run_turns_turns [OF assms(1-3,5) i n, of s' st] run_turns_generation [OF assms(1-3,5) i n]
    by (auto simp: carries_on_def)
qed

theorem generation_resumes_in_order_witness:
  "\<exists>s'. run_turns sim_kernel sim_arch sim_prog 0x8000 1 (two_joining (Call_join two)) = ret (None, s') \<and>
    turns sim_kernel sim_arch sim_prog 0x8000 (two_joining (Call_join two)) [one] s'"
proof -
  let ?s = "two_joining (Call_join two)"
  obtain s' where "turn sim_kernel sim_arch sim_prog 0x8000 ?s = ret (None, s')" using sim_join_cycle by blast
  then have r: "run_turns sim_kernel sim_arch sim_prog 0x8000 1 ?s = ret (None, s')"
    by (subst run_turns.simps) (simp add: run_turns.simps [of _ _ _ _ 0])
  have c: "ready_count ?s = 1" by (simp add: two_joining_def sim_system_def)
  show ?thesis
    using generation_resumes_in_order [OF sim_kernel_ok x86_64_fibers.fiber_arch_axioms _ two_joining_inv sim_cycle_behaves, of s'] r
    by (simp add: c)
qed

text \<open>C13. The reap loop always ends. It answers every completion posted on the ring: the request the completion
  names gets the operation's result, sign-extended, and the fiber waiting in that request, and no
  other, goes to the back of the ready queue, in the order the completions were posted.\<close>

theorem completions_wake_in_order:
  assumes "sched_inv V A F {} rs ps s"
  shows "\<exists>s' ps'. reap_loop s = ret s' \<and> cq_pending (sring s') = [] \<and>
    sched_inv V A F {} (rs @ map (\<lambda>c. r_fiber (the (requests s (cq_user_data c)))) (cq_pending (sring s))) ps' s' \<and>
    (\<forall>c \<in> set (cq_pending (sring s)).
       map_option r_result (requests s' (cq_user_data c)) = Some (scast (cq_res c)))"
proof -
  have some: "\<exists>rq. requests s (cq_user_data c) = Some rq" if "c \<in> set (cq_pending (sring s))" for c
    using posted_awaited [OF assms that] unfolding waits_def by metis
  obtain s' where s': "reap_loop s = ret s'" "cq_pending (sring s') = []"
    "sched_inv V A F {} (rs @ map (\<lambda>c. r_fiber (the (requests s (cq_user_data c)))) (cq_pending (sring s)))
       (fold (\<lambda>c. remove1 (cq_user_data c)) (cq_pending (sring s)) ps) s'"
    "\<forall>c \<in> set (cq_pending (sring s)). requests s' (cq_user_data c) =
       map_option (\<lambda>rq. rq\<lparr>r_result := scast (cq_res c)\<rparr>) (requests s (cq_user_data c))"
    using reap_loop_inv [OF assms refl] by blast
  then show ?thesis using some by fastforce
qed

theorem completions_wake_in_order_witness:
  "\<exists>s' ps'. reap_loop (two_parked Call_yield) = ret s' \<and> sched_inv sim_view sim_arch {one, two} {} [one, two] ps' s' \<and>
    map_option r_result (requests s' frame_two) = Some 42"
proof -
  have p: "cq_pending (sring (two_parked Call_yield)) = [sim_cqe frame_two]"
    by (simp add: cq_pending_def cq_view_def two_parked_def sim_system_def small_ring_def upt_rec)
  have "requests (two_parked Call_yield) frame_two =
      Some \<lparr>r_kind = REQUEST_AWAIT, r_ask = Await_argument zero_sqe, r_result = 0, r_fiber = two\<rparr>"
    by (simp add: two_parked_def sim_system_def)
  then show ?thesis using completions_wake_in_order [OF two_parked_inv, of Call_yield] by (auto simp: p sim_cqe_def)
qed

text \<open>C18. A fiber that awaits an operation leaves the ready queue and is parked: the entry it gave, with its
  request's address as the user data, is the last of what the ring has been given, and no more
  operations are parked than the completion queue holds. The reactor traps instead when the entry
  has flags, when the completion queue could overflow, and when a full batch cannot be submitted.\<close>

theorem turn_await_parks:
  assumes "turn_ready V K A U here F f rs ps s" and "next_call U s = Call_await e" and "q = next_frame U s"
  shows "if sq_flags e \<noteq> 0 \<or> length ps = unat (cq_entries (sring s)) \<or> flush_fails K s
    then turn K A U here s = Some Trap
    else \<exists>s'. turn K A U here s = ret (None, s') \<and> sched_inv V A F {} rs (ps @ [q]) s' \<and>
      length (ps @ [q]) \<le> unat (cq_entries (sring s')) \<and>
      ring_step V [e\<lparr>sq_user_data := q\<rparr>] (sring s) (kern s) (sring s') (kern s')"
proof -
  let ?rq = "\<lparr>r_kind = REQUEST_AWAIT, r_ask = Await_argument e, r_result = 0, r_fiber = f\<rparr>"
  obtain gb s2 where t: "turn K A U here s = handle K A f q s2" "asking V A F rs ps s2 f gb q ?rq"
    "sring s2 = sring s" "kern s2 = kern s"
    using turn_asks [OF assms(1)] assms(2,3) by (metis call_ask.simps(1) call_kind.simps(2))
  have K: "kernel_ok V K" using assms(1) by (simp add: turn_ready_def)
  have h: "turn K A U here s = rbind (park K q s2) (\<lambda>s'. ret (None, s'))"
    using askingD(5) [OF t(2)] by (simp add: t(1) handle_def)
  have ff: "flush_fails K s2 = flush_fails K s" by (simp add: flush_fails_def t(3,4))
  show ?thesis
    using park_inv [OF K t(2)] by (auto simp: h ff t(3,4) sched_inv_def ring_inv_def)
qed

theorem turn_await_parks_witness:
  "\<exists>s'. turn sim_kernel sim_arch sim_prog 0x8000 (both_ready (Call_await zero_sqe)) = ret (None, s') \<and>
    sched_inv sim_view sim_arch {one, two} {} [two] [0x20800] s'"
proof -
  have "\<not> flush_fails sim_kernel (both_ready (Call_await zero_sqe))"
    by (simp add: flush_fails_def both_ready_def sim_system_def small_ring_def)
  moreover have "cq_entries (sring (both_ready (Call_await zero_sqe))) = 8"
    by (simp add: both_ready_def sim_system_def small_ring_def)
  ultimately show ?thesis
    using turn_await_parks [OF sim_turn_ready(1), of "Call_await zero_sqe" zero_sqe] by (auto simp: target_of_def both_ready_def zero_sqe_def)
qed

text \<open>C14. When a fiber exits: a detached one is reclaimed; one that nobody joined yet stays, exited, with its
  status; one that is being joined hands its status, sign-extended, to the waiting join, is reclaimed,
  and the joiner goes to the back of the queue.\<close>

theorem turn_exit_cases:
  assumes "turn_ready V K A U here F f rs ps s" and "exit_status (next_call U s) = Some st"
  shows "if life_of s f = FIBER_DETACHED then turn K A U here s = Some Trap \<or>
      (\<exists>s'. turn K A U here s = ret (None, s') \<and> sched_inv V A (F - {f}) {} rs ps s')
    else if joiner_of s f = 0 then
      \<exists>s'. turn K A U here s = ret (None, s') \<and> sched_inv V A F {} rs ps s' \<and> life_of s' f = FIBER_EXITED \<and> status_of s' f = st
    else turn K A U here s = Some Trap \<or>
      (\<exists>g s'. turn K A U here s = ret (None, s') \<and> g \<in> F - {f} \<and> waits s g (joiner_of s f) (is_join f) \<and>
        sched_inv V A (F - {f}) {} (rs @ [g]) ps s' \<and> fibers s' f = None \<and>
        map_option r_result (requests s' (joiner_of s f)) = Some (scast st))"
proof -
  have K: "kernel_ok V K" and inv: "sched_inv V A F {} (f # rs) ps s" using assms(1) by (simp_all add: turn_ready_def)
  obtain gb s2 q u where h: "turn K A U here s = rbind (Some (handle_exit K f s2)) (\<lambda>s'. ret (None, s'))"
    and tk: "asking V A F rs ps s2 f gb q \<lparr>r_kind = REQUEST_EXIT, r_ask = u, r_result = 0, r_fiber = f\<rparr>"
    and life: "f_life gb = (if life_of s f = FIBER_LIVE then FIBER_EXITED else life_of s f)"
    and st: "f_status gb = st" "f_joiner gb = joiner_of s f"
    using exit_asks [OF assms(1,2)] by metis
  note D = askingD [OF tk]
  have lf: "life_of s f = FIBER_DETACHED \<longleftrightarrow> f_life gb = FIBER_DETACHED" using life by auto
  have ex: "f_life gb \<noteq> FIBER_DETACHED \<Longrightarrow> f_life gb = FIBER_EXITED"
    using tk by (cases "f_life gb") (auto simp: asking_def)
  consider "f_life gb = FIBER_DETACHED" | "f_life gb \<noteq> FIBER_DETACHED" "f_joiner gb = 0"
    | "life_of s f \<noteq> FIBER_DETACHED" "joiner_of s f \<noteq> 0" using lf st(2) by argo
  then show ?thesis
  proof cases
    case 1
    then show ?thesis using exit_detached [OF K tk] lf by (auto simp: h)
  next
    case 2
    then show ?thesis
      using exit_kept(1) [OF tk 2(1) _ 2(2), where K = K] exit_kept(2) [OF tk 2(1) _ 2(2)] lf st ex D(3) by (simp add: h life_of_def status_of_def)
  next
    case 3
    from exit_turn_joined [OF assms(1,2) 3(1) refl 3(2)] 3 show ?thesis by auto
  qed
qed

theorem turn_exit_cases_witness:
  "(\<exists>s'. turn sim_kernel sim_arch sim_prog 0x8000 (both_ready (Return 7)) = ret (None, s') \<and>
      sched_inv sim_view sim_arch {one, two} {} [two] [] s' \<and> status_of s' one = 7) \<and>
   (turn sim_kernel sim_arch sim_prog 0x8000 (two_joining (Call_exit (- 1))) = Some Trap \<or>
    (\<exists>s'. turn sim_kernel sim_arch sim_prog 0x8000 (two_joining (Call_exit (- 1))) = ret (None, s') \<and>
      sched_inv sim_view sim_arch {two} {} [two] [] s' \<and> map_option r_result (requests s' frame_two) = Some (- 1)))"
proof -
  have w: "g = two" if "waits (two_joining c) g frame_two P" for g c P
    using that by (auto simp: waits_def two_joining_def) (simp add: sim_system_def)
  have "{one, two} - {one} = {two}" "{one, two} - {one} - {} = {two}" by auto
  then show ?thesis
    using turn_exit_cases [OF sim_turn_ready(1), of "Return 7" 7] turn_exit_cases [OF sim_turn_ready(2), of "Call_exit (- 1)" "- 1"] w
    by (auto simp: target_of_def both_ready_def two_joining_def)
qed

text \<open>C15. A join of the fiber itself, of one that is being joined, and of one that is detached is a program
  bug, and the reactor traps. A join of a fiber that has exited returns its status, sign-extended,
  reclaims it and queues the caller. A join of a live fiber leaves the caller waiting in the
  target's record and queues nobody. The reactor can only trap otherwise where the kernel refuses to unmap.\<close>

theorem turn_join_cases:
  assumes "turn_ready V K A U here F f rs ps s" and "next_call U s = Call_join t" and "q = next_frame U s"
  shows "if t = f \<or> joiner_of s t \<noteq> 0 \<or> life_of s t = FIBER_DETACHED then turn K A U here s = Some Trap
    else if life_of s t = FIBER_EXITED then turn K A U here s = Some Trap \<or>
      (\<exists>s'. turn K A U here s = ret (None, s') \<and> sched_inv V A (F - {t}) {} (rs @ [f]) ps s' \<and> fibers s' t = None \<and>
        map_option r_result (requests s' q) = Some (scast (status_of s t)))
    else \<exists>s'. turn K A U here s = ret (None, s') \<and> sched_inv V A F {} rs ps s' \<and> joiner_of s' t = q"
proof -
  let ?rq = "\<lparr>r_kind = REQUEST_JOIN, r_ask = Target t, r_result = 0, r_fiber = f\<rparr>"
  have K: "kernel_ok V K" and inv: "sched_inv V A F {} (f # rs) ps s" and wb: "well_behaved A U s"
    using assms(1) by (simp_all add: turn_ready_def)
  obtain gb s2 where tk: "turn K A U here s = handle K A f q s2" "asking V A F rs ps s2 f gb q ?rq"
    and same: "\<And>t. t \<noteq> f \<Longrightarrow> life_of s2 t = life_of s t" "\<And>t. joiner_of s2 t = joiner_of s t"
      "\<And>t. t \<noteq> f \<Longrightarrow> status_of s2 t = status_of s t"
    using turn_asks [OF assms(1)] assms(2,3) by (metis call_ask.simps(3) call_kind.simps(4))
  note D = askingD [OF tk(2)]
  have tF: "t \<in> F"
    using named_in [OF inv wb] assms(2) by (simp add: target_of_def)
  then obtain tb where tb: "fibers s2 t = Some tb" using fibers_wfD [OF fiber_invD(3) [OF D(11)]] by metis
  have h: "turn K A U here s = rbind (Some (handle_join K f q s2)) (\<lambda>s'. ret (None, s'))"
    using D(5) by (simp add: tk(1) handle_def)
  have tr: "life_of s2 t = f_life tb" "joiner_of s t = f_joiner tb" "status_of s2 t = f_status tb"
    using tb same(2) [of t] by (simp_all add: life_of_def joiner_of_def status_of_def)
  show ?thesis
  proof (cases "t = f \<or> f_joiner tb \<noteq> 0 \<or> f_life tb = FIBER_DETACHED")
    case True
    then have "handle_join K f q s2 = Trap" using D(5) tb by (auto simp: handle_join_def)
    then show ?thesis using True tr same(1) [of t] by (cases "t = f") (auto simp: h)
  next
    case False
    then have t: "t \<noteq> f" "f_joiner tb = 0" "f_life tb \<noteq> FIBER_DETACHED" by auto
    show ?thesis
    proof (cases "f_life tb = FIBER_EXITED")
      case True
      from join_exited [OF K tk(2) _ _ tF t(1) tb t(2) True] t True tr same show ?thesis by (auto simp: h)
    next
      case False
      then have "f_life tb = FIBER_LIVE" using t(3) by (cases "f_life tb") auto
      then obtain s' where "handle_join K f q s2 = Done s'" "sched_inv V A F {} rs ps s'" "joiner_of s' t = q"
        using join_live [OF tk(2) _ _ tF t(1) tb t(2)] by (metis fiber_request.select_convs(1,2))
      then show ?thesis using t False tr same(1) by (simp add: h)
    qed
  qed
qed

theorem turn_join_cases_witness:
  "turn sim_kernel sim_arch sim_prog 0x8000 (both_ready (Call_join one)) = Some Trap \<and>
   (\<exists>s'. turn sim_kernel sim_arch sim_prog 0x8000 (both_ready (Call_join two)) = ret (None, s') \<and>
      sched_inv sim_view sim_arch {one, two} {} [two] [] s' \<and> joiner_of s' two = 0x20800)"
  using turn_join_cases [OF sim_turn_ready(1), of "Call_join one" one]
    turn_join_cases [OF sim_turn_ready(1), of "Call_join two" two]
  by (simp add: target_of_def both_ready_def)

text \<open>C20. A fiber that starts another gets its handle, or null when there is no memory, and goes to the back of
  the queue ahead of what it made, so that it holds the handle before the new fiber first runs. The
  new fiber has a handle nobody had, and will enter the given function with the given argument.\<close>

theorem turn_start_order:
  assumes "turn_ready V K A U here F f rs ps s" and "next_call U s = Call_start len ent arg" and "q = next_frame U s"
  shows "(\<exists>s'. turn K A U here s = ret (None, s') \<and> sched_inv V A F {} (rs @ [f]) ps s' \<and>
      map_option r_result (requests s' q) = Some 0) \<or>
    (\<exists>g gb s'. turn K A U here s = ret (None, s') \<and> g \<notin> F \<and> sched_inv V A (insert g F) {} (rs @ [f, g]) ps s' \<and>
      map_option r_result (requests s' q) = Some g \<and> fibers s' g = Some gb \<and> activations s' g = Some At_entry \<and>
      f_entry gb = ent \<and> f_argument gb = arg)"
proof -
  let ?sp = "\<lparr>sr_stack_length = len, sr_entry = ent, sr_argument = arg\<rparr>"
  obtain gb s2 where t: "turn K A U here s = handle K A f q s2"
    "asking V A F rs ps s2 f gb q \<lparr>r_kind = REQUEST_SPAWN, r_ask = Spawn_argument ?sp, r_result = 0, r_fiber = f\<rparr>"
    using turn_asks [OF assms(1)] assms(2,3) by (metis call_ask.simps(2) call_kind.simps(3))
  have K: "kernel_ok V K" "fiber_arch A" using assms(1) by (simp_all add: turn_ready_def)
  have h: "turn K A U here s = rbind (handle_spawn K A f q s2) (\<lambda>s'. ret (None, s'))"
    using askingD(5) [OF t(2)] by (simp add: t(1) handle_def)
  show ?thesis using spawn_inv [OF K t(2)] by (auto simp: h)
qed

theorem turn_start_order_witness:
  "\<exists>s' F new. turn sim_kernel sim_arch sim_prog 0x8000 (both_ready (Call_start 0x1000 0x7000 5)) = ret (None, s') \<and>
    sched_inv sim_view sim_arch F {} ([two] @ one # new) [] s' \<and> length new \<le> 1"
proof -
  let ?s = "both_ready (Call_start 0x1000 0x7000 5)"
  have r: "turn_ready sim_view sim_kernel sim_arch sim_prog 0x8000 {one, two} one [two] [] ?s"
    by (rule sim_turn_ready(1)) (simp_all add: target_of_def)
  have "next_call sim_prog ?s = Call_start 0x1000 0x7000 5" by (simp add: both_ready_def)
  from turn_start_order [OF r this refl]
  consider s' where "turn sim_kernel sim_arch sim_prog 0x8000 ?s = ret (None, s')" "sched_inv sim_view sim_arch {one, two} {} ([two] @ [one]) [] s'"
    | g s' where "turn sim_kernel sim_arch sim_prog 0x8000 ?s = ret (None, s')"
      "sched_inv sim_view sim_arch (insert g {one, two}) {} ([two] @ [one, g]) [] s'" by blast
  then show ?thesis by cases (metis list.size(3,4) add_0 le_numeral_extra(4) zero_le_one One_nat_def add.commute plus_1_eq_Suc)+
qed

text \<open>C22. A detach of a fiber that is being joined or already detached traps. A fiber that has exited is
  reclaimed at once; a live one, the caller included, is only marked. The caller is queued.\<close>

theorem turn_detach_cases:
  assumes "turn_ready V K A U here F f rs ps s" and "next_call U s = Call_detach t"
  shows "if joiner_of s t \<noteq> 0 \<or> life_of s t = FIBER_DETACHED then turn K A U here s = Some Trap
    else if life_of s t = FIBER_EXITED then turn K A U here s = Some Trap \<or>
      (\<exists>s'. turn K A U here s = ret (None, s') \<and> sched_inv V A (F - {t}) {} (rs @ [f]) ps s' \<and> fibers s' t = None)
    else \<exists>s'. turn K A U here s = ret (None, s') \<and> sched_inv V A F {} (rs @ [f]) ps s' \<and> life_of s' t = FIBER_DETACHED"
proof -
  let ?rq = "\<lparr>r_kind = REQUEST_DETACH, r_ask = Target t, r_result = 0, r_fiber = f\<rparr>"
  have K: "kernel_ok V K" and inv: "sched_inv V A F {} (f # rs) ps s" and wb: "well_behaved A U s"
    using assms(1) by (simp_all add: turn_ready_def)
  obtain gb s2 where tk: "turn K A U here s = handle K A f (next_frame U s) s2" "asking V A F rs ps s2 f gb (next_frame U s) ?rq"
    and self: "f_life gb = life_of s f"
    and same: "\<And>t. t \<noteq> f \<Longrightarrow> life_of s2 t = life_of s t" "\<And>t. joiner_of s2 t = joiner_of s t"
    using turn_asks [OF assms(1)] assms(2) by (metis call_ask.simps(4) call_kind.simps(5) exit_status.simps(7))
  note D = askingD [OF tk(2)]
  have tF: "t \<in> F" using named_in [OF inv wb] assms(2) by (simp add: target_of_def)
  then obtain tb where tb: "fibers s2 t = Some tb" using fibers_wfD [OF fiber_invD(3) [OF D(11)]] by metis
  have h: "turn K A U here s = rbind (Some (handle_detach K f (next_frame U s) s2)) (\<lambda>s'. ret (None, s'))"
    using D(5) by (simp add: tk(1) handle_def)
  have tr: "life_of s t = f_life tb" "joiner_of s t = f_joiner tb"
    using tb same(1,2) [of t] self D(3) by (cases "t = f"; simp add: life_of_def joiner_of_def)+
  show ?thesis
  proof (cases "f_joiner tb \<noteq> 0 \<or> f_life tb = FIBER_DETACHED")
    case True
    then have "handle_detach K f (next_frame U s) s2 = Trap" using D(5) tb by (auto simp: handle_detach_def)
    then show ?thesis using True tr by (auto simp: h)
  next
    case False
    then have t: "f_joiner tb = 0" "f_life tb \<noteq> FIBER_DETACHED" by auto
    show ?thesis
    proof (cases "f_life tb = FIBER_EXITED")
      case True
      from detach_exited [OF K tk(2) _ _ tF tb t(1) True] t True tr show ?thesis by (auto simp: h)
    next
      case False
      then have "f_life tb = FIBER_LIVE" using t(2) by (cases "f_life tb") auto
      then obtain s' where "handle_detach K f (next_frame U s) s2 = Done s'" "sched_inv V A F {} (rs @ [f]) ps s'"
          "life_of s' t = FIBER_DETACHED"
        using detach_live [OF tk(2) _ _ tF tb t(1)] by (metis fiber_request.select_convs(1,2))
      then show ?thesis using t False tr by (simp add: h)
    qed
  qed
qed

theorem turn_detach_cases_witness:
  "turn sim_kernel sim_arch sim_prog 0x8000 (two_joining (Call_detach one)) = Some Trap \<and>
   (\<exists>s'. turn sim_kernel sim_arch sim_prog 0x8000 (both_ready (Call_detach two)) = ret (None, s') \<and>
      sched_inv sim_view sim_arch {one, two} {} [two, one] [] s' \<and> life_of s' two = FIBER_DETACHED)"
  using turn_detach_cases [OF sim_turn_ready(2), of "Call_detach one" one]
    turn_detach_cases [OF sim_turn_ready(1), of "Call_detach two" two]
  by (simp add: target_of_def both_ready_def two_joining_def)

text \<open>A fiber that yields goes to the back of the ready queue, behind every fiber that was ready; nothing
  else changes hands.\<close>

theorem turn_yield_requeues:
  assumes "turn_ready V K A U here F f rs ps s" and "next_call U s = Call_yield"
  shows "\<exists>s'. turn K A U here s = ret (None, s') \<and> sched_inv V A F {} (rs @ [f]) ps s'"
proof -
  obtain gb s2 where t: "turn K A U here s = handle K A f (next_frame U s) s2"
    "asking V A F rs ps s2 f gb (next_frame U s) \<lparr>r_kind = REQUEST_YIELD, r_ask = Nothing, r_result = 0, r_fiber = f\<rparr>"
    using turn_asks [OF assms(1)] assms(2) by (metis call_ask.simps(6) call_kind.simps(1))
  then show ?thesis using requeue_inv [OF t(2)] askingD(5) [OF t(2)] by (fastforce simp: handle_def)
qed

theorem turn_yield_requeues_witness:
  "\<exists>s'. turn sim_kernel sim_arch sim_prog 0x8000 (both_ready Call_yield) = ret (None, s') \<and>
    sched_inv sim_view sim_arch {one, two} {} [two, one] [] s'"
  using turn_yield_requeues [OF sim_turn_ready(1)] by (simp add: target_of_def both_ready_def)

text \<open>A process-exit request stops the reactor with the status the program gave, which survives the widening
  to the request's \<open>long\<close> and the narrowing back.\<close>

theorem turn_process_exit_stops:
  assumes "turn_ready V K A U here F f rs ps s" and "next_call U s = Call_process_exit g st"
  shows "\<exists>s'. turn K A U here s = ret (Some st, s')"
proof -
  obtain gb s2 where t: "turn K A U here s = handle K A f (next_frame U s) s2"
    "asking V A F rs ps s2 f gb (next_frame U s) \<lparr>r_kind = REQUEST_PROCESS_EXIT, r_ask = Status (scast st), r_result = 0, r_fiber = f\<rparr>"
    using turn_asks [OF assms(1)] assms(2) by (metis call_ask.simps(5) call_kind.simps(7))
  then show ?thesis using askingD(5) [OF t(2)] by (simp add: handle_def ucast_scast_i32)
qed

theorem turn_process_exit_stops_witness:
  "\<exists>s'. turn sim_kernel sim_arch sim_prog 0x8000 (both_ready (Call_process_exit one (- 3))) = ret (Some (- 3), s')"
  using turn_process_exit_stops [OF sim_turn_ready(1), of "Call_process_exit one (- 3)" one "- 3"]
  by (simp add: target_of_def both_ready_def)

end
