(* ===== verification/Uc_Io_Properties.thy ===== *)
theory Uc_Io_Properties
  imports Uc_Io Uc_Reactor_Properties
begin

text \<open>
  The library's calls from the program's side: what the reactor leaves in a request is what the
  function that made it returns.
\<close>

section \<open>Threads\<close>

text \<open>C16. A thread that waits in \<open>thrd_join\<close> for one that ends, by returning from its entry function or by
  \<open>thrd_exit\<close>, is the next to be queued, and its \<open>thrd_join\<close> returns \<open>thrd_success\<close> with exactly the
  status the other ended with. The thread that ended is reclaimed.\<close>

theorem thrd_join_returns_status:
  assumes "turn_ready V K A U here F f rs ps s" and "exit_status (next_call U s) = Some st"
    and "life_of s f \<noteq> FIBER_DETACHED" "joiner_of s f \<noteq> 0" and "turn K A U here s = ret (None, s')"
  shows "\<exists>g r. waits s g (joiner_of s f) (is_join f) \<and> sched_inv V A (F - {f}) {} (rs @ [g]) ps s' \<and> fibers s' f = None \<and>
    resumes_as g s' = Done (Answer r) \<and>
    resume_with (thrd_join f res) r = Finish (thrd_success, if res = 0 then None else Some st)"
proof -
  from exit_turn_joined [OF assms(1-3) refl assms(4)]
  obtain g where g: "waits s g (joiner_of s f) (is_join f)" and "turn K A U here s = Some Trap \<or>
      (\<exists>s'. turn K A U here s = ret (None, s') \<and> sched_inv V A (F - {f}) {} (rs @ [g]) ps s' \<and> fibers s' f = None \<and>
        resumes_as g s' = Done (Answer (scast st)))" by metis
  then have "sched_inv V A (F - {f}) {} (rs @ [g]) ps s'" "fibers s' f = None" "resumes_as g s' = Done (Answer (scast st))"
    using assms(5) by auto
  with g show ?thesis using thrd_join_status [of f res st] by blast
qed

lemma sim_exit_turn: "\<exists>s'. turn sim_kernel sim_arch sim_prog 0x8000 (two_joining (Call_exit (- 1))) = ret (None, s')"
  by (simp add: two_joining_def sim_system_def turn_def dequeue_def set_fiber_def libuc_fiber_resume_def run_program_def resumes_as_def
      sim_prog_def do_call_def libuc_fiber_exit_def libuc_fiber_current_def thread_local_read_def thread_local_install_def exit_fiber_def suspend_def
      new_request_def set_request_def poison_def handle_def handle_exit_def destroy_or_trap_def libuc_fiber_destroy_def
      block_destroy_objects_def munmap_objects_def sim_fiber_def Let_def x86_64_arch_def x86_64_fiber_context_make_def
      libuc_thread_local_block_destroy_def munmap_range_def sim_kernel_def sim_ring_munmap_def sim_munmap_def forget_range_def
      libuc_syscall_failed_def apart_def libuc_scheduler_enqueue_def restrict_map_def in_region_nat)

theorem thrd_join_returns_status_witness:
  "\<exists>s' r. turn sim_kernel sim_arch sim_prog 0x8000 (two_joining (Call_exit (- 1))) = ret (None, s') \<and>
    resumes_as two s' = Done (Answer r) \<and> resume_with (thrd_join one 0x30700) r = Finish (thrd_success, Some (- 1))"
proof -
  obtain s' where t: "turn sim_kernel sim_arch sim_prog 0x8000 (two_joining (Call_exit (- 1))) = ret (None, s')"
    using sim_exit_turn by blast
  have ready: "turn_ready sim_view sim_kernel sim_arch sim_prog 0x8000 {one, two} one [] [] (two_joining (Call_exit (- 1)))"
    by (rule sim_turn_ready(2)) (simp_all add: target_of_def)
  have "exit_status (next_call sim_prog (two_joining (Call_exit (- 1)))) = Some (- 1)"
    "life_of (two_joining (Call_exit (- 1))) one \<noteq> FIBER_DETACHED" "joiner_of (two_joining (Call_exit (- 1))) one \<noteq> 0"
    by (simp_all add: two_joining_def)
  from thrd_join_returns_status [OF ready this t, of "0x30700"]
  obtain g r where g: "waits (two_joining (Call_exit (- 1))) g frame_two (is_join one)" "resumes_as g s' = Done (Answer r)"
    "resume_with (thrd_join one 0x30700) r = Finish (thrd_success, Some (- 1))"
    by (auto simp: two_joining_def)
  have "g = two" using g(1) by (auto simp: waits_def two_joining_def) (simp add: sim_system_def)
  with g t show ?thesis by blast
qed

section \<open>Input and output\<close>

text \<open>C17. When the kernel completes an operation, the call that awaits it returns the kernel's result, with
  \<open>errno\<close> untouched, or -1 with \<open>errno\<close> set to the error the kernel reported: at the width of \<open>long\<close>
  for \<open>read\<close> and \<open>write\<close>, and at the width of \<open>int\<close> for the others.\<close>

theorem io_returns_kernel_result:
  assumes "sched_inv V A F {} rs ps s" and "c \<in> set (cq_pending (sring s))"
    and "requests s (cq_user_data c) = Some rq" "r_ask rq = Await_argument e"
  shows "\<exists>s' r. reap_loop s = ret s' \<and> resumes_as (r_fiber rq) s' = Done (Answer r) \<and>
    resume_with (await_long e errno) r = Finish (if sint (cq_res c) < 0 then (- 1, - cq_res c) else (scast (cq_res c), errno)) \<and>
    resume_with (await_int e errno) r = Finish (if sint (cq_res c) < 0 then (- 1, - cq_res c) else (cq_res c, errno))"
proof -
  obtain s' where "reap_loop s = ret s'" "resumes_as (r_fiber rq) s' = Done (Answer (scast (cq_res c)))"
    using reaped_resumes [OF assms(1-3)] .
  then show ?thesis by (auto simp: await_long_def await_int_def errno_result_completion ucast_scast_i32 ucast_minus_scast [of 1, simplified])
qed

theorem io_returns_kernel_result_witness:
  "\<exists>s' r. reap_loop (two_parked Call_yield) = ret s' \<and> resumes_as two s' = Done (Answer r) \<and>
    resume_with (await_int zero_sqe 7) r = Finish (42, 7)"
proof -
  have p: "sim_cqe frame_two \<in> set (cq_pending (sring (two_parked Call_yield)))"
    by (simp add: cq_pending_def cq_view_def two_parked_def sim_system_def small_ring_def upt_rec)
  have "requests (two_parked Call_yield) (cq_user_data (sim_cqe frame_two)) =
      Some \<lparr>r_kind = REQUEST_AWAIT, r_ask = Await_argument zero_sqe, r_result = 0, r_fiber = two\<rparr>"
    by (simp add: two_parked_def sim_system_def sim_cqe_def)
  from io_returns_kernel_result [OF two_parked_inv p this, of zero_sqe 7] show ?thesis by (auto simp: sim_cqe_def)
qed

text \<open>C29. \<open>read\<close> and \<open>write\<close> of a count that is negative as \<open>ssize_t\<close> fail with \<open>EINVAL\<close> and never reach the
  kernel; of any other count they suspend the fiber in one operation on the given descriptor and
  buffer, at the descriptor's own offset, whose length is the count clamped to \<open>INT32_MAX\<close>: never
  more than was asked for, and never a count reduced modulo \<open>2\<^sup>32\<close>.\<close>

theorem rw_length_clamped:
  "if sint cnt < 0 then uc_read fd buf cnt errno = Finish (- 1, EINVAL) \<and> uc_write fd buf cnt errno = Finish (- 1, EINVAL)
   else \<exists>r w. pending (uc_read fd buf cnt errno) = Some (Call_await r) \<and> pending (uc_write fd buf cnt errno) = Some (Call_await w) \<and>
     (\<forall>e \<in> {r, w}. unat (sq_len e) = min (unat cnt) (2 ^ 31 - 1) \<and> sq_fd e = fd \<and> sq_addr e = buf \<and> sq_off e = - 1 \<and> sq_flags e = 0) \<and>
     sq_opcode r = IORING_OP_READ \<and> sq_opcode w = IORING_OP_WRITE"
proof -
  have "unat (libuc_rw_len cnt) = min (unat cnt) (2 ^ 31 - 1)"
  proof (cases "cnt > 0x7FFFFFFF")
    case True
    then show ?thesis by (simp add: libuc_rw_len_def word_less_nat_alt)
  next
    case False
    then have "unat cnt \<le> 2 ^ 31 - 1" by (simp add: word_less_nat_alt)
    then show ?thesis using False by (simp add: libuc_rw_len_def unsigned_ucast_eq take_bit_nat_eq_self)
  qed
  then show ?thesis by (simp add: uc_read_def uc_write_def await_long_def zero_sqe_def)
qed

theorem rw_length_clamped_witness:
  "uc_read 3 0x9000 (- 1) 0 = Finish (- 1, EINVAL) \<and>
   (\<exists>e. pending (uc_write 3 0x9000 0x100000000 0) = Some (Call_await e) \<and> unat (sq_len e) = 2 ^ 31 - 1)"
  using rw_length_clamped [of "- 1" 3 "0x9000" 0] rw_length_clamped [of "0x100000000" 3 "0x9000" 0] by auto

end
