(* ===== verification/Uc_Start.thy ===== *)
theory Uc_Start
  imports Uc_Run Uc_Ring_Properties
begin

text \<open>
  \<open>src/start.c\<close> and the process entry of each architecture: from the initial stack the kernel hands
  over to a running reactor whose root fiber is about to enter \<open>main\<close>.
\<close>

section \<open>Process entry\<close>

text \<open>
  What \<open>_start\<close> passes to \<open>__libuc_start\<close>: the initial stack pointer as the argument, the aligned
  stack (on x86-64 with the return address pushed on it), and a null frame pointer.
\<close>

record entry_state =
  e_argument :: u64
  e_stack :: u64
  e_frame_pointer :: u64

definition x86_64_start :: "u64 \<Rightarrow> entry_state" where
  "x86_64_start rsp = \<lparr>e_argument = rsp, e_stack = (rsp AND - 16) - 8, e_frame_pointer = 0\<rparr>"

definition aarch64_start :: "u64 \<Rightarrow> entry_state" where
  "aarch64_start sp = \<lparr>e_argument = sp, e_stack = sp AND - 16, e_frame_pointer = 0\<rparr>"

text \<open>
  What they do with the status it returns: the number and the argument of \<open>exit_group\<close>. x86-64 moves
  the 32-bit \<open>eax\<close>, which clears the upper half; AArch64 leaves the whole \<open>x0\<close> in place.
\<close>

definition x86_64_exit :: "i32 \<Rightarrow> u64 \<times> u64" where "x86_64_exit eax = (231, ucast eax)"

definition aarch64_exit :: "u64 \<Rightarrow> u64 \<times> u64" where "aarch64_exit x0 = (94, x0)"

text \<open>The stack is aligned at the call, and on x86-64 congruent to 8 modulo 16 at the callee.\<close>

lemma entry_aligned:
  "unat (e_stack (aarch64_start sp)) mod 16 = 0" "unat (e_stack (x86_64_start rsp)) mod 16 = 8"
proof -
  have "is_pow2 16" by (auto simp: is_pow2_def intro: exI [of _ 4])
  from align_down_dvd [OF this] have a: "unat (x AND - 16) mod 16 = 0" for x :: u64
    by (simp add: align_down_def dvd_eq_mod_eq_0)
  show "unat (e_stack (aarch64_start sp)) mod 16 = 0" by (simp add: aarch64_start_def a)
  have "unat ((w :: u64) - 8) mod 16 = 8" if w: "unat w mod 16 = 0" for w
  proof (cases "unat w < 8")
    case True
    then have "unat w = 0" using w by simp
    then have "w = 0" by (simp only: unat_eq_0)
    then show ?thesis by simp
  next
    case False
    then have "unat (w - 8) = unat w - 8" by (intro unat_sub [of 8 w, simplified]) (simp add: word_le_nat_alt)
    moreover obtain p where "unat w = 16 * Suc p"
      using w False by (metis mod_eq_0_iff_dvd dvdE gr0_conv_Suc gr_zeroI mult_0_right zero_less_numeral)
    ultimately have "unat (w - 8) = 8 + p * 16" by simp
    then show ?thesis by (simp only: mod_mult_self1) simp
  qed
  then show "unat (e_stack (x86_64_start rsp)) mod 16 = 8" using a [of rsp] by (simp add: x86_64_start_def)
qed
section \<open>Startup\<close>

definition libuc_auxv_init :: "u64 \<Rightarrow> ('k, 'z) machine_scheme \<Rightarrow> ('k, 'z) machine_scheme" where
  "libuc_auxv_init auxv s = s\<lparr>auxiliary_vector := auxv\<rparr>"

text \<open>\<open>(size_t)8 << 20\<close>.\<close>

definition root_stack_length :: u64 where "root_stack_length = push_bit 20 8"

record root_arguments =
  ra_argv :: u64
  ra_envp :: u64
  ra_fiber :: u64
  ra_argument_count :: i32

text \<open>
  The end of \<open>root_entry\<close>, in a fiber that was made to run it (\<open>entry\<close>) on the root arguments (\<open>opaque\<close>):
  what \<open>main\<close> returns goes to \<open>__libuc_fiber_process_exit\<close> of the root record, and the entry never
  returns. The initialisers and \<open>main\<close> before it are the program's own code, and so is what every other
  entry function does.
\<close>

definition root_entry :: "u64 \<Rightarrow> u64 \<Rightarrow> root_arguments \<Rightarrow> ('k, 'c, 'r, 'w) prog \<Rightarrow> ('k, 'c, 'r, 'w) prog" where
  "root_entry entry opaque arguments M f run c res w m k =
     (let mv = M f run c res w m k in
      if run = (entry, opaque)
      then (case m_call mv of Return st \<Rightarrow> mv\<lparr>m_call := Call_process_exit (ra_fiber arguments) st\<rparr> | _ \<Rightarrow> mv)
      else mv)"

text \<open>\<open>while (*environment_end != nullptr) environment_end++\<close>: \<open>None\<close> when there is no null word.\<close>

partial_function (option) environment_end :: "mem \<Rightarrow> u64 \<Rightarrow> u64 option" where
  "environment_end m p = (if load64 m p = 0 then Some p else environment_end m (p + 8))"

text \<open>The \<open>root_arguments\<close> of an initial stack, once the root fiber is known.\<close>

definition root_arguments_of :: "u64 \<Rightarrow> u64 \<Rightarrow> ('k, 'c, 'w) system \<Rightarrow> root_arguments" where
  "root_arguments_of root initial_stack s =
     (let argument_count = load64 (mem s) initial_stack; argv = initial_stack + 8 in
      \<lparr>ra_argv = argv, ra_envp = argv + 8 * (argument_count + 1), ra_fiber = root, ra_argument_count = ucast argument_count\<rparr>)"

text \<open>
  \<open>__libuc_start\<close> up to the reactor: the root fiber, queued, or 0 where the source returns 127.
  \<open>arguments\<close> is the address of the root arguments in the startup frame, \<open>entry\<close> that of \<open>root_entry\<close>.
\<close>

definition start_root ::
    "('k, 'y) ring_kernel_scheme \<Rightarrow> ('c, 'r) arch \<Rightarrow> u64 \<Rightarrow> u64 \<Rightarrow> u64 \<Rightarrow> ('k, 'c, 'w) system \<Rightarrow> (u64 \<times> ('k, 'c, 'w) system) run" where
  "start_root K A entry arguments initial_stack s =
     (let argument_count = load64 (mem s) initial_stack in
      if argument_count > 0x7FFFFFFF then ret (0, s)
      else
        let argv = initial_stack + 8 in
        if load64 (mem s) (argv + 8 * argument_count) \<noteq> 0 then ret (0, s)
        else
          let envp = argv + 8 * (argument_count + 1) in
          case environment_end (mem s) envp of
            None \<Rightarrow> None
          | Some e \<Rightarrow>
              case libuc_thread_local_layout (libuc_auxv_init (e + 8) s) of
                None \<Rightarrow> None
              | Some (None, s1) \<Rightarrow> ret (0, s1)
              | Some (Some l, s1) \<Rightarrow>
                  case libuc_scheduler_become K s1 of
                    (False, s2) \<Rightarrow> ret (0, s2)
                  | (True, s2) \<Rightarrow>
                      rbind (libuc_fiber_spawn K A root_stack_length entry arguments s2) (\<lambda>(root, s3).
                        if root = 0 then ret (0, s3)
                        else rbind (Some (libuc_scheduler_enqueue root s3)) (\<lambda>s4. ret (root, s4))))"

text \<open>The whole of \<open>__libuc_start\<close>; \<open>here\<close> is where the reactor's frame keeps its context.\<close>

definition libuc_start ::
    "('k, 'y) ring_kernel_scheme \<Rightarrow> ('c, 'r) arch \<Rightarrow> ('k, 'c, 'r, 'w) prog \<Rightarrow> u64 \<Rightarrow> u64 \<Rightarrow> u64 \<Rightarrow> u64 \<Rightarrow> ('k, 'c, 'w) system \<Rightarrow>
     (i32 \<times> ('k, 'c, 'w) system) run" where
  "libuc_start K A M here entry arguments initial_stack s =
     rbind (start_root K A entry arguments initial_stack s) (\<lambda>(root, s1).
       if root = 0 then ret (127, s1)
       else libuc_scheduler_run K A (root_entry entry arguments (root_arguments_of root initial_stack s) M) here s1)"

section \<open>A fresh reactor\<close>

text \<open>The kernel's contracts at startup: those of the reactor, and those of setting up a ring.\<close>

definition boot_ok :: "'k kernel_view \<Rightarrow> ('k, 'y) ring_kernel_scheme \<Rightarrow> bool" where
  "boot_ok V K \<longleftrightarrow> kernel_ok V K \<and> ring_setup_ok V K \<and> mmap_shared_ok V K \<and>
     (\<forall>entries k d p k'. k_setup K entries setup_flags k = (d, p, k') \<longrightarrow> v_inflight V k' = v_inflight V k)"

lemma ring_create_frame:
  assumes "libuc_ring_create K entries s = (Some r, s')"
  shows "machine.more s' = machine.more s" "process_layout s' = process_layout s" "tcbs s' = tcbs s"
    "auxiliary_vector s' = auxiliary_vector s"
  using assms by (auto simp: libuc_ring_create_def mmap_ring_def Let_def split: prod.splits if_splits option.splits)

lemma ring_create_inflight:
  assumes K: "boot_ok V K" and c: "libuc_ring_create K entries s = (Some r, s')"
  shows "v_inflight V (kern s') = v_inflight V (kern s)"
proof -
  have i: "\<And>a len prot flags d off m k r m' k'. k_mmap K a len prot flags d off m k = (r, m', k') \<Longrightarrow> v_inflight V k' = v_inflight V k"
    "\<And>entries k d p k'. k_setup K entries setup_flags k = (d, p, k') \<Longrightarrow> v_inflight V k' = v_inflight V k"
    using K by (auto simp: boot_ok_def kernel_ok_def inert_def)
  show ?thesis
    using c by (auto simp: libuc_ring_create_def mmap_ring_def Let_def dest!: i split: prod.splits if_splits option.splits)
qed

text \<open>A reactor that has just come to be has no fibers and an empty ring.\<close>

lemma become_inv:
  assumes K: "boot_ok V K" and s: "activations s = Map.empty" "process_layout s = Some l" "layout_ok l" "v_inflight V (kern s) = {#}"
    and b: "libuc_scheduler_become K s = (True, s')"
  shows "sched_inv V A {} {} [] [] s'"
proof -
  let ?s0 = "s\<lparr>sring := zero_ring, ready_head := 0, ready_tail := 0, ready_count := 0, parked_count := 0, joining_count := 0\<rparr>"
  obtain r s1 where c: "libuc_ring_create K scheduler_ring_entries ?s0 = (Some r, s1)" and s': "s' = s1\<lparr>sring := r\<rparr>"
    using b by (auto simp: libuc_scheduler_become_def Let_def split: prod.splits option.splits)
  note f = ring_create_frame [OF c] and more = machine_more_eqD [OF ring_create_frame(1) [OF c]]
  have ctr: "ready_head s1 = 0" "ready_tail s1 = 0" "ready_count s1 = 0" "parked_count s1 = 0" "joining_count s1 = 0"
    using system_more_eqD [OF more(5)] by simp_all
  have "ring_wf r" "sq_batch r = []" "cq_pending r = []"
    using created_ring [OF _ _ c] K by (auto simp: boot_ok_def)
  moreover have "v_inflight V (kern s1) = {#}" using ring_create_inflight [OF K c] s(4) by simp
  ultimately have "ring_inv V [] s'" by (simp add: ring_inv_def s' ctr)
  moreover have "fiber_inv V A {} {} s'"
    using s f more by (intro fiber_invI) (simp_all add: s' fibers_wf_def)
  moreover have "wait_inv {} {} [] [] s'" by (rule wait_invI) (simp_all add: s' ctr joined_def)
  ultimately show ?thesis by (simp add: sched_inv_def ready_queue_def s' ctr)
qed

text \<open>The first fiber of a reactor that has none.\<close>

lemma root_inv:
  assumes K: "kernel_ok V K" and inv: "sched_inv V A {} {} [] [] s"
    and sp: "libuc_fiber_spawn K A len ent arg s = ret (g, s1)"
    and fr: "frame_on (v_mapped V (kern s)) s s1" "v_mapped V (kern s) \<subseteq> v_mapped V (kern s1)"
      "activations s1 = (activations s)(g \<mapsto> At_entry)"
    and g: "spawned_as A len ent arg (v_mapped V (kern s)) (v_mapped V (kern s1)) s1 g gb"
  obtains s2 gb' where "libuc_scheduler_enqueue g s1 = Done s2" "sched_inv V A {g} {} [g] [] s2" "g \<noteq> 0"
    "fibers s2 g = Some gb'" "f_entry gb' = ent" "f_argument gb' = arg" "f_life gb' = FIBER_LIVE" "activations s2 g = Some At_entry"
proof -
  have i: "ready_queue s []" "fiber_inv V A {} {} s" "ring_inv V [] s" "wait_inv {} {} [] [] s"
    using inv by (simp_all add: sched_inv_def)
  obtain l where lay: "process_layout s = Some l" using fiber_invD(5) [OF i(2)] by blast
  let ?s0 = "s1\<lparr>activations := activations s\<rparr>"
  have "inert (v_inflight V) K" using K by (simp add: kernel_ok_def)
  note inflight = spawn_inert [OF this lay sp]
  have "frame_on (v_mapped V (kern s)) s ?s0" using fr(1) by (simp add: frame_on_def)
  then have s0: "sched_inv V A {} {} [] [] ?s0"
    using inflight fiber_invD(2) [OF i(2)] by (intro sched_inv_frame [OF i]) simp_all
  have G: "fibers s1 g = Some gb" "fiber_wf s1 g gb" "footprint gb \<subseteq> v_mapped V (kern s1)" "f_joiner gb = 0"
    "resumable A s1 g gb" "f_entry gb = ent" "f_argument gb = arg" "g \<noteq> 0" "f_life gb = FIBER_LIVE"
    using g by (auto simp: spawned_as_def fiber_wf_def)
  have s1: "s1 = ?s0\<lparr>activations := (activations ?s0)(g \<mapsto> At_entry)\<rparr>" using fr(3) by simp
  have "sched_inv V A (insert g {}) (insert g {}) [] [] s1"
    using G by (intro add_fiber_inv [OF s0 _ _ _ _ G(4) _ s1]) (auto simp: fiber_wf_def)
  then obtain s2 where s2: "libuc_scheduler_enqueue g s1 = Done s2" "relinked s1 s2" "sched_inv V A {g} ({g} - {g}) ([] @ [g]) [] s2"
    using enqueue_inv [of V A "{g}" "{g}" "[]" "[]" s1 g gb] G fr(3) by (auto simp: joiner_of_def)
  obtain n where "fibers s2 = (\<lambda>p. map_option (\<lambda>fb. fb\<lparr>f_ready_next := n p\<rparr>) (fibers s1 p))"
    using relinked_fibers [OF s2(2)] .
  then show ?thesis using that [of s2 "gb\<lparr>f_ready_next := n g\<rparr>"] s2(1,3) G fr(3) by (simp add: relinked_same [OF s2(2)])
qed

text \<open>Words from \<open>p\<close> on up to a null one.\<close>

fun null_after :: "nat \<Rightarrow> mem \<Rightarrow> u64 \<Rightarrow> bool" where
  "null_after 0 m p \<longleftrightarrow> load64 m p = 0"
| "null_after (Suc n) m p \<longleftrightarrow> load64 m p \<noteq> 0 \<and> null_after n m (p + 8)"

lemma environment_ends: "null_after n m p \<Longrightarrow> environment_end m p = Some (p + 8 * of_nat n)"
proof (induction n m p rule: null_after.induct)
  case (1 m p)
  then show ?case by (subst environment_end.simps) simp
next
  case (2 n m p)
  then show ?case by (subst environment_end.simps) (simp add: algebra_simps)
qed

text \<open>
  A process image the kernel hands over: fewer than \<open>2\<^sup>31\<close> arguments and a null word after them, a
  null word after the environment, and an auxiliary vector the layout can be read from.
\<close>

definition image_ok :: "nat \<Rightarrow> u64 \<Rightarrow> ('k, 'c, 'w) system \<Rightarrow> bool" where
  "image_ok n sp s \<longleftrightarrow> (let argc = load64 (mem s) sp; envp = sp + 8 + 8 * (argc + 1) in
     argc \<le> 0x7FFFFFFF \<and> load64 (mem s) (sp + 8 + 8 * argc) = 0 \<and> null_after n (mem s) envp \<and>
     libuc_thread_local_layout (libuc_auxv_init (envp + 8 * of_nat n + 8) s) \<noteq> None)"

text \<open>Nothing has run yet: no fibers, no layout, nothing in flight.\<close>

definition pristine :: "'k kernel_view \<Rightarrow> ('k, 'c, 'w) system \<Rightarrow> bool" where
  "pristine V s \<longleftrightarrow> activations s = Map.empty \<and> process_layout s = None \<and> v_inflight V (kern s) = {#}"

lemma start_boots:
  assumes K: "boot_ok V K" and A: "fiber_arch A" and img: "image_ok n sp s" and s: "pristine V s"
  shows "(\<exists>s'. start_root K A entry arguments sp s = ret (0, s')) \<or>
    (\<exists>root gb s'. start_root K A entry arguments sp s = ret (root, s') \<and> root \<noteq> 0 \<and>
      sched_inv V A {root} {} [root] [] s' \<and> fibers s' root = Some gb \<and> f_entry gb = entry \<and> f_argument gb = arguments \<and>
      f_life gb = FIBER_LIVE \<and> activations s' root = Some At_entry)"
proof -
  let ?argc = "load64 (mem s) sp"
  let ?envp = "sp + 8 + 8 * (?argc + 1)"
  let ?s0 = "libuc_auxv_init (?envp + 8 * of_nat n + 8) s"
  have I: "\<not> ?argc > 0x7FFFFFFF" "load64 (mem s) (sp + 8 + 8 * ?argc) = 0" "libuc_thread_local_layout ?s0 \<noteq> None"
    "environment_end (mem s) ?envp = Some (?envp + 8 * of_nat n)"
    using img environment_ends [of n "mem s" ?envp] by (auto simp: image_ok_def Let_def)
  then obtain lo s1 where lay: "libuc_thread_local_layout ?s0 = Some (lo, s1)" by auto
  have st: "start_root K A entry arguments sp s = (case lo of None \<Rightarrow> ret (0, s1) | Some l \<Rightarrow>
      case libuc_scheduler_become K s1 of (False, s2) \<Rightarrow> ret (0, s2) | (True, s2) \<Rightarrow>
        rbind (libuc_fiber_spawn K A root_stack_length entry arguments s2) (\<lambda>(root, s3).
          if root = 0 then ret (0, s3) else rbind (Some (libuc_scheduler_enqueue root s3)) (\<lambda>s4. ret (root, s4))))"
    unfolding start_root_def Let_def if_not_P [OF I(1)] using I lay by (auto split: option.split prod.split bool.split)
  show ?thesis
  proof (cases lo)
    case None
    then show ?thesis by (simp add: st)
  next
    case (Some l)
    have l: "layout_ok l" "s1 = ?s0\<lparr>process_layout := Some l\<rparr>"
      using thread_local_layout_ok [OF lay [unfolded Some]] s by (auto simp: pristine_def libuc_auxv_init_def)
    obtain b s2 where b: "libuc_scheduler_become K s1 = (b, s2)" by fastforce
    show ?thesis
    proof (cases b)
      case False
      then show ?thesis using b Some by (simp add: st)
    next
      case True
      have i2: "sched_inv V A {} {} [] [] s2"
        using l s b True by (intro become_inv [OF K, of s1 l]) (simp_all add: pristine_def libuc_auxv_init_def)
      have km: "kernel_ok V K" "mmap_ok (v_mapped V) K" "munmap_ok (v_mapped V) K" using K by (auto simp: boot_ok_def kernel_ok_def)
      obtain l2 where l2: "process_layout s2 = Some l2" "layout_ok l2" using i2 by (auto simp: sched_inv_def fiber_inv_def)
      show ?thesis
      proof (rule fiber_arch.spawn_cases [OF A km(2,3) l2, of root_stack_length entry arguments])
        fix s3 assume "libuc_fiber_spawn K A root_stack_length entry arguments s2 = ret (0, s3)"
        then show ?thesis using b True Some by (simp add: st)
      next
        fix root s3 gb
        assume S: "libuc_fiber_spawn K A root_stack_length entry arguments s2 = ret (root, s3)"
          "frame_on (v_mapped V (kern s2)) s2 s3" "v_mapped V (kern s2) \<subseteq> v_mapped V (kern s3)"
          "activations s3 = (activations s2)(root \<mapsto> At_entry)"
          "spawned_as A root_stack_length entry arguments (v_mapped V (kern s2)) (v_mapped V (kern s3)) s3 root gb"
        obtain s4 gb' where "libuc_scheduler_enqueue root s3 = Done s4" "sched_inv V A {root} {} [root] [] s4" "root \<noteq> 0"
          "fibers s4 root = Some gb'" "f_entry gb' = entry" "f_argument gb' = arguments" "f_life gb' = FIBER_LIVE" "activations s4 root = Some At_entry"
          using root_inv [OF km(1) i2 S] .
        then show ?thesis using b True Some S(1) by (auto simp: st)
      qed
    qed
  qed
qed

lemma start_boots_inv:
  assumes "boot_ok V K" "fiber_arch A" "image_ok n sp s" "pristine V s" "start_root K A entry arguments sp s = ret (root, s1)" "root \<noteq> 0"
  shows "sched_inv V A {root} {} [root] [] s1"
  using start_boots [OF assms(1-4), of entry arguments] assms(5,6) by auto

text \<open>
  When the code of a fiber that runs \<open>root_entry\<close> returns, its request is to stop the process; a
  return of any other entry function stops only its fiber.
\<close>

lemma root_returns:
  assumes ready: "turn_ready V K A (root_entry entry opaque arguments M) here F f rs ps s" and fb: "fibers s f = Some fb"
    and ret: "next_call M s = Return st"
  shows "if (f_entry fb, f_argument fb) = (entry, opaque) then \<exists>s'. turn K A (root_entry entry opaque arguments M) here s = ret (Some st, s')
    else \<forall>v s'. turn K A (root_entry entry opaque arguments M) here s \<noteq> ret (Some v, s')"
proof -
  let ?U = "root_entry entry opaque arguments M"
  have hd: "ready_head s = f" using ready queue_head by (fastforce simp: turn_ready_def)
  have c: "next_call ?U s = (if (f_entry fb, f_argument fb) = (entry, opaque) then Call_process_exit (ra_fiber arguments) st else Return st)"
    using ret unfolding next_call_def next_move_def root_entry_def Let_def hd fb option.sel
    by (cases "(f_entry fb, f_argument fb) = (entry, opaque)") (simp_all only: if_True if_False call.case, simp_all)
  show ?thesis
  proof (cases "(f_entry fb, f_argument fb) = (entry, opaque)")
    case True
    obtain gb s2 where t: "turn K A ?U here s = handle K A f (next_frame ?U s) s2"
      "asking V A F rs ps s2 f gb (next_frame ?U s) \<lparr>r_kind = REQUEST_PROCESS_EXIT, r_ask = Status (scast st), r_result = 0, r_fiber = f\<rparr>"
      using turn_asks [OF ready] c True by (metis call_ask.simps(5) call_kind.simps(7))
    then show ?thesis using askingD(5) [OF t(2)] True by (simp add: handle_def ucast_scast_i32)
  next
    case False
    then have "next_call ?U s = Return st" using c by (simp only: if_False)
    then have "turn K A ?U here s \<noteq> ret (Some v, s')" for v s' using stopping_turn [OF ready, of v s'] by auto
    then show ?thesis using False by (simp only: if_False) blast
  qed
qed

end
