(* ===== verification/Uc_Start_Properties.thy ===== *)
theory Uc_Start_Properties
  imports Uc_Start Uc_Sim_System
begin

text \<open>
  Startup as a whole: a process that fails to start says so, and one that starts runs the reactor
  on a state its invariant holds of. The witnesses boot a small image on the simulated kernel.
\<close>

section \<open>A process image\<close>

text \<open>
  No arguments, no environment, an auxiliary vector that names one program header, for thread-local
  objects of four bytes without an image, and a program whose \<open>main\<close> returns 3 at once.
\<close>

definition boot_mem :: mem where
  "boot_mem = (\<lambda>_. 0)(0x1018 := 3, 0x1021 := 0x20, 0x1028 := 4, 0x1030 := 56, 0x1038 := 5, 0x1040 := 1,
     0x2000 := 7, 0x2028 := 4, 0x2030 := 4)"

abbreviation boot_tls :: tl_layout where
  "boot_tls \<equiv> \<lparr>tls_image = 0, image_size = 0, block_size = 4, alignment = 4\<rparr>"

definition boot_state :: "(sim, x86_context, unit) system" where
  "boot_state =
     \<lparr>mem = boot_mem, tcbs = Map.empty, tp = 0, auxiliary_vector = 0, process_layout = None,
      kern = \<lparr>space = (0x10000, []), log = [], flight = [], interrupts = 1, burst = 1\<rparr>,
      fibers = Map.empty, requests = Map.empty, activations = Map.empty, world = (),
      sring = zero_ring, ready_head = 0, ready_tail = 0, ready_count = 0, parked_count = 0, joining_count = 0\<rparr>"

lemma boot_words:
  "load64 boot_mem 0x1000 = 0" "load64 boot_mem 0x1008 = 0" "load64 boot_mem 0x1010 = 0"
  "auxv_at boot_mem 0x1018 [(3, 0x2000), (4, 56), (5, 1)]" "load32 boot_mem 0x2000 = 7"
  "load64 boot_mem 0x2010 = 0" "load64 boot_mem 0x2020 = 0" "load64 boot_mem 0x2028 = 4" "load64 boot_mem 0x2030 = 4"
  by (simp_all add: boot_mem_def AT_NULL_def load64_def load32_def bytes_def upt_rec word_rcat_def)

lemma boot_layout:
  "libuc_thread_local_layout (libuc_auxv_init 0x1018 boot_state) =
     Some (Some boot_tls, boot_state\<lparr>auxiliary_vector := 0x1018, process_layout := Some boot_tls\<rparr>)"
proof -
  have m: "mem (libuc_auxv_init 0x1018 boot_state) = boot_mem" "auxiliary_vector (libuc_auxv_init 0x1018 boot_state) = 0x1018"
    "process_layout (libuc_auxv_init 0x1018 boot_state) = None"
    by (simp_all add: libuc_auxv_init_def boot_state_def)
  have "tls_scan boot_mem 0x2000 1 0 None = Some (Some \<lparr>p_type = 7, p_vaddr = 0, p_filesz = 0, p_memsz = 4, p_align = 4\<rparr>)"
    by (simp add: tls_scan.simps phdr_at_def boot_words PT_TLS_def sizeof_phdr_def)
  moreover have pc: "popcount 4 = 1" by code_simp
  ultimately show ?thesis
    by (simp add: libuc_thread_local_layout_def m libuc_auxv_get_def auxv_from_map_of [OF boot_words(4)] AT_PHDR_def AT_PHENT_def
        AT_PHNUM_def alignof_phdr_def sizeof_phdr_def ckd_mul_def ckd_add_def segment_layout_def pc)
      (simp add: libuc_auxv_init_def)
qed

lemma boot_image: "image_ok 0 0x1000 boot_state" "pristine sim_view boot_state"
  using boot_layout
  by (simp_all add: image_ok_def Let_def boot_state_def boot_words pristine_def sim_view_def)

lemma sim_boot_ok: "boot_ok sim_view sim_kernel"
  using sim_kernel_ok sim_ring_setup_ok sim_mmap_shared_ok by (auto simp: boot_ok_def sim_kernel_def sim_setup_def)

lemma boot_reactor:
  "\<exists>r m. libuc_scheduler_become sim_kernel (boot_state\<lparr>auxiliary_vector := 0x1018, process_layout := Some l\<rparr>) =
    (True, boot_state\<lparr>auxiliary_vector := 0x1018, process_layout := Some l, mem := m, sring := r,
       kern := \<lparr>space = (0x12000, [(0x11000, 256), (0x10000, 192)]), log = [], flight = [], interrupts = 1, burst = 1\<rparr>\<rparr>)"
proof -
  have l: "ring_lengths \<lparr>p_sq_entries = 4, p_cq_entries = 8, p_features = 1, p_cq_off_head = 0,
      p_cq_off_tail = 4, p_cq_off_ring_mask = 8, p_cq_off_cqes = 64\<rparr> = Some (192, 256)"
    by (simp add: ring_lengths_def ckd_mul_def ckd_add_def sizeof_cqe_def sizeof_sqe_def)
  show ?thesis
    by (simp add: libuc_scheduler_become_def libuc_ring_create_def mmap_ring_def boot_state_def sim_ring_defs libuc_syscall_failed_def
        l ring_at_def Let_def load32_def bytes_def upt_rec word_rcat_def) 
qed

abbreviation boot_root :: u64 where "boot_root \<equiv> 0x811F60"

lemma boot_spawn:
  assumes "s = boot_state\<lparr>auxiliary_vector := 0x1018, process_layout := Some boot_tls,
      mem := m, sring := r,
      kern := \<lparr>space = (0x12000, [(0x11000, 256), (0x10000, 192)]), log = [], flight = [], interrupts = 1, burst = 1\<rparr>\<rparr>"
  shows "\<exists>s' s'' fb. libuc_fiber_spawn sim_kernel sim_arch root_stack_length 0x7000 0x900 s = ret (boot_root, s') \<and>
    libuc_scheduler_enqueue boot_root s' = Done s'' \<and> fibers s'' boot_root = Some fb \<and> ready_head s'' = boot_root \<and>
    f_stack fb = 0x12000 \<and> f_stack_length fb = 0x800000 \<and> thread_pointer (f_block fb) = 0x812008 \<and>
    f_life fb = FIBER_LIVE \<and> f_joiner fb = 0 \<and> f_entry fb = 0x7000 \<and> f_argument fb = 0x900 \<and> process_layout s'' = Some boot_tls"
  by (simp add: assms libuc_fiber_spawn_def mmap_anonymous_def sim_ring_defs boot_state_def root_stack_length_def x86_64_arch_def
      libuc_syscall_failed_def fiber_address_def Let_def libuc_thread_local_block_create_def libuc_thread_local_layout_def
      x86_64_thread_local_place_def base_alignment_def ckd_add_def alignof_tcb_def thread_local_tcb_size_def
      set_fiber_def set_tcb_def new_fiber_def alignof_fiber_def map_private_anonymous_def prot_rw_def init_tls_image_def
      libuc_scheduler_enqueue_def)

lemma boot_starts:
  "\<exists>s' fb. start_root sim_kernel sim_arch 0x7000 0x900 0x1000 boot_state = ret (boot_root, s') \<and> fibers s' boot_root = Some fb \<and>
    ready_head s' = boot_root \<and> f_stack fb = 0x12000 \<and> f_stack_length fb = 0x800000 \<and> thread_pointer (f_block fb) = 0x812008 \<and>
    f_life fb = FIBER_LIVE \<and> f_joiner fb = 0 \<and> f_entry fb = 0x7000 \<and> f_argument fb = 0x900 \<and> process_layout s' = Some boot_tls"
proof -
  let ?l = boot_tls
  have m: "mem boot_state = boot_mem" by (simp add: boot_state_def)
  obtain s2 r m where b: "libuc_scheduler_become sim_kernel (boot_state\<lparr>auxiliary_vector := 0x1018, process_layout := Some ?l\<rparr>) = (True, s2)"
    "s2 = boot_state\<lparr>auxiliary_vector := 0x1018, process_layout := Some ?l, mem := m, sring := r,
       kern := \<lparr>space = (0x12000, [(0x11000, 256), (0x10000, 192)]), log = [], flight = [], interrupts = 1, burst = 1\<rparr>\<rparr>"
    using boot_reactor by blast
  have "environment_end boot_mem 0x1010 = Some 0x1010" by (subst environment_end.simps) (simp add: boot_words)
  then show ?thesis using boot_spawn [OF b(2)] boot_layout b(1) by (auto simp: start_root_def m boot_words)
qed

definition boot_prog :: "(sim, x86_context, x86_state, unit) prog" where
  "boot_prog f e c res w m k = \<lparr>m_call = Return 3, m_regs = sim_regs, m_tp = f + 0xA8, m_frame = f - 0x700, m_mem = m, m_world = w\<rparr>"

abbreviation boot_main :: "(sim, x86_context, x86_state, unit) prog" where
  "boot_main \<equiv> root_entry 0x7000 0x900 (root_arguments_of boot_root 0x1000 boot_state) boot_prog"

lemma boot_turn_ready:
  assumes "start_root sim_kernel sim_arch 0x7000 0x900 0x1000 boot_state = ret (boot_root, s1)"
  shows "turn_ready sim_view sim_kernel sim_arch boot_main 0x8000 {boot_root} boot_root [] [] s1"
    "next_call boot_prog s1 = Return 3" "parked_count s1 = 0"
    "\<exists>s'. turn sim_kernel sim_arch boot_main 0x8000 s1 = ret (Some 3, s')"
proof -
  have inv: "sched_inv sim_view sim_arch {boot_root} {} [boot_root] [] s1"
    using start_boots_inv [OF sim_boot_ok x86_64_fibers.fiber_arch_axioms boot_image assms] by simp
  then show "parked_count s1 = 0" by (simp add: sched_inv_def ring_inv_def)
  obtain fb where fb: "fibers s1 boot_root = Some fb" "ready_head s1 = boot_root" "f_stack fb = 0x12000" "f_stack_length fb = 0x800000"
    "thread_pointer (f_block fb) = 0x812008" "f_entry fb = 0x7000" "f_argument fb = 0x900"
    using boot_starts assms by auto
  show c: "next_call boot_prog s1 = Return 3" by (simp add: next_call_def next_move_def boot_prog_def)
  have "well_behaved sim_arch boot_main s1"
    by (simp add: well_behaved_def fb next_move_def root_entry_def boot_prog_def root_arguments_of_def Let_def move_ok_def
        stack_range_def in_region_nat x86_64_arch_def x86_save_def sim_regs_def target_of_def)
  then show r: "turn_ready sim_view sim_kernel sim_arch boot_main 0x8000 {boot_root} boot_root [] [] s1"
    using inv sim_kernel_ok x86_64_fibers.fiber_arch_axioms by (simp add: turn_ready_def)
  show "\<exists>s'. turn sim_kernel sim_arch boot_main 0x8000 s1 = ret (Some 3, s')" using root_returns [OF r fb(1) c] fb by simp
qed

lemma boot_behaves:
  assumes "start_root sim_kernel sim_arch 0x7000 0x900 0x1000 boot_state = ret (boot_root, s1)"
  shows "behaves sim_kernel sim_arch boot_main 0x8000 s1"
proof -
  note r = boot_turn_ready [OF assms]
  obtain s2 where t: "turn sim_kernel sim_arch boot_main 0x8000 s1 = ret (Some 3, s2)" using r(4) by blast
  have "s' = s1" if "reaches sim_kernel sim_arch boot_main 0x8000 s1 s'" for s'
    using that t r(3) by (induction rule: reaches.induct) auto
  moreover have "card (dom (activations s1)) = 1" "well_behaved sim_arch boot_main s1"
    using r(1) by (simp_all add: turn_ready_def sched_inv_def fiber_inv_def)
  ultimately show ?thesis unfolding behaves_def by (metis one_less_numeral_iff one_less_power zero_less_numeral semiring_norm(76))
qed

lemma boot_ends:
  "\<exists>s1 s'. start_root sim_kernel sim_arch 0x7000 0x900 0x1000 boot_state = ret (boot_root, s1) \<and>
    libuc_start sim_kernel sim_arch boot_prog 0x8000 0x7000 0x900 0x1000 boot_state = ret (3, s')"
proof -
  obtain s1 where s1: "start_root sim_kernel sim_arch 0x7000 0x900 0x1000 boot_state = ret (boot_root, s1)" using boot_starts by blast
  note r = boot_turn_ready [OF s1]
  obtain s2 where t: "turn sim_kernel sim_arch boot_main 0x8000 s1 = ret (Some 3, s2)" using r(4) by blast
  have c: "parked_count s1 = 0" "ready_count s1 = 1" using r(1) by (simp_all add: turn_ready_def sched_inv_def ready_queue_def ring_inv_def)
  have "run_turns sim_kernel sim_arch boot_main 0x8000 1 s1 = ret (Some 3, s2)" by (subst run_turns.simps) (simp add: t)
  then have "libuc_scheduler_run sim_kernel sim_arch boot_main 0x8000 s1 = ret (3, s2)" by (subst libuc_scheduler_run.simps) (simp add: c)
  then show ?thesis using s1 by (simp add: libuc_start_def)
qed

section \<open>Properties\<close>

text \<open>C6. Starting a process either fails with status 127, before any of the program's code has run, or runs the
  reactor on a state where its invariant holds and the root fiber is the only one. From there a
  well-behaved program never makes the library touch memory that is not there, and a process that
  ends has come to a state where the fiber whose turn it is asks for the process to exit with exactly that status (\<open>stops_at\<close>),
  or to one where no fiber is left alive, and its status is 0.\<close>

theorem start_safe:
  assumes "boot_ok V K" "fiber_arch A" "here \<noteq> 0" and "image_ok n sp s" "pristine V s"
    and "\<And>root s1. start_root K A entry arguments sp s = ret (root, s1) \<Longrightarrow> root \<noteq> 0 \<Longrightarrow>
      behaves K A (root_entry entry arguments (root_arguments_of root sp s) M) here s1"
  shows "libuc_start K A M here entry arguments sp s \<noteq> Some Fault \<and>
    (\<forall>st s'. libuc_start K A M here entry arguments sp s = ret (st, s') \<longrightarrow>
      st = 127 \<and> start_root K A entry arguments sp s = ret (0, s') \<or>
      (\<exists>root s1. start_root K A entry arguments sp s = ret (root, s1) \<and> sched_inv V A {root} {} [root] [] s1 \<and>
        (stops_at K A (root_entry entry arguments (root_arguments_of root sp s) M) here s1 st s' \<or>
         st = 0 \<and> reaches K A (root_entry entry arguments (root_arguments_of root sp s) M) here s1 s' \<and>
           (\<forall>f \<in> dom (activations s'). \<not> alive s' f))))"
proof -
  have K: "kernel_ok V K" using assms(1) by (simp add: boot_ok_def)
  from start_boots [OF assms(1,2,4,5), of entry arguments]
  consider s' where "start_root K A entry arguments sp s = ret (0, s')"
    | root s1 where "start_root K A entry arguments sp s = ret (root, s1)" "root \<noteq> 0" "sched_inv V A {root} {} [root] [] s1" by blast
  then show ?thesis
  proof cases
    case 1
    then show ?thesis by (simp add: libuc_start_def)
  next
    case (2 root s1)
    let ?U = "root_entry entry arguments (root_arguments_of root sp s) M"
    have st: "libuc_start K A M here entry arguments sp s = libuc_scheduler_run K A ?U here s1"
      using 2 by (simp add: libuc_start_def)
    note out = run_outcome [OF K assms(2,3) _ 2(3) assms(6) [OF 2(1,2)]]
    have "finished V K A ?U here s1 y \<Longrightarrow> y \<noteq> Fault \<and>
        (\<forall>st s'. y = Done (st, s') \<longrightarrow> stops_at K A ?U here s1 st s' \<or>
          st = 0 \<and> reaches K A ?U here s1 s' \<and> (\<forall>f \<in> dom (activations s'). \<not> alive s' f))" for y
      using drained_dead unfolding finished_def by blast
    then show ?thesis using out 2 unfolding st by blast
  qed
qed

theorem start_safe_witness:
  "libuc_start sim_kernel sim_arch boot_prog 0x8000 0x7000 0x900 0x1000 boot_state \<noteq> Some Fault \<and>
   (\<exists>s1 s'. start_root sim_kernel sim_arch 0x7000 0x900 0x1000 boot_state = ret (boot_root, s1) \<and>
     libuc_start sim_kernel sim_arch boot_prog 0x8000 0x7000 0x900 0x1000 boot_state = ret (3, s') \<and>
     stops_at sim_kernel sim_arch boot_main 0x8000 s1 3 s')"
proof -
  have b: "behaves sim_kernel sim_arch (root_entry 0x7000 0x900 (root_arguments_of root 0x1000 boot_state) boot_prog) 0x8000 s1"
    if "start_root sim_kernel sim_arch 0x7000 0x900 0x1000 boot_state = ret (root, s1)" for root s1
  proof -
    have "root = boot_root" using that boot_starts by auto
    then show ?thesis using that boot_behaves by simp
  qed
  obtain s1 s' where s1: "start_root sim_kernel sim_arch 0x7000 0x900 0x1000 boot_state = ret (boot_root, s1)"
    and l: "libuc_start sim_kernel sim_arch boot_prog 0x8000 0x7000 0x900 0x1000 boot_state = ret (3, s')" using boot_ends by blast
  have ne: "(0x8000 :: u64) \<noteq> 0" "(3 :: i32) \<noteq> 127" "(3 :: i32) \<noteq> 0" by simp_all
  have "stops_at sim_kernel sim_arch boot_main 0x8000 s1 3 s'"
    using start_safe [OF sim_boot_ok x86_64_fibers.fiber_arch_axioms ne(1) boot_image b] l s1 ne(2,3) by fastforce
  then show ?thesis using s1 l by simp
qed

text \<open>C21. Returning from \<open>main\<close> is exit with that value: when the code of the fiber that was made to run \<open>root_entry\<close>
  returns, the reactor stops with the value it returned, whatever the other fibers are doing. The
  return of a fiber made to run anything else never stops the reactor, whatever its address.\<close>

theorem main_return_is_exit:
  assumes "turn_ready V K A (root_entry entry opaque arguments M) here F f rs ps s" "fibers s f = Some fb"
    and "next_call M s = Return st"
  shows "if (f_entry fb, f_argument fb) = (entry, opaque) then \<exists>s'. turn K A (root_entry entry opaque arguments M) here s = ret (Some st, s')
    else \<forall>v s'. turn K A (root_entry entry opaque arguments M) here s \<noteq> ret (Some v, s')"
  by (rule root_returns [OF assms])

theorem main_return_is_exit_witness:
  "\<exists>s1 s'. start_root sim_kernel sim_arch 0x7000 0x900 0x1000 boot_state = ret (boot_root, s1) \<and>
    turn sim_kernel sim_arch boot_main 0x8000 s1 = ret (Some 3, s')"
proof -
  obtain s1 fb where s1: "start_root sim_kernel sim_arch 0x7000 0x900 0x1000 boot_state = ret (boot_root, s1)" "fibers s1 boot_root = Some fb"
    "f_entry fb = 0x7000" "f_argument fb = 0x900" using boot_starts by blast
  note r = boot_turn_ready [OF s1(1)]
  show ?thesis using main_return_is_exit [OF r(1) s1(2) r(2)] s1 by auto
qed

end
