(* ===== verification/Uc_Fiber_Properties.thy ===== *)
theory Uc_Fiber_Properties
  imports Uc_Sim_System
begin

text \<open>
  The properties of fibers and of the ready queue: creation, transfer of control, reclamation, and
  the order of the queue.
\<close>

text \<open>C24. Spawning a fiber always returns, with null or with a record of its own: at the top of a fresh stack
  mapping longer than the record, with a fresh thread-local block whose control block names it, and
  with a context that enters the given function with the given argument. Either way nothing that
  was mapped before changes, and on failure nothing is left to destroy.\<close>

theorem fiber_spawn_correct:
  assumes "fiber_arch A" and "mmap_ok mapped K" "munmap_ok mapped K" and "process_layout s = Some l" "layout_ok l"
  shows "\<exists>f s'. libuc_fiber_spawn K A len ent arg s = ret (f, s') \<and> frame_on (mapped (kern s)) s s' \<and>
    mapped (kern s) \<subseteq> mapped (kern s') \<and>
    (f = 0 \<and> dom (activations s') \<subseteq> dom (activations s) \<or>
     (\<exists>fb. spawned_as A len ent arg (mapped (kern s)) (mapped (kern s')) s' f fb))"
  using fiber_arch.spawn_cases [OF assms(1) assms(2-5)] by metis

theorem fiber_spawn_correct_witness:
  "\<exists>f s'. libuc_fiber_spawn sim_kernel sim_arch 0x1000 0x7000 5 (both_ready Call_yield) = ret (f, s') \<and>
    frame_on (v_mapped sim_view (kern (both_ready Call_yield))) (both_ready Call_yield) s'"
proof -
  obtain l where "process_layout (both_ready Call_yield) = Some l" "layout_ok l"
    by (simp add: both_ready_def sim_system_def layout_ok_def)
  with fiber_spawn_correct [OF x86_64_fibers.fiber_arch_axioms sim_kernel_mmap_ok sim_kernel_munmap_ok] show ?thesis by metis
qed

text \<open>C23. Resuming a suspended fiber runs it to its next call and returns the address of that call's request,
  which carries the call's kind and argument and names the fiber. The resumer's thread pointer is
  back, memory is as the fiber's code left it, no other fiber's record and no other request has changed, and the fiber is either suspended
  again in a context saved at the call, or, when it exited, poisoned and marked with its status.\<close>

theorem fiber_resume_transfers:
  assumes "fibers s f = Some fb" "fiber_wf s f fb" "resumable A s f fb" "here \<noteq> 0"
    and "resumes_as f s = Done res" "mv = U f (f_entry fb, f_argument fb) (f_context fb) res (world s) (mem s) (kern s)" "move_ok A f fb mv"
  shows "\<exists>s' fb'. libuc_fiber_resume A U here f s = Done (m_frame mv, s') \<and> tp s' = tp s \<and> mem s' = m_mem mv \<and>
    requests s' = (requests s)(m_frame mv \<mapsto>
      \<lparr>r_kind = call_kind (m_call mv), r_ask = call_ask (m_call mv), r_result = 0, r_fiber = f\<rparr>) \<and>
    fibers s' = (fibers s)(f \<mapsto> fb') \<and> f_return_to fb' = 0 \<and>
    (case exit_status (m_call mv) of
       None \<Rightarrow> f_context fb' = a_save A (m_regs mv) \<and> f_life fb' = f_life fb
     | Some st \<Rightarrow> f_context fb' = a_zero A \<and> f_status fb' = st \<and> f_life fb' \<noteq> FIBER_LIVE)"
  using resume_eq [where U = U, OF assms]
  by (auto simp: resumed_def carried_request_def resumed_fiber_def poison_def split: option.splits)

theorem fiber_resume_transfers_witness:
  "\<exists>s'. libuc_fiber_resume sim_arch sim_prog 0x8000 one (both_ready (Call_exit 9)) = Done (0x20800, s') \<and> tp s' = 0 \<and>
    map_option r_kind (requests s' 0x20800) = Some REQUEST_EXIT \<and> map_option f_status (fibers s' one) = Some 9"
  using fiber_resume_transfers [where U = sim_prog and here = "0x8000", OF sim_one(1-3) _ sim_one(4)
      sim_one(5) [of "Call_exit 9", symmetric] sim_move_ok]
  by (auto simp: sim_one(6))

text \<open>A fiber that has exited cannot be resumed again: its context is poisoned, and switching to it
  faults at once instead of running on a dead stack.\<close>

theorem exited_fiber_faults:
  assumes "fibers s f = Some fb" "fiber_wf s f fb" "resumable A s f fb" "here \<noteq> 0"
    and "resumes_as f s = Done res" "mv = U f (f_entry fb, f_argument fb) (f_context fb) res (world s) (mem s) (kern s)" "move_ok A f fb mv"
    and "exit_status (m_call mv) = Some st"
  shows "\<exists>q s'. libuc_fiber_resume A U here f s = Done (q, s') \<and> libuc_fiber_resume A U' here' f s' = Fault"
proof -
  have "libuc_fiber_resume A U here f s = Done (m_frame mv, resumed A f fb mv s)" by (rule resume_eq [where U = U, OF assms(1-7)])
  moreover have "libuc_fiber_resume A U' here' f (resumed A f fb mv s) = Fault"
    using assms(8) by (simp add: libuc_fiber_resume_def set_fiber_def resumed_def resumed_fiber_def poison_def run_program_def
        Let_def thread_local_install_def)
  ultimately show ?thesis by blast
qed

theorem exited_fiber_faults_witness:
  "\<exists>q s'. libuc_fiber_resume sim_arch sim_prog 0x8000 one (both_ready (Return 9)) = Done (q, s') \<and>
    libuc_fiber_resume sim_arch sim_prog 0x8000 one s' = Fault"
  using exited_fiber_faults [where U = sim_prog and here = "0x8000" and U' = sim_prog and here' = "0x8000" and st = 9,
      OF sim_one(1-3) _ sim_one(4) sim_one(5) [of "Return 9", symmetric] sim_move_ok] by simp

text \<open>C25. Destroying a fiber releases its stack and its thread-local block and nothing else: every object
  outside the two mappings is as before, the fibers that remain are well-formed, and when the
  kernel reports success exactly the two mappings are gone.\<close>

theorem fiber_destroy_reclaims:
  assumes "munmap_ok mapped K" "fibers_wf mapped F s" "t \<in> F" "fibers s t = Some tb"
  shows "\<exists>ok s'. libuc_fiber_destroy K t s = Done (ok, s') \<and> frame_on (- footprint tb) s s' \<and>
    (ok \<longrightarrow> mapped (kern s') = mapped (kern s) - footprint tb \<and> fibers s' t = None \<and> fibers_wf mapped (F - {t}) s')"
  using destroy_ok [OF assms] by metis

theorem fiber_destroy_reclaims_witness:
  "\<exists>ok s'. libuc_fiber_destroy sim_kernel two (both_ready Call_yield) = Done (ok, s') \<and>
    fibers s' one = fibers (both_ready Call_yield) one"
proof -
  let ?s = "both_ready Call_yield"
  have f: "fibers ?s two = Some (sim_fiber 0x30000 0 0)" by (simp add: both_ready_def sim_system_def)
  have "fibers_wf (v_mapped sim_view) {one, two} ?s" unfolding both_ready_def by (rule sim_fibers_wf)
  from fiber_destroy_reclaims [OF sim_kernel_munmap_ok this _ f]
  obtain ok s' where d: "libuc_fiber_destroy sim_kernel two ?s = Done (ok, s')" "frame_on (- footprint (sim_fiber 0x30000 0 0)) ?s s'"
    by blast
  have "one \<in> - footprint (sim_fiber 0x30000 0 0)" by (simp add: footprint_def sim_regions in_region_nat)
  then show ?thesis using d by (auto simp: frame_on_def)
qed

text \<open>C26. The ready queue is a queue: fibers that are not yet on it can be put on it one after the other, and come
  off it in that order behind those that were there, until it is empty.\<close>

theorem ready_queue_fifo:
  assumes "ready_queue s rs" "set fs \<subseteq> queue_nodes s" "distinct (rs @ fs)"
  shows "\<exists>s' s''. ready.enq_all fs s = Done s' \<and> ready.deq_n (length (rs @ fs)) s' = Done (rs @ fs, s'') \<and> ready_queue s'' []"
  by (rule ready.first_in_first_out [OF assms])

theorem ready_queue_fifo_witness:
  "\<exists>s' s''. ready.enq_all [two] (two_parked Call_yield) = Done s' \<and> ready.deq_n 2 s' = Done ([one, two], s'')"
proof -
  have "ready_queue (two_parked Call_yield) [one]" using two_parked_inv by (simp add: sched_inv_def)
  moreover have "two \<in> queue_nodes (two_parked Call_yield)" by (simp add: queue_nodes_def two_parked_def sim_system_def)
  moreover have "distinct ([one] @ [two])" "length ([one] @ [two]) = 2" "[one] @ [two] = [one, two]" by simp_all
  ultimately show ?thesis
    using ready_queue_fifo [of "two_parked Call_yield" "[one]" "[two]"]
    by (metis empty_subsetI insert_subset list.set(1,2))
qed

end
