(* ===== verification/Uc_Op_Scheduler.thy ===== *)
theory Uc_Op_Scheduler
  imports Uc_Ring_Properties
begin

text \<open>
  \<open>src/uc/scheduler/scheduler.c\<close>: the scheduler of logical operations. An operation is prepared by its
  fiber, goes to the kernel the first time the fiber asks for its next completion, and stays in
  flight until the kernel's last completion for it; each completion is stored in the operation and
  resumes its owner. \<open>uc_fiber_resume\<close>, declared in \<open>uc/fiber.h\<close>, has no definition in the repository
  and is a parameter, of which nothing is assumed.
\<close>

section \<open>Data\<close>

record completion =
  c_result :: i32
  c_flags :: u32

datatype operation_state = OPERATION_PREPARED | OPERATION_IN_FLIGHT | OPERATION_COMPLETE

record operation =
  op_owner :: u64
  op_submission :: sqe
  op_completion :: completion
  op_state :: operation_state

datatype request_kind = REQUEST_YIELD | REQUEST_NEXT

record request =
  rq_kind :: request_kind
  rq_operation :: u64

datatype uc_fiber_result_kind = UC_FIBER_SUSPENDED | UC_FIBER_RETURNED

record uc_fiber_result =
  res_kind :: uc_fiber_result_kind
  res_value :: u64

text \<open>The scheduler's ring with the kernel behind it, and the objects its pointers name, by address.\<close>

record ('k, 'w) op_system =
  os_ring :: scheduler_ring
  os_kern :: 'k
  operations :: "u64 \<rightharpoonup> operation"
  op_requests :: "u64 \<rightharpoonup> request"
  scheduled_fibers :: "u64 \<rightharpoonup> u64"
  os_world :: 'w

type_synonym ('k, 'w) resumer = "u64 \<Rightarrow> u64 \<Rightarrow> ('k, 'w) op_system \<Rightarrow> (uc_fiber_result \<times> ('k, 'w) op_system) outcome"

text \<open>\<open>&operation->completion\<close>: after the owner pointer and the 64-byte submission.\<close>

definition completion_of :: "u64 \<Rightarrow> u64" where "completion_of operation = operation + 72"

section \<open>Operations\<close>

definition handle_next ::
    "('k, 'y) ring_kernel_scheme \<Rightarrow> u64 \<Rightarrow> u64 \<Rightarrow> ('k, 'w) op_system \<Rightarrow> ('k, 'w) op_system run" where
  "handle_next K sched oper s =
     rbind (Some (deref (operations s oper))) (\<lambda>op.
       if op_state op \<noteq> OPERATION_PREPARED then ret s
       else rbind (append_or_flush libuc_scheduler_ring_append (libuc_scheduler_ring_submit K) (os_ring s) (os_kern s)) (\<lambda>(i, r, k).
         ret (s\<lparr>os_ring := fill_slot i ((op_submission op)\<lparr>sq_user_data := oper\<rparr>) r, os_kern := k,
                operations := (operations s)(oper \<mapsto> op\<lparr>op_owner := sched, op_state := OPERATION_IN_FLIGHT\<rparr>)\<rparr>)))"

definition dispatch ::
    "('k, 'w) resumer \<Rightarrow> ('k, 'y) ring_kernel_scheme \<Rightarrow> u64 \<Rightarrow> u64 \<Rightarrow> ('k, 'w) op_system \<Rightarrow> ('k, 'w) op_system run" where
  "dispatch R K sched value s =
     rbind (Some (deref (scheduled_fibers s sched))) (\<lambda>f.
     rbind (Some (R f value s)) (\<lambda>(result, s1).
       case res_kind result of
         UC_FIBER_RETURNED \<Rightarrow> ret s1
       | UC_FIBER_SUSPENDED \<Rightarrow>
           rbind (Some (deref (op_requests s1 (res_value result)))) (\<lambda>rq.
             case rq_kind rq of
               REQUEST_YIELD \<Rightarrow> ret s1
             | REQUEST_NEXT \<Rightarrow> handle_next K sched (rq_operation rq) s1)))"

definition handle_completion ::
    "('k, 'w) resumer \<Rightarrow> ('k, 'y) ring_kernel_scheme \<Rightarrow> cqe \<Rightarrow> ('k, 'w) op_system \<Rightarrow> ('k, 'w) op_system run" where
  "handle_completion R K completion s =
     (let oper = cq_user_data completion in
      rbind (Some (deref (operations s oper))) (\<lambda>op.
        let op1 = op\<lparr>op_completion := \<lparr>c_result = cq_res completion, c_flags = cq_flags completion\<rparr>\<rparr>;
            op2 = (if cq_flags completion AND IORING_CQE_F_MORE = 0 then op1\<lparr>op_state := OPERATION_COMPLETE\<rparr> else op1)
        in dispatch R K (op_owner op2) (completion_of oper) (s\<lparr>operations := (operations s)(oper \<mapsto> op2)\<rparr>)))"

section \<open>Invariant\<close>

definition in_flight :: "('k, 'w) op_system \<Rightarrow> u64 set" where
  "in_flight s = {a. \<exists>op. operations s a = Some op \<and> op_state op = OPERATION_IN_FLIGHT}"

text \<open>
  The operations in flight are exactly those the ring or the kernel holds, each once: written but not
  submitted, or submitted and with completions to come, which are in the queue or will be posted (\<open>M\<close>
  are those the kernel has been given; reaping the queue leads from them to what the kernel still has
  in flight). Each has an owner to resume.
\<close>

definition op_inv :: "'k kernel_view \<Rightarrow> ('k, 'w) op_system \<Rightarrow> bool" where
  "op_inv V s \<longleftrightarrow> ring_wf (os_ring s) \<and> finite (in_flight s) \<and>
     (\<exists>M. mset_set (in_flight s) = mset (map sq_user_data (sq_batch (os_ring s))) + M \<and>
        posts M (cq_pending (os_ring s)) (v_inflight V (os_kern s))) \<and>
     (\<forall>a op. operations s a = Some op \<longrightarrow> op_state op = OPERATION_IN_FLIGHT \<longrightarrow> op_owner op \<in> dom (scheduled_fibers s))"

text \<open>
  What a fiber that comes back from being resumed asks for. Its request, when it is suspended, must
  name what it refers to; the operation whose next completion it asks for is to be submitted
  if it has not been before.
\<close>

definition names_request :: "uc_fiber_result \<Rightarrow> ('k, 'w) op_system \<Rightarrow> bool" where
  "names_request result s \<longleftrightarrow> (res_kind result = UC_FIBER_SUSPENDED \<longrightarrow>
     (\<exists>rq. op_requests s (res_value result) = Some rq \<and> (rq_kind rq = REQUEST_NEXT \<longrightarrow> operations s (rq_operation rq) \<noteq> None)))"

definition to_submit :: "uc_fiber_result \<Rightarrow> ('k, 'w) op_system \<Rightarrow> u64 set" where
  "to_submit result s = {b. res_kind result = UC_FIBER_SUSPENDED \<and>
     (\<exists>rq op. op_requests s (res_value result) = Some rq \<and> rq_kind rq = REQUEST_NEXT \<and> rq_operation rq = b \<and>
        operations s b = Some op \<and> op_state op = OPERATION_PREPARED)}"

text \<open>Asking for the next completion of a prepared operation puts it in flight.\<close>

lemma next_prepared:
  assumes K: "enter_ok V K" and inv: "op_inv V s" and op: "operations s a = Some op" "op_state op = OPERATION_PREPARED"
    and sched: "sched \<in> dom (scheduled_fibers s)"
  shows "(handle_next K sched a s = Some Trap \<and> batch_count (os_ring s) = sq_entries (os_ring s) \<and>
      (\<exists>result r k. libuc_scheduler_ring_submit K 0 (os_ring s) (os_kern s) = ret (result, r, k) \<and> libuc_syscall_failed result)) \<or>
    (\<exists>s'. handle_next K sched a s = ret s' \<and> op_inv V s' \<and> in_flight s' = insert a (in_flight s) \<and> a \<notin> in_flight s \<and>
      ring_step V [(op_submission op)\<lparr>sq_user_data := a\<rparr>] (os_ring s) (os_kern s) (os_ring s') (os_kern s'))"
proof -
  have wf: "ring_wf (os_ring s)" using inv by (simp add: op_inv_def)
  have na: "a \<notin> in_flight s" using op by (simp add: in_flight_def)
  let ?op = "op\<lparr>op_owner := sched, op_state := OPERATION_IN_FLIGHT\<rparr>"
  let ?e = "(op_submission op)\<lparr>sq_user_data := a\<rparr>"
  from scheduler_ring.slot_claimed [OF K wf, of "os_kern s"]
  consider result r k where "libuc_scheduler_ring_submit K 0 (os_ring s) (os_kern s) = ret (result, r, k)" "libuc_syscall_failed result"
      "batch_count (os_ring s) = sq_entries (os_ring s)"
      "append_or_flush libuc_ring_append_sqe (libuc_scheduler_ring_submit K) (os_ring s) (os_kern s) = Some Trap"
    | i r k where "append_or_flush libuc_ring_append_sqe (libuc_scheduler_ring_submit K) (os_ring s) (os_kern s) = ret (i, r, k)"
      "ring_step V [?e] (os_ring s) (os_kern s) (fill_slot i ?e r) k" by blast
  then show ?thesis
  proof cases
    case 1
    then show ?thesis using op by (simp add: handle_next_def)
  next
    case (2 i r k)
    let ?r = "fill_slot i ?e r"
    let ?s = "s\<lparr>os_ring := ?r, os_kern := k, operations := (operations s)(a \<mapsto> ?op)\<rparr>"
    have fl: "in_flight ?s = insert a (in_flight s)" by (auto simp: in_flight_def)
    obtain taken posted where st: "sq_batch (os_ring s) @ [?e] = taken @ sq_batch ?r" "cq_pending ?r = cq_pending (os_ring s) @ posted"
      "posts (v_inflight V (os_kern s) + mset (map sq_user_data taken)) posted (v_inflight V k)" "ring_wf ?r"
      using 2(2) by (auto simp: ring_step_def)
    obtain M where M: "mset_set (in_flight s) = mset (map sq_user_data (sq_batch (os_ring s))) + M"
      "posts M (cq_pending (os_ring s)) (v_inflight V (os_kern s))" using inv by (auto simp: op_inv_def)
    have "mset (map sq_user_data (sq_batch (os_ring s))) + {#a#} = mset (map sq_user_data taken) + mset (map sq_user_data (sq_batch ?r))"
      using arg_cong [OF st(1), of "\<lambda>xs. mset (map sq_user_data xs)"] by simp
    moreover have "mset_set (insert a (in_flight s)) = add_mset a (mset_set (in_flight s))"
      using inv na by (intro mset_set.insert) (simp_all add: op_inv_def)
    ultimately have "mset_set (insert a (in_flight s)) = mset (map sq_user_data (sq_batch ?r)) + (M + mset (map sq_user_data taken))"
      by (simp add: M(1) ac_simps flip: add_mset_add_single)
    moreover have "posts (M + mset (map sq_user_data taken)) (cq_pending ?r) (v_inflight V k)"
      unfolding st(2) by (rule posts_append [OF posts_add [OF M(2)] st(3)])
    ultimately have "op_inv V ?s" using inv st(4) sched by (auto simp: op_inv_def fl)
    moreover have "handle_next K sched a s = ret ?s" using 2(1) op by (simp add: handle_next_def)
    ultimately show ?thesis using fl na 2(2) by (intro disjI2 exI [of _ ?s]) simp
  qed
qed

lemma next_in_flight: "operations s a = Some op \<Longrightarrow> op_state op \<noteq> OPERATION_PREPARED \<Longrightarrow> handle_next K sched a s = ret s"
  by (simp add: handle_next_def)

text \<open>Taking the request of a fiber that comes back keeps the invariant.\<close>

lemma dispatch_inv:
  assumes K: "enter_ok V K" and f: "scheduled_fibers s sched = Some f" and R: "R f v s = Done (result, s1)"
    and s1: "op_inv V s1" "sched \<in> dom (scheduled_fibers s1)" "names_request result s1"
  shows "(dispatch R K sched v s = Some Trap \<and> to_submit result s1 \<noteq> {} \<and> batch_count (os_ring s1) = sq_entries (os_ring s1) \<and>
      (\<exists>n r k. libuc_scheduler_ring_submit K 0 (os_ring s1) (os_kern s1) = ret (n, r, k) \<and> libuc_syscall_failed n)) \<or>
    (\<exists>s'. dispatch R K sched v s = ret s' \<and> op_inv V s' \<and> in_flight s' = in_flight s1 \<union> to_submit result s1)"
proof -
  have d: "dispatch R K sched v s = (case res_kind result of UC_FIBER_RETURNED \<Rightarrow> ret s1 | UC_FIBER_SUSPENDED \<Rightarrow>
      rbind (Some (deref (op_requests s1 (res_value result)))) (\<lambda>rq.
        case rq_kind rq of REQUEST_YIELD \<Rightarrow> ret s1 | REQUEST_NEXT \<Rightarrow> handle_next K sched (rq_operation rq) s1))"
    by (simp add: dispatch_def f R)
  consider "res_kind result = UC_FIBER_RETURNED"
    | rq where "res_kind result = UC_FIBER_SUSPENDED" "op_requests s1 (res_value result) = Some rq" "rq_kind rq = REQUEST_YIELD"
    | rq op where "res_kind result = UC_FIBER_SUSPENDED" "op_requests s1 (res_value result) = Some rq" "rq_kind rq = REQUEST_NEXT"
      "operations s1 (rq_operation rq) = Some op"
  proof (cases "res_kind result")
    case UC_FIBER_SUSPENDED
    then obtain rq where "op_requests s1 (res_value result) = Some rq" "rq_kind rq = REQUEST_NEXT \<longrightarrow> operations s1 (rq_operation rq) \<noteq> None"
      using s1(3) by (auto simp: names_request_def)
    then show ?thesis using UC_FIBER_SUSPENDED that(2,3) by (cases "rq_kind rq") auto
  qed
  then show ?thesis
  proof cases
    case (3 rq op)
    have h: "dispatch R K sched v s = handle_next K sched (rq_operation rq) s1" using d 3 by simp
    have t: "to_submit result s1 = (if op_state op = OPERATION_PREPARED then {rq_operation rq} else {})"
      using 3 by (auto simp: to_submit_def)
    show ?thesis
    proof (cases "op_state op = OPERATION_PREPARED")
      case True
      from next_prepared [OF K s1(1) 3(4) True s1(2)] show ?thesis unfolding h t using True by auto
    next
      case False
      then show ?thesis using next_in_flight [OF 3(4) False, of K sched] s1(1) unfolding h t by simp
    qed
  qed (use d s1(1) in \<open>simp_all add: to_submit_def\<close>)
qed

text \<open>Storing a completion, before the owner is resumed.\<close>

lemma completion_stored:
  assumes "op_inv V s" and "libuc_scheduler_ring_reap (os_ring s) = Done (Some c, r)" and "a = cq_user_data c" "s1 = s\<lparr>os_ring := r\<rparr>"
  shows "a \<in> in_flight s \<and>
    (\<exists>op f. op_completion op = \<lparr>c_result = cq_res c, c_flags = cq_flags c\<rparr> \<and>
       op_state op = (if last_completion c then OPERATION_COMPLETE else OPERATION_IN_FLIGHT) \<and>
       op_inv V (s1\<lparr>operations := (operations s)(a \<mapsto> op)\<rparr>) \<and> scheduled_fibers s1 (op_owner op) = Some f \<and>
       in_flight (s1\<lparr>operations := (operations s)(a \<mapsto> op)\<rparr>) = in_flight s - (if last_completion c then {a} else {}) \<and>
       (\<forall>R. handle_completion R K c s1 = dispatch R K (op_owner op) (completion_of a) (s1\<lparr>operations := (operations s)(a \<mapsto> op)\<rparr>)))"
proof -
  have wf: "ring_wf (os_ring s)" and fin: "finite (in_flight s)" using assms(1) by (simp_all add: op_inv_def)
  obtain cs where p: "cq_pending (os_ring s) = c # cs" "r = (os_ring s)\<lparr>cq_head := cq_head (os_ring s) + 1\<rparr>"
    using assms(2) reap_pending(1) [OF wf] by (auto split: list.splits)
  have r: "ring_wf r" "cq_pending r = cs" "sq_batch r = sq_batch (os_ring s)"
    using reap_pending(2,3) [OF wf] p by (auto simp: sq_batch_def)
  obtain M where M: "mset_set (in_flight s) = mset (map sq_user_data (sq_batch r)) + M" "posts M (c # cs) (v_inflight V (os_kern s))"
    using assms(1) p(1) by (auto simp: op_inv_def r)
  have "a \<in># mset_set (in_flight s)" using M by (auto simp: posts_Cons assms(3))
  then have a: "a \<in> in_flight s" using fin by simp
  then obtain op where op: "operations s a = Some op" "op_state op = OPERATION_IN_FLIGHT" by (auto simp: in_flight_def)
  let ?op = "op\<lparr>op_completion := \<lparr>c_result = cq_res c, c_flags = cq_flags c\<rparr>,
    op_state := if last_completion c then OPERATION_COMPLETE else OPERATION_IN_FLIGHT\<rparr>"
  let ?s = "s1\<lparr>operations := (operations s)(a \<mapsto> ?op)\<rparr>"
  have fl: "in_flight ?s = in_flight s - (if last_completion c then {a} else {})"
    using a by (auto simp: in_flight_def assms(4))
  have same: "op\<lparr>op_completion := x, op_state := OPERATION_IN_FLIGHT\<rparr> = op\<lparr>op_completion := x\<rparr>" for x
    using op(2) by (cases op) simp
  have h: "handle_completion R K c s1 = dispatch R K (op_owner ?op) (completion_of a) ?s" for R
    using op by (simp add: handle_completion_def Let_def last_completion_def assms(3,4) same)
  obtain M' where "mset_set (in_flight s - (if last_completion c then {a} else {})) = mset (map sq_user_data (sq_batch r)) + M'" "posts M' cs (v_inflight V (os_kern s))"
  proof (cases "last_completion c")
    case True
    then obtain M1 where "M = add_mset a M1" "posts M1 cs (v_inflight V (os_kern s))" using M(2) by (auto simp: posts_Cons assms(3))
    moreover have "mset_set (in_flight s - {a}) = mset_set (in_flight s) - {#a#}" using fin a by (simp add: mset_set_Diff)
    ultimately show ?thesis using that [of M1] M(1) by (simp add: True)
  qed (use that [of M] M in \<open>auto simp: posts_Cons\<close>)
  then have i: "op_inv V ?s" unfolding op_inv_def fl using assms(1) fin r op by (auto simp: op_inv_def assms(4))
  obtain f where "scheduled_fibers s1 (op_owner ?op) = Some f" using assms(1,4) op by (fastforce simp: op_inv_def)
  then show ?thesis using a fl h i by (intro conjI exI [of _ ?op] exI [of _ f]) simp_all
qed

section \<open>A small instance\<close>

text \<open>
  One fiber, one operation of it in flight with two completions posted, the first of which announces
  the second, and a prepared operation that the fiber asks for when it is resumed.
\<close>

definition sim_resume :: "(sim, unit) resumer" where
  "sim_resume f v s =
     (case op_requests s 0x700 of
        None \<Rightarrow> Trap
      | Some rq \<Rightarrow> if rq_kind rq = REQUEST_NEXT \<and> operations s (rq_operation rq) = None then Trap
          else Done (\<lparr>res_kind = UC_FIBER_SUSPENDED, res_value = 0x700\<rparr>, s))"

definition sim_operations :: "(sim, unit) op_system" where
  "sim_operations =
     \<lparr>os_ring = small_ring\<lparr>batch_count := 0, cq_tail := 0, cq_head := 0xFFFFFFFE,
        cqes := (replicate 8 (sim_cqe 0x500))[6 := (sim_cqe 0x500)\<lparr>cq_flags := IORING_CQE_F_MORE\<rparr>]\<rparr>,
      os_kern = kern ring_machine,
      operations = [0x500 \<mapsto> \<lparr>op_owner = 0x400, op_submission = zero_sqe, op_completion = \<lparr>c_result = 0, c_flags = 0\<rparr>, op_state = OPERATION_IN_FLIGHT\<rparr>,
        0x600 \<mapsto> \<lparr>op_owner = 0, op_submission = zero_sqe, op_completion = \<lparr>c_result = 0, c_flags = 0\<rparr>, op_state = OPERATION_PREPARED\<rparr>],
      op_requests = [0x700 \<mapsto> \<lparr>rq_kind = REQUEST_NEXT, rq_operation = 0x600\<rparr>], scheduled_fibers = [0x400 \<mapsto> 0x300], os_world = ()\<rparr>"

lemma sim_pending: "cq_pending (os_ring sim_operations) = [(sim_cqe 0x500)\<lparr>cq_flags := IORING_CQE_F_MORE\<rparr>, sim_cqe 0x500]"
  by (simp add: sim_operations_def cq_pending_def cq_view_def small_ring_def upt_rec)

lemma sim_operations_inv: "op_inv sim_view sim_operations" "in_flight sim_operations = {0x500}"
proof -
  show fl: "in_flight sim_operations = {0x500}" by (auto simp: in_flight_def sim_operations_def)
  have "ring_wf (os_ring sim_operations)"
    by (auto simp: sim_operations_def ring_wf_def small_ring_def intro: exI [of _ 3])
  moreover have "posts {#0x500#} (cq_pending (os_ring sim_operations)) {#}"
    by (simp add: sim_pending posts_Cons last_completion_def IORING_CQE_F_MORE_def) (simp add: sim_cqe_def)
  ultimately show "op_inv sim_view sim_operations"
    by (simp add: op_inv_def fl) (auto simp: sim_operations_def sq_batch_def small_ring_def sim_view_def ring_machine_def)
qed

section \<open>Properties\<close>

text \<open>C27. An operation goes to the kernel once: asking for the next completion of one that is in flight or
  complete changes nothing, and of a prepared one adds exactly its submission, with the operation's
  address as user data, behind what the ring already holds, and puts it in flight. The scheduler
  traps only when the batch is full and the kernel refuses it.\<close>

theorem operation_submitted_once:
  assumes "enter_ok V K" "op_inv V s" "operations s a = Some op" "sched \<in> dom (scheduled_fibers s)"
  shows "if op_state op \<noteq> OPERATION_PREPARED then handle_next K sched a s = ret s
    else (handle_next K sched a s = Some Trap \<and> batch_count (os_ring s) = sq_entries (os_ring s) \<and>
        (\<exists>result r k. libuc_scheduler_ring_submit K 0 (os_ring s) (os_kern s) = ret (result, r, k) \<and> libuc_syscall_failed result)) \<or>
      (\<exists>s'. handle_next K sched a s = ret s' \<and> op_inv V s' \<and> in_flight s' = insert a (in_flight s) \<and> a \<notin> in_flight s \<and>
        ring_step V [(op_submission op)\<lparr>sq_user_data := a\<rparr>] (os_ring s) (os_kern s) (os_ring s') (os_kern s'))"
  using next_prepared [OF assms(1-3) _ assms(4)] next_in_flight [OF assms(3), where K = K and sched = sched]
  by (cases "op_state op = OPERATION_PREPARED") simp_all

theorem operation_submitted_once_witness:
  "handle_next sim_kernel 0x400 0x500 sim_operations = ret sim_operations \<and>
   (\<exists>s'. handle_next sim_kernel 0x400 0x600 sim_operations = ret s' \<and> in_flight s' = {0x500, 0x600})"
proof -
  have n: "batch_count (os_ring sim_operations) \<noteq> sq_entries (os_ring sim_operations)" "0x400 \<in> dom (scheduled_fibers sim_operations)"
    by (simp_all add: sim_operations_def small_ring_def)
  obtain op where op: "operations sim_operations 0x500 = Some op" "op_state op \<noteq> OPERATION_PREPARED" by (simp add: sim_operations_def)
  obtain op' where op': "operations sim_operations 0x600 = Some op'" "op_state op' = OPERATION_PREPARED" by (simp add: sim_operations_def)
  show ?thesis
    using operation_submitted_once [OF sim_enter_ok sim_operations_inv(1) op(1) n(2)]
      operation_submitted_once [OF sim_enter_ok sim_operations_inv(1) op'(1) n(2)] op(2) op'(2) n(1) sim_operations_inv(2)
    by (auto simp: insert_commute)
qed

text \<open>C28. Handling a completion keeps the invariant, whatever code is resumed with it. When the oldest completion is reaped
  and handled, the operation it is for is in flight; the completion is stored in it, and it stays in flight
  if the kernel announced more completions and is complete otherwise; the invariant holds of the
  result, with every other operation in flight as before, and the operation's owner has a fiber, which
  is resumed there with the completion. If that code does not come back, handling does not either, for the same reason. If it comes back
  with the invariant in place and a request that names what it refers to, the operations in flight are again exactly those the ring or the kernel
  holds: those the code left in flight and the prepared operation whose next completion it asks for, if it
  does. Handling traps then only when that operation finds the batch full and the kernel refuses it.\<close>

theorem completion_keeps_invariant:
  assumes "enter_ok V K" "op_inv V s" and "libuc_scheduler_ring_reap (os_ring s) = Done (Some c, r)"
    and "a = cq_user_data c" "s1 = s\<lparr>os_ring := r\<rparr>"
  shows "a \<in> in_flight s \<and>
    (\<exists>op f s2. op_completion op = \<lparr>c_result = cq_res c, c_flags = cq_flags c\<rparr> \<and>
       op_state op = (if last_completion c then OPERATION_COMPLETE else OPERATION_IN_FLIGHT) \<and>
       s2 = s1\<lparr>operations := (operations s)(a \<mapsto> op)\<rparr> \<and> op_inv V s2 \<and>
       in_flight s2 = in_flight s - (if last_completion c then {a} else {}) \<and>
       scheduled_fibers s2 (op_owner op) = Some f \<and>
       (case R f (completion_of a) s2 of
          Fault \<Rightarrow> handle_completion R K c s1 = Some Fault
        | Trap \<Rightarrow> handle_completion R K c s1 = Some Trap
        | Done (result, s3) \<Rightarrow>
            op_inv V s3 \<and> op_owner op \<in> dom (scheduled_fibers s3) \<and> names_request result s3 \<longrightarrow>
            (handle_completion R K c s1 = Some Trap \<and> to_submit result s3 \<noteq> {} \<and> batch_count (os_ring s3) = sq_entries (os_ring s3) \<and>
              (\<exists>n r k. libuc_scheduler_ring_submit K 0 (os_ring s3) (os_kern s3) = ret (n, r, k) \<and> libuc_syscall_failed n)) \<or>
            (\<exists>s'. handle_completion R K c s1 = ret s' \<and> op_inv V s' \<and> in_flight s' = in_flight s3 \<union> to_submit result s3)))"
proof -
  obtain op f where h: "a \<in> in_flight s" "op_completion op = \<lparr>c_result = cq_res c, c_flags = cq_flags c\<rparr>"
    "op_state op = (if last_completion c then OPERATION_COMPLETE else OPERATION_IN_FLIGHT)"
    "op_inv V (s1\<lparr>operations := (operations s)(a \<mapsto> op)\<rparr>)" "scheduled_fibers s1 (op_owner op) = Some f"
    "in_flight (s1\<lparr>operations := (operations s)(a \<mapsto> op)\<rparr>) = in_flight s - (if last_completion c then {a} else {})"
    "\<And>R. handle_completion R K c s1 = dispatch R K (op_owner op) (completion_of a) (s1\<lparr>operations := (operations s)(a \<mapsto> op)\<rparr>)"
    using completion_stored [OF assms(2-5), of K] by metis
  let ?s2 = "s1\<lparr>operations := (operations s)(a \<mapsto> op)\<rparr>"
  have f: "scheduled_fibers ?s2 (op_owner op) = Some f" using h(5) by simp
  have "case R f (completion_of a) ?s2 of
          Fault \<Rightarrow> handle_completion R K c s1 = Some Fault
        | Trap \<Rightarrow> handle_completion R K c s1 = Some Trap
        | Done (result, s3) \<Rightarrow>
            op_inv V s3 \<and> op_owner op \<in> dom (scheduled_fibers s3) \<and> names_request result s3 \<longrightarrow>
            (handle_completion R K c s1 = Some Trap \<and> to_submit result s3 \<noteq> {} \<and> batch_count (os_ring s3) = sq_entries (os_ring s3) \<and>
              (\<exists>n r k. libuc_scheduler_ring_submit K 0 (os_ring s3) (os_kern s3) = ret (n, r, k) \<and> libuc_syscall_failed n)) \<or>
            (\<exists>s'. handle_completion R K c s1 = ret s' \<and> op_inv V s' \<and> in_flight s' = in_flight s3 \<union> to_submit result s3)"
  proof (cases "R f (completion_of a) ?s2")
    case (Done y)
    obtain result s3 where y: "y = (result, s3)" by (cases y)
    show ?thesis unfolding Done y outcome.case prod.case h(7) using dispatch_inv [OF assms(1) f] Done y by blast
  qed (use f in \<open>simp_all add: h(7) dispatch_def\<close>)
  then show ?thesis using h(1-4,6) f by blast
qed

theorem completion_keeps_invariant_witness:
  "\<exists>c r s'. libuc_scheduler_ring_reap (os_ring sim_operations) = Done (Some c, r) \<and> \<not> last_completion c \<and>
    handle_completion sim_resume sim_kernel c (sim_operations\<lparr>os_ring := r\<rparr>) = ret s' \<and> op_inv sim_view s' \<and> in_flight s' = {0x500, 0x600}"
proof -
  let ?c = "(sim_cqe 0x500)\<lparr>cq_flags := IORING_CQE_F_MORE\<rparr>"
  let ?rq = "\<lparr>rq_kind = REQUEST_NEXT, rq_operation = 0x600\<rparr>"
  have "ring_wf (os_ring sim_operations)" using sim_operations_inv(1) by (simp add: op_inv_def)
  from reap_pending(1) [OF this] obtain r where r: "libuc_scheduler_ring_reap (os_ring sim_operations) = Done (Some ?c, r)"
    "r = (os_ring sim_operations)\<lparr>cq_head := cq_head (os_ring sim_operations) + 1\<rparr>"
    by (simp add: sim_pending)
  have l: "\<not> last_completion ?c" by (simp add: last_completion_def IORING_CQE_F_MORE_def)
  have n: "batch_count r \<noteq> sq_entries r" by (simp add: r(2) sim_operations_def small_ring_def)
  obtain op f s2 where s2: "op_state op = OPERATION_IN_FLIGHT" "s2 = sim_operations\<lparr>os_ring := r, operations := (operations sim_operations)(0x500 \<mapsto> op)\<rparr>"
    "op_inv sim_view s2" "in_flight s2 = {0x500}" "scheduled_fibers s2 (op_owner op) = Some f"
    and R: "case sim_resume f (completion_of 0x500) s2 of
          Fault \<Rightarrow> handle_completion sim_resume sim_kernel ?c (sim_operations\<lparr>os_ring := r\<rparr>) = Some Fault
        | Trap \<Rightarrow> handle_completion sim_resume sim_kernel ?c (sim_operations\<lparr>os_ring := r\<rparr>) = Some Trap
        | Done (result, s3) \<Rightarrow>
            op_inv sim_view s3 \<and> op_owner op \<in> dom (scheduled_fibers s3) \<and> names_request result s3 \<longrightarrow>
            (handle_completion sim_resume sim_kernel ?c (sim_operations\<lparr>os_ring := r\<rparr>) = Some Trap \<and> to_submit result s3 \<noteq> {} \<and>
              batch_count (os_ring s3) = sq_entries (os_ring s3) \<and>
              (\<exists>n r k. libuc_scheduler_ring_submit sim_kernel 0 (os_ring s3) (os_kern s3) = ret (n, r, k) \<and> libuc_syscall_failed n)) \<or>
            (\<exists>s'. handle_completion sim_resume sim_kernel ?c (sim_operations\<lparr>os_ring := r\<rparr>) = ret s' \<and> op_inv sim_view s' \<and>
              in_flight s' = in_flight s3 \<union> to_submit result s3)"
    using completion_keeps_invariant [OF sim_enter_ok sim_operations_inv(1) r(1) refl refl, of sim_resume] l
    unfolding sim_operations_inv(2) by (auto simp: sim_cqe_def)
  have rq: "op_requests s2 0x700 = Some ?rq" "operations s2 0x600 = operations sim_operations 0x600" "os_ring s2 = r"
    by (simp_all add: s2(2) sim_operations_def)
  then have "sim_resume f (completion_of 0x500) s2 = Done (\<lparr>res_kind = UC_FIBER_SUSPENDED, res_value = 0x700\<rparr>, s2)"
    "names_request \<lparr>res_kind = UC_FIBER_SUSPENDED, res_value = 0x700\<rparr> s2"
    "to_submit \<lparr>res_kind = UC_FIBER_SUSPENDED, res_value = 0x700\<rparr> s2 = {0x600}"
    by (auto simp: sim_resume_def names_request_def to_submit_def sim_operations_def)
  then have "\<exists>s'. handle_completion sim_resume sim_kernel ?c (sim_operations\<lparr>os_ring := r\<rparr>) = ret s' \<and> op_inv sim_view s' \<and> in_flight s' = {0x500, 0x600}"
    using R s2(3-5) n rq(3) by (auto simp: insert_commute)
  then show ?thesis using r(1) l by blast
qed

end
