(* ===== verification/Uc_Progress.thy ===== *)
theory Uc_Progress
  imports Uc_Run Uc_Sim_System
begin

text \<open>
  Progress: the reactor runs a program that makes finitely many calls to its end.
\<close>

section \<open>The property\<close>

text \<open>C3. The reactor does not hang on a program that does not: when every call lowers a measure of the
  program's state, and the kernel, asked to wait for a completion that is outstanding, posts one before it
  returns, a run from the invariant returns. It ends in a trap, or stopped by a process exit with its status,
  or with status zero and no fiber left that could still run.\<close>

theorem scheduler_run_returns:
  assumes "kernel_ok V K" "fiber_arch A" "here \<noteq> 0" "enter_waits V K"
    and "sched_inv V A F {} rs ps s" "behaves K A U here s" "winds_down K A U here m s"
  shows "libuc_scheduler_run K A U here s = Some Trap \<or> (\<exists>st s'. libuc_scheduler_run K A U here s = ret (st, s') \<and>
    (stops_at K A U here s st s' \<or> st = 0 \<and> reaches K A U here s s' \<and> (\<forall>f \<in> dom (activations s'). \<not> alive s' f)))"
proof -
  obtain y where y: "libuc_scheduler_run K A U here s = Some y" using run_returns [OF assms] by blast
  from run_outcome [OF assms(1-3) this assms(5,6)] show ?thesis
    using drained_dead unfolding y finished_def by fastforce
qed

text \<open>A program that runs one fiber to its end and then the other.\<close>

definition ending_prog :: "(sim, x86_context, x86_state, call) prog" where
  "ending_prog f e c res w m k = \<lparr>m_call = Return 0, m_regs = sim_regs, m_tp = f + 0x900, m_frame = f - 0x700, m_mem = m,
     m_world = if w = Call_yield then Call_exit 0 else Call_exit 1\<rparr>"

definition calls_left :: "call \<Rightarrow> nat" where
  "calls_left w = (if w = Call_yield then 2 else if w = Call_exit 0 then 1 else 0)"

abbreviation "ending \<equiv> turn sim_kernel sim_arch ending_prog 0x8000"

lemma ending_turns:
  "\<exists>s1 s2. ending (both_ready Call_yield) = ret (None, s1) \<and> ending s1 = ret (None, s2) \<and>
     ready_head s1 \<noteq> 0 \<and> well_behaved sim_arch ending_prog s1 \<and>
     world s1 = Call_exit 0 \<and> world s2 = Call_exit 1 \<and> ready_head s2 = 0 \<and>
     parked_count s1 = 0 \<and> parked_count s2 = 0 \<and> dom (activations s1) = {one, two} \<and> dom (activations s2) = {one, two}"
  by (simp add: both_ready_def sim_system_def turn_def dequeue_def set_fiber_def libuc_fiber_resume_def run_program_def resumes_as_def
      ending_prog_def do_call_def libuc_fiber_exit_def libuc_fiber_current_def thread_local_read_def thread_local_install_def exit_fiber_def suspend_def
      new_request_def set_request_def poison_def handle_def handle_exit_def sim_fiber_def Let_def x86_64_arch_def x86_64_fiber_context_make_def
      well_behaved_def next_move_def move_ok_def target_of_def stack_range_def x86_save_def sim_regs_def in_region_nat insert_commute)

lemma ending_ok:
  "behaves sim_kernel sim_arch ending_prog 0x8000 (both_ready Call_yield) \<and>
   winds_down sim_kernel sim_arch ending_prog 0x8000 calls_left (both_ready Call_yield)"
proof -
  let ?s = "both_ready Call_yield"
  obtain s1 s2 where t: "ending ?s = ret (None, s1)" "ending s1 = ret (None, s2)"
    and s1: "well_behaved sim_arch ending_prog s1" "world s1 = Call_exit 0" "parked_count s1 = 0" "dom (activations s1) = {one, two}"
    and s2: "world s2 = Call_exit 1" "ready_head s2 = 0" "parked_count s2 = 0" "dom (activations s2) = {one, two}"
    using ending_turns by metis
  have s: "world ?s = Call_yield" "parked_count ?s = 0" "dom (activations ?s) = {one, two}"
    by (auto simp: both_ready_def sim_system_def)
  have reach: "s' \<in> {?s, s1, s2}" if "reaches sim_kernel sim_arch ending_prog 0x8000 ?s s'" for s'
    using that
  proof (induction "?s" s' rule: reaches.induct)
    case (turned s' s'')
    then show ?case using t s2(2) by auto
  next
    case (waited s' s3 s'')
    then show ?case using s(2) s1(3) s2(3) by auto
  qed simp
  have "well_behaved sim_arch ending_prog ?s"
    by (simp add: both_ready_def sim_system_def sim_fiber_def Let_def x86_64_arch_def x86_64_fiber_context_make_def resumes_as_def ending_prog_def
        well_behaved_def next_move_def move_ok_def target_of_def stack_range_def x86_save_def sim_regs_def in_region_nat)
  then have "behaves sim_kernel sim_arch ending_prog 0x8000 ?s"
    unfolding behaves_def using reach s s1 s2 by fastforce
  moreover have "winds_down sim_kernel sim_arch ending_prog 0x8000 calls_left ?s"
    unfolding winds_down_def using reach t s s1 s2 by (fastforce simp: calls_left_def)
  ultimately show ?thesis ..
qed

theorem scheduler_run_returns_witness:
  "\<exists>y. libuc_scheduler_run sim_kernel sim_arch ending_prog 0x8000 (both_ready Call_yield) = Some y \<and> y \<noteq> Fault"
  using scheduler_run_returns [OF sim_kernel_ok x86_64_fibers.fiber_arch_axioms _ sim_enter_waits both_ready_inv
      conjunct1 [OF ending_ok] conjunct2 [OF ending_ok]] by auto

end
