(* ===== verification/Uc_Thread_Machine.thy ===== *)
theory Uc_Thread_Machine
  imports Uc_Fiber
begin

text \<open>
  The abstract specification of the fiber scheduler: threads that are ready, parked, joining or
  exited, and what each call of the front thread and each completion does to them. There is no
  memory, no ring and no queue link here; the refinement is in \<open>Uc_Thread_Refinement\<close>.
\<close>

section \<open>States\<close>

text \<open>A ready thread goes on with the resumption; an exited one keeps its status until it is joined.\<close>

datatype activity = Ready resumption | Parked sqe | Joining u64 | Exited i32

record threads =
  queue :: "u64 list"
  activity :: "u64 \<rightharpoonup> activity"
  detached :: "u64 set"

definition exited :: "threads \<Rightarrow> u64 \<Rightarrow> bool" where
  "exited T t \<longleftrightarrow> (\<exists>st. activity T t = Some (Exited st))"

definition joined_by :: "threads \<Rightarrow> u64 \<Rightarrow> u64 \<Rightarrow> bool" where
  "joined_by T t g \<longleftrightarrow> activity T g = Some (Joining t)"

text \<open>A thread may be joined or detached once: while it has no joiner and is not detached.\<close>

definition claimable :: "threads \<Rightarrow> u64 \<Rightarrow> bool" where
  "claimable T t \<longleftrightarrow> t \<in> dom (activity T) \<and> t \<notin> detached T \<and> (\<forall>g. \<not> joined_by T t g)"

section \<open>Steps\<close>

datatype event = Calls u64 call | Completes u64 i32

definition goes_on :: "u64 list \<Rightarrow> u64 \<Rightarrow> i64 \<Rightarrow> threads \<Rightarrow> threads" where
  "goes_on rs f r T = T\<lparr>queue := rs @ [f], activity := (activity T)(f \<mapsto> Ready (Answer r))\<rparr>"

definition forget :: "u64 \<Rightarrow> threads \<Rightarrow> threads" where
  "forget t T = T\<lparr>activity := (activity T)(t := None), detached := detached T - {t}\<rparr>"

inductive step :: "event \<Rightarrow> threads \<Rightarrow> threads \<Rightarrow> bool" where
  yields: "queue T = f # rs \<Longrightarrow> step (Calls f Call_yield) T (goes_on rs f 0 T)"
| awaits: "queue T = f # rs \<Longrightarrow> sq_flags e = 0 \<Longrightarrow>
    step (Calls f (Call_await e)) T (T\<lparr>queue := rs, activity := (activity T)(f \<mapsto> Parked e)\<rparr>)"
| starts: "queue T = f # rs \<Longrightarrow> g \<noteq> 0 \<Longrightarrow> g \<notin> dom (activity T) \<Longrightarrow>
    step (Calls f (Call_start n e a)) T (T\<lparr>queue := rs @ [f, g], activity := (activity T)(f \<mapsto> Ready (Answer g), g \<mapsto> Ready (Enter e a))\<rparr>)"
| starts_none: "queue T = f # rs \<Longrightarrow> step (Calls f (Call_start n e a)) T (goes_on rs f 0 T)"
| joins_exited: "queue T = f # rs \<Longrightarrow> t \<noteq> f \<Longrightarrow> claimable T t \<Longrightarrow> activity T t = Some (Exited st) \<Longrightarrow>
    step (Calls f (Call_join t)) T (goes_on rs f (scast st) (forget t T))"
| joins: "queue T = f # rs \<Longrightarrow> t \<noteq> f \<Longrightarrow> claimable T t \<Longrightarrow> \<not> exited T t \<Longrightarrow>
    step (Calls f (Call_join t)) T (T\<lparr>queue := rs, activity := (activity T)(f \<mapsto> Joining t)\<rparr>)"
| detaches_exited: "queue T = f # rs \<Longrightarrow> claimable T t \<Longrightarrow> exited T t \<Longrightarrow>
    step (Calls f (Call_detach t)) T (goes_on rs f 0 (forget t T))"
| detaches: "queue T = f # rs \<Longrightarrow> claimable T t \<Longrightarrow> \<not> exited T t \<Longrightarrow>
    step (Calls f (Call_detach t)) T (goes_on rs f 0 (T\<lparr>detached := insert t (detached T)\<rparr>))"
| exits_detached: "queue T = f # rs \<Longrightarrow> exit_status c = Some st \<Longrightarrow> f \<in> detached T \<Longrightarrow>
    step (Calls f c) T ((forget f T)\<lparr>queue := rs\<rparr>)"
| exits: "queue T = f # rs \<Longrightarrow> exit_status c = Some st \<Longrightarrow> claimable T f \<Longrightarrow>
    step (Calls f c) T (T\<lparr>queue := rs, activity := (activity T)(f \<mapsto> Exited st)\<rparr>)"
| exits_joined: "queue T = f # rs \<Longrightarrow> exit_status c = Some st \<Longrightarrow> joined_by T f g \<Longrightarrow>
    step (Calls f c) T (goes_on rs g (scast st) (forget f T))"
| completes: "activity T g = Some (Parked e) \<Longrightarrow> step (Completes g r) T (goes_on (queue T) g (scast r) T)"

inductive steps :: "event list \<Rightarrow> threads \<Rightarrow> threads \<Rightarrow> bool" where
  none: "steps [] T T"
| more: "step e T T1 \<Longrightarrow> steps es T1 T2 \<Longrightarrow> steps (e # es) T T2"

lemma steps_append: "steps es T T1 \<Longrightarrow> steps es' T1 T2 \<Longrightarrow> steps (es @ es') T T2"
  by (induction rule: steps.induct) (auto intro: steps.intros)

lemma steps_one: "step e T T' \<Longrightarrow> steps [e] T T'"
  by (blast intro: steps.intros)

section \<open>What every reachable state satisfies\<close>

definition threads_ok :: "threads \<Rightarrow> bool" where
  "threads_ok T \<longleftrightarrow> distinct (queue T) \<and> finite (dom (activity T)) \<and>
     (\<forall>f. f \<in> set (queue T) \<longleftrightarrow> (\<exists>r. activity T f = Some (Ready r))) \<and>
     (\<forall>t \<in> detached T. t \<in> dom (activity T) \<and> \<not> exited T t) \<and>
     (\<forall>g t. joined_by T t g \<longrightarrow> t \<in> dom (activity T) \<and> \<not> exited T t \<and> t \<notin> detached T \<and>
       (\<forall>g'. joined_by T t g' \<longrightarrow> g' = g))"

lemmas threads_defs = threads_ok_def exited_def joined_by_def claimable_def goes_on_def forget_def

lemma threads_okD:
  assumes "threads_ok T"
  shows "distinct (queue T)" "finite (dom (activity T))" "f \<in> set (queue T) \<longleftrightarrow> (\<exists>r. activity T f = Some (Ready r))"
    "t \<in> detached T \<Longrightarrow> t \<in> dom (activity T) \<and> \<not> exited T t"
    "joined_by T t g \<Longrightarrow> t \<in> dom (activity T) \<and> \<not> exited T t \<and> t \<notin> detached T"
    "joined_by T t g \<Longrightarrow> joined_by T t g' \<Longrightarrow> g' = g"
  using assms unfolding threads_ok_def by blast+

lemma step_keeps_ok: "step e T T' \<Longrightarrow> threads_ok T \<Longrightarrow> threads_ok T'"
  by (induction rule: step.induct) (auto simp: threads_defs, metis activity.distinct(3) option.inject)

lemma steps_keep_ok: "steps es T T' \<Longrightarrow> threads_ok T \<Longrightarrow> threads_ok T'"
  by (induction rule: steps.induct) (auto dest: step_keeps_ok)

section \<open>Deadlock\<close>

definition waits_for :: "threads \<Rightarrow> u64 \<Rightarrow> u64" where
  "waits_for T f = (case activity T f of Some (Joining t) \<Rightarrow> t | _ \<Rightarrow> f)"

definition deadlocked :: "threads \<Rightarrow> bool" where
  "deadlocked T \<longleftrightarrow> queue T = [] \<and> (\<forall>f e. activity T f \<noteq> Some (Parked e)) \<and> (\<exists>f t. joined_by T t f)"

text \<open>Since a thread has one joiner, threads that only wait for each other wait in cycles.\<close>

lemma deadlock_cycle:
  assumes ok: "threads_ok T" and dead: "deadlocked T" and f: "f \<in> dom (activity T)" "\<not> exited T f"
  shows "\<exists>n > 0. (waits_for T ^^ n) f = f" "joined_by T (waits_for T f) f"
proof -
  note D = threads_okD [OF ok]
  define L where "L = {g \<in> dom (activity T). \<not> exited T g}"
  have live: "joined_by T (waits_for T g) g" if "g \<in> L" for g
    using that D(3) [of g] dead by (auto simp: L_def deadlocked_def joined_by_def waits_for_def exited_def split: activity.splits)
  then show "joined_by T (waits_for T f) f" using f by (simp add: L_def)
  have stay: "waits_for T g = g" if "g \<notin> L" for g
    using that by (auto simp: L_def waits_for_def exited_def split: option.splits)
  have into: "waits_for T g \<in> L" if "g \<in> L" for g using D(5) [OF live [OF that]] by (simp add: L_def)
  have "inj (waits_for T)"
  proof (rule injI)
    fix g h assume eq: "waits_for T g = waits_for T h"
    show "g = h"
    proof (cases "g \<in> L \<and> h \<in> L")
      case True
      then have "joined_by T (waits_for T g) g" "joined_by T (waits_for T g) h" using live [of g] live [of h] eq by simp_all
      then show ?thesis by (rule D(6) [symmetric])
    next
      case False
      then show ?thesis using into [of g] into [of h] stay [of g] stay [of h] eq by metis
    qed
  qed
  moreover have "(waits_for T ^^ n) f \<in> L" for n using f into by (induction n) (auto simp: L_def)
  then have "{y. \<exists>n. y = (waits_for T ^^ n) f} \<subseteq> L" by blast
  moreover have "finite L" using D(2) by (simp add: L_def)
  ultimately obtain n where "n > 0" "(waits_for T ^^ n) f = f"
    using funpow_inj_finite [of "waits_for T" f] finite_subset by blast
  then show "\<exists>n > 0. (waits_for T ^^ n) f = f" by blast
qed

end
