(* ===== verification/Uc_Thread_Abstraction.thy ===== *)
theory Uc_Thread_Abstraction
  imports Uc_Run Uc_Thread_Machine
begin

text \<open>
  The abstract thread state of a system. What it says of a fiber is read off its record, its
  activation and the request it is suspended in. Here are the facts that make the refinement
  proofs short: when nothing changes for a fiber, who waits for whom, and how a state read off the
  fibers equals one computed by the thread machine.
\<close>

section \<open>The abstract state of a system\<close>

definition own_request :: "('k, 'c, 'w) system \<Rightarrow> u64 \<Rightarrow> fiber_request option" where
  "own_request s f = (case activations s f of Some (In_call q) \<Rightarrow> requests s q | _ \<Rightarrow> None)"

definition resumption_of :: "('k, 'c, 'w) system \<Rightarrow> u64 \<Rightarrow> resumption" where
  "resumption_of s f = (case resumes_as f s of Done r \<Rightarrow> r | _ \<Rightarrow> Answer 0)"

definition blocked_in :: "fiber_request \<Rightarrow> activity" where
  "blocked_in rq = (if r_kind rq = REQUEST_JOIN then Joining (case r_ask rq of Target t \<Rightarrow> t | _ \<Rightarrow> 0)
     else Parked (case r_ask rq of Await_argument e \<Rightarrow> e | _ \<Rightarrow> zero_sqe))"

text \<open>What the fiber is doing, given whether it is in the ready queue.\<close>

definition doing :: "bool \<Rightarrow> ('k, 'c, 'w) system \<Rightarrow> u64 \<Rightarrow> activity" where
  "doing ready s f =
     (if life_of s f = FIBER_EXITED then Exited (status_of s f)
      else if ready then Ready (resumption_of s f)
      else case own_request s f of Some rq \<Rightarrow> blocked_in rq | None \<Rightarrow> Parked zero_sqe)"

definition threads_of :: "u64 set \<Rightarrow> u64 list \<Rightarrow> ('k, 'c, 'w) system \<Rightarrow> threads" where
  "threads_of F rs s =
     \<lparr>queue = rs, activity = (\<lambda>f. if f \<in> F then Some (doing (f \<in> set rs) s f) else None),
      detached = {f \<in> F. life_of s f = FIBER_DETACHED}\<rparr>"

section \<open>What does not change\<close>

definition unchanged :: "('k, 'c, 'w) system \<Rightarrow> ('k, 'c, 'w) system \<Rightarrow> u64 \<Rightarrow> bool" where
  "unchanged s s' g \<longleftrightarrow> life_of s' g = life_of s g \<and> (\<forall>b. doing b s' g = doing b s g)"

lemma unchanged_refl [simp]: "unchanged s s g"
  by (simp add: unchanged_def)

lemma unchanged_trans: "unchanged s s1 g \<Longrightarrow> unchanged s1 s2 g \<Longrightarrow> unchanged s s2 g"
  by (simp add: unchanged_def)

lemma unchangedI:
  assumes "life_of s' g = life_of s g" "status_of s' g = status_of s g" "alive s g \<Longrightarrow> activations s' g = activations s g"
    "\<And>q. alive s g \<Longrightarrow> activations s g = Some (In_call q) \<Longrightarrow> requests s' q = requests s q"
    "alive s g \<Longrightarrow> activations s g = Some At_entry \<Longrightarrow> resumes_as g s' = resumes_as g s"
  shows "unchanged s s' g"
proof (cases "alive s g")
  case True
  then have "resumes_as g s' = resumes_as g s \<and> own_request s' g = own_request s g"
    using assms(3-5) by (cases "activations s g" rule: option.exhaust_sel; cases "the (activations s g)")
      (simp_all add: resumes_as_def own_request_def)
  then show ?thesis using assms(1,2) by (simp add: unchanged_def doing_def resumption_of_def)
qed (use assms(1,2) in \<open>simp add: unchanged_def doing_def alive_life\<close>)

lemma unchanged_relinked: "relinked s s' \<Longrightarrow> unchanged s s' g"
  by (rule unchangedI) (simp_all add: relinked_same relinked_parts)

lemma enqueue_relinked:
  assumes "libuc_scheduler_enqueue f s = Done s'"
  shows "relinked s s'"
proof -
  obtain fb where fb: "fibers s f = Some fb" using assms by (auto simp: libuc_scheduler_enqueue_def set_fiber_def outcome_simps)
  show ?thesis
  proof (cases "ready_tail s = 0")
    case True
    then show ?thesis using assms fb by (auto simp: libuc_scheduler_enqueue_def set_fiber_def relinked_def unlink_def fun_eq_iff)
  next
    case False
    then obtain tb where tb: "((fibers s)(f \<mapsto> fb\<lparr>f_ready_next := 0\<rparr>)) (ready_tail s) = Some tb"
      using assms fb by (auto simp: libuc_scheduler_enqueue_def set_fiber_def outcome_simps simp del: fun_upd_apply)
    let ?fs = "(fibers s)(f \<mapsto> fb\<lparr>f_ready_next := 0\<rparr>, ready_tail s \<mapsto> tb\<lparr>f_ready_next := f\<rparr>)"
    have "s' = s\<lparr>ready_count := ready_count s + 1, fibers := ?fs, ready_tail := f\<rparr>"
      using assms fb tb False by (simp add: libuc_scheduler_enqueue_def set_fiber_def del: fun_upd_apply)
    moreover have "unlink ?fs = unlink (fibers s)"
      using fb tb by (auto simp: unlink_def fun_eq_iff split: if_splits)
    ultimately show ?thesis by (simp add: relinked_def)
  qed
qed

lemmas unchanged_enqueue = unchanged_relinked [OF enqueue_relinked]

lemma unchanged_parts:
  "fibers s' = fibers s \<Longrightarrow> requests s' = requests s \<Longrightarrow> activations s' = activations s \<Longrightarrow> unchanged s s' g"
  by (rule unchangedI) (simp_all add: life_of_def status_of_def resumes_as_def)

lemma set_request_unchanged:
  assumes "set_request q h s = Done s'" "alive s g \<Longrightarrow> activations s g \<noteq> Some (In_call q)"
  shows "unchanged s s' g"
  using assms by (intro unchangedI) (auto simp: set_request_def life_of_def status_of_def resumes_as_def outcome_simps)

lemma unchanged_update:
  assumes "fibers s t = Some tb" "f_life tb' = f_life tb" "f_status tb' = f_status tb" "f_entry tb' = f_entry tb" "f_argument tb' = f_argument tb"
  shows "unchanged s (s\<lparr>fibers := (fibers s)(t \<mapsto> tb'), joining_count := n\<rparr>) g"
  using assms by (intro unchangedI) (auto simp: life_of_def status_of_def resumes_as_def)

text \<open>The fiber at \<open>g\<close> is suspended, if it is, in a request that is in its own memory.\<close>

definition self_contained :: "('k, 'c, 'w) system \<Rightarrow> u64 \<Rightarrow> bool" where
  "self_contained s g \<longleftrightarrow> (\<forall>q gb. alive s g \<longrightarrow> activations s g = Some (In_call q) \<longrightarrow> fibers s g = Some gb \<longrightarrow> q \<in> footprint gb)"

lemma self_contained_inv: "fiber_inv V A F R s \<Longrightarrow> g \<in> F - R \<Longrightarrow> self_contained s g"
  unfolding self_contained_def footprint_def by (auto elim: suspended_request)

lemma self_contained_asking: "asking V A F rs ps s f fb q rq \<Longrightarrow> self_contained s f"
  using askingD(3,4,7) by (fastforce simp: self_contained_def footprint_def)

lemma unchanged_frame:
  assumes inv: "fiber_inv V A F R s" and fr: "frame_on M s s'" and g: "g \<in> F" "fibers s g = Some gb" "footprint gb \<subseteq> M" "self_contained s g"
  shows "unchanged s s' g"
proof -
  note ff = frame_fiber [OF inv fr g(1-3)]
  have "requests s' q = requests s q" if "alive s g" "activations s g = Some (In_call q)" for q
    using ff(6) [of q] that g(2,4) by (auto simp: self_contained_def)
  then show ?thesis
    using g(2) by (intro unchangedI) (auto simp: ff status_of_def resumes_as_def)
qed

lemma destroyed_unchanged:
  assumes K: "munmap_ok (v_mapped V) K" and inv: "fiber_inv V A F R s" and t: "t \<in> F" and d: "destroy_or_trap K t s = Done s'"
    and g: "g \<in> F - {t}" "self_contained s g"
  shows "unchanged s s' g"
proof -
  note wf = fiber_invD(3) [OF inv]
  obtain tb where tb: "fibers s t = Some tb" using fibers_wfD [OF wf t] by metis
  obtain gb where gb: "fibers s g = Some gb" using fibers_wfD [OF wf] g(1) by (metis DiffD1)
  obtain ok s1 where "libuc_fiber_destroy K t s = Done (ok, s1)" "frame_on (- footprint tb) s s1"
    using destroy_ok [OF K wf t tb] by metis
  then have "frame_on (- footprint tb) s s'" using d by (auto simp: destroy_or_trap_def outcome_simps)
  moreover have "footprint gb \<subseteq> - footprint tb" using fibers_wf_apart [OF wf _ t _ gb tb] g(1) by blast
  ultimately show ?thesis using unchanged_frame [OF inv _ _ gb] g by blast
qed

section \<open>Reading the abstract state\<close>

lemma threads_of_simps [simp]:
  "queue (threads_of F rs s) = rs" "detached (threads_of F rs s) = {f \<in> F. life_of s f = FIBER_DETACHED}"
  "activity (threads_of F rs s) g = (if g \<in> F then Some (doing (g \<in> set rs) s g) else None)"
  "dom (activity (threads_of F rs s)) = F"
  by (auto simp: threads_of_def split: if_splits)

lemma exited_iff: "exited (threads_of F rs s) t \<longleftrightarrow> t \<in> F \<and> life_of s t = FIBER_EXITED"
  by (auto simp: exited_def doing_def blocked_in_def split: option.splits)

text \<open>A fiber is joining another exactly when its request is in the other's record.\<close>

lemma joined_by_iff:
  assumes inv: "sched_inv V A F {} rs ps s"
  shows "joined_by (threads_of F rs s) t g \<longleftrightarrow>
    g \<in> F \<and> t \<in> F \<and> joiner_of s t \<noteq> 0 \<and> waits s g (joiner_of s t) (is_join t)"
proof
  have i: "fiber_inv V A F {} s" "wait_inv F {} rs ps s" using inv by (simp_all add: sched_inv_def)
  note D = wait_invD [OF i(2)]
  assume "joined_by (threads_of F rs s) t g"
  then have g: "g \<in> F" "doing (g \<in> set rs) s g = Joining t" by (auto simp: joined_by_def split: if_splits)
  then have a: "alive s g" "g \<notin> set rs" by (auto simp: doing_def alive_life split: if_splits)
  then obtain q where q: "activations s g = Some (In_call q)" "waiting F ps s q" using D(7) [of g] g(1) by auto
  have own: "h = g" if "h \<in> F - {}" "waits s h q P" for h P
    using activation_unique [OF i(1), of g q h] that g(1) a(1) q(1) by (auto simp: waits_def)
  have d: "doing (g \<in> set rs) s g = (case requests s q of Some rq \<Rightarrow> blocked_in rq | None \<Rightarrow> Parked zero_sqe)"
    using a q(1) by (simp add: doing_def alive_life own_request_def)
  from q(2) consider "q \<in> set ps" | u where "u \<in> F" "joiner_of s u = q" "q \<noteq> 0" by (auto simp: waiting_def)
  then show "g \<in> F \<and> t \<in> F \<and> joiner_of s t \<noteq> 0 \<and> waits s g (joiner_of s t) (is_join t)"
  proof cases
    case 1
    then have "waits s g q is_await" using D(3) [of q] own by blast
    then show ?thesis using d g(2) by (auto simp: waits_def is_await_def blocked_in_def)
  next
    case (2 u)
    then have w: "waits s g q (is_join u)" using D(5) [of u] own by blast
    then have "u = t" using d g(2) by (auto simp: waits_def is_join_def blocked_in_def)
    then show ?thesis using w 2 g(1) by simp
  qed
next
  assume r: "g \<in> F \<and> t \<in> F \<and> joiner_of s t \<noteq> 0 \<and> waits s g (joiner_of s t) (is_join t)"
  then have "waiting F ps s (joiner_of s t)" by (auto simp: waiting_def)
  then have "g \<notin> set rs" using waits_not_ready [of F "{}" rs ps s g] inv r by (auto simp: sched_inv_def)
  then show "joined_by (threads_of F rs s) t g"
    using r by (auto simp: joined_by_def doing_def waits_def is_join_def alive_life own_request_def blocked_in_def)
qed

lemma claimable_iff:
  assumes inv: "sched_inv V A F {} rs ps s"
  shows "claimable (threads_of F rs s) t \<longleftrightarrow> t \<in> F \<and> life_of s t \<noteq> FIBER_DETACHED \<and> joiner_of s t = 0"
proof -
  have "wait_inv F {} rs ps s" using inv by (simp add: sched_inv_def)
  from wait_invD(5) [OF this, of t] show ?thesis
    by (auto simp: claimable_def joined_by_iff [OF inv])
qed

lemma threads_of_ok:
  assumes inv: "sched_inv V A F {} rs ps s"
  shows "threads_ok (threads_of F rs s)"
proof -
  have i: "ready_queue s rs" "fiber_inv V A F {} s" "wait_inv F {} rs ps s" using inv by (simp_all add: sched_inv_def)
  note D = wait_invD [OF i(3)] and J = joined_by_iff [OF inv]
  have "f \<in> set rs \<longleftrightarrow> (\<exists>r. activity (threads_of F rs s) f = Some (Ready r))" for f
    using D(1,2) by (auto simp: doing_def alive_life blocked_in_def split: option.splits if_splits)
  moreover have "t \<in> F \<and> life_of s t = FIBER_LIVE" if "joined_by (threads_of F rs s) t g" for t g
    using that D(4) [of t] unfolding J by (auto simp: waits_def)
  moreover have "g' = g" if "joined_by (threads_of F rs s) t g" "joined_by (threads_of F rs s) t g'" for t g g'
    using that unfolding J by (auto simp: waits_def)
  ultimately show ?thesis
    using i(1) fiber_invD(1) [OF i(2)] by (auto simp: threads_ok_def exited_iff ready_queue_def)
qed

section \<open>A turn\<close>

text \<open>
  Between the resume of \<open>f\<close>, the front fiber of \<open>s0\<close>, and the end of its turn: it has made the call
  \<open>c\<close>, and nothing has changed for the others.
\<close>

definition in_hand ::
    "'k kernel_view \<Rightarrow> ('c, 'r) arch \<Rightarrow> u64 set \<Rightarrow> u64 \<Rightarrow> u64 list \<Rightarrow> u64 list \<Rightarrow> ('k, 'c, 'w) system \<Rightarrow> ('k, 'c, 'w) system \<Rightarrow>
     'c fiber \<Rightarrow> u64 \<Rightarrow> call \<Rightarrow> bool" where
  "in_hand V A F f rs ps s0 s fb q c \<longleftrightarrow> sched_inv V A F {} (f # rs) ps s0 \<and>
     asking V A F rs ps s f fb q \<lparr>r_kind = call_kind c, r_ask = call_ask c, r_result = 0, r_fiber = f\<rparr> \<and>
     (\<forall>g \<in> F - {f}. unchanged s0 s g) \<and> (\<forall>t. joiner_of s t = joiner_of s0 t) \<and>
     (if exit_status c = None then life_of s f = life_of s0 f
      else f_status fb = the (exit_status c) \<and> f_life fb = (if life_of s0 f = FIBER_LIVE then FIBER_EXITED else life_of s0 f)) \<and>
     (\<forall>t. target_of c = Some t \<longrightarrow> t \<in> F) \<and>
     sring s = sring s0 \<and> kern s = kern s0 \<and> (\<forall>t. map_option holdings (fibers s t) = map_option holdings (fibers s0 t))"

lemma in_handD:
  assumes "in_hand V A F f rs ps s0 s fb q c"
  shows "sched_inv V A F {} (f # rs) ps s0"
    "asking V A F rs ps s f fb q \<lparr>r_kind = call_kind c, r_ask = call_ask c, r_result = 0, r_fiber = f\<rparr>"
    "g \<in> F - {f} \<Longrightarrow> unchanged s0 s g" "joiner_of s t = joiner_of s0 t"
    "exit_status c = None \<Longrightarrow> life_of s f = life_of s0 f"
    "target_of c = Some t \<Longrightarrow> t \<in> F" "f \<in> F" "f \<notin> set rs" "life_of s0 f \<noteq> FIBER_EXITED"
    "sring s = sring s0" "kern s = kern s0" "map_option holdings (fibers s t) = map_option holdings (fibers s0 t)"
proof -
  show i: "sched_inv V A F {} (f # rs) ps s0"
    "asking V A F rs ps s f fb q \<lparr>r_kind = call_kind c, r_ask = call_ask c, r_result = 0, r_fiber = f\<rparr>"
    "g \<in> F - {f} \<Longrightarrow> unchanged s0 s g" "joiner_of s t = joiner_of s0 t" "exit_status c = None \<Longrightarrow> life_of s f = life_of s0 f"
    "target_of c = Some t \<Longrightarrow> t \<in> F"
    "sring s = sring s0" "kern s = kern s0" "map_option holdings (fibers s t) = map_option holdings (fibers s0 t)"
    using assms unfolding in_hand_def by metis+
  show "f \<in> F" by (rule askingD(2) [OF i(2)])
  show "f \<notin> set rs" using i(1) by (simp add: sched_inv_def ready_queue_def)
  have "wait_inv F {} (f # rs) ps s0" using i(1) by (simp add: sched_inv_def)
  from wait_invD(2) [OF this, of f] show "life_of s0 f \<noteq> FIBER_EXITED" by (simp add: alive_life)
qed

lemma turn_in_hand:
  assumes ready: "turn_ready V K A U here F f rs ps s"
  obtains fb s2 where "turn K A U here s = handle K A f (next_frame U s) s2"
    "in_hand V A F f rs ps s s2 fb (next_frame U s) (next_call U s)" "mem s2 = next_mem U s"
proof -
  have inv: "sched_inv V A F {} (f # rs) ps s" "well_behaved A U s" using ready by (simp_all add: turn_ready_def)
  obtain fb s2 where t: "turn K A U here s = handle K A f (next_frame U s) s2"
    and ask: "asking V A F rs ps s2 f fb (next_frame U s)
       \<lparr>r_kind = call_kind (next_call U s), r_ask = call_ask (next_call U s), r_result = 0, r_fiber = f\<rparr>"
    and life: "f_life fb = (if exit_status (next_call U s) \<noteq> None \<and> life_of s f = FIBER_LIVE then FIBER_EXITED else life_of s f)"
    and st: "exit_status (next_call U s) = Some (the (exit_status (next_call U s))) \<Longrightarrow> f_status fb = the (exit_status (next_call U s))"
    and same: "\<And>t. t \<noteq> f \<Longrightarrow> life_of s2 t = life_of s t" "\<And>t. joiner_of s2 t = joiner_of s t"
      "\<And>t. t \<noteq> f \<Longrightarrow> status_of s2 t = status_of s t" "\<And>x. x \<noteq> next_frame U s \<Longrightarrow> requests s2 x = requests s x"
      "\<And>t. t \<noteq> f \<Longrightarrow> activations s2 t = activations s t"
      "\<And>t. t \<noteq> f \<Longrightarrow> activations s t = Some At_entry \<Longrightarrow> resumes_as t s2 = resumes_as t s"
      "sring s2 = sring s" "kern s2 = kern s" "\<And>t. map_option holdings (fibers s2 t) = map_option holdings (fibers s t)"
    and m: "mem s2 = next_mem U s"
    by (rule turn_asks [OF ready, of "the (exit_status (next_call U s))"]) blast
  have "unchanged s s2 g" if g: "g \<in> F - {f}" for g
  proof (rule unchangedI)
    show "requests s2 q = requests s q" if "alive s g" "activations s g = Some (In_call q)" for q
      using asking_not_waiting(2) [OF ask g] that same(1,4,5) g by (auto simp: alive_life)
  qed (use same(1,3,5,6) g in auto)
  moreover have "life_of s2 f = f_life fb" using askingD(3) [OF ask] by (simp add: life_of_def)
  ultimately have "in_hand V A F f rs ps s s2 fb (next_frame U s) (next_call U s)"
    using inv ask life st same(2,7-) named_in [OF inv] by (auto simp: in_hand_def)
  then show ?thesis using that t m by blast
qed

text \<open>A state read off the fibers equals one computed from the state before.\<close>

lemma threads_eqI:
  "queue T = queue T' \<Longrightarrow> (\<And>g. activity T g = activity T' g) \<Longrightarrow> detached T = detached T' \<Longrightarrow> T = (T' :: threads)"
  by (rule threads.equality) (auto simp: fun_eq_iff)

lemma doing_asking:
  assumes "asking V A F rs ps s f fb q rq" "r_kind rq \<noteq> REQUEST_EXIT" "r_kind rq \<noteq> REQUEST_PROCESS_EXIT"
  shows "doing True s f = Ready (Answer (r_result rq))" "doing False s f = blocked_in rq"
  using askingD(4,5) [OF assms(1)] asking_live(3) [OF assms] assms(2,3)
  by (simp_all add: doing_def alive_life resumption_of_def resumes_as_def own_request_def)

text \<open>The fiber \<open>x\<close> is queued with the answer \<open>v\<close>, and nothing else changes.\<close>

lemma goes_on_eq:
  assumes "x \<in> F" and same: "\<And>g. g \<in> F - {x} \<Longrightarrow> unchanged s0 s' g \<and> (g \<in> set rs \<longleftrightarrow> g \<in> set rs0)"
    and x: "life_of s' x = life_of s0 x" "doing True s' x = Ready (Answer v)"
  shows "threads_of F (rs @ [x]) s' = goes_on rs x v (threads_of F rs0 s0)"
proof (rule threads_eqI)
  show "activity (threads_of F (rs @ [x]) s') g = activity (goes_on rs x v (threads_of F rs0 s0)) g" for g
    using same [of g] x(2) assms(1) by (auto simp: goes_on_def unchanged_def)
  have "life_of s' g = life_of s0 g" if "g \<in> F" for g using that same [of g] x(1) by (cases "g = x") (auto simp: unchanged_def)
  then show "detached (threads_of F (rs @ [x]) s') = detached (goes_on rs x v (threads_of F rs0 s0))"
    by (auto simp: goes_on_def)
qed (simp add: goes_on_def)

text \<open>The fiber \<open>x\<close> is not ready any more, and nothing else changes.\<close>

lemma leaves_eq:
  assumes "x \<in> F" "x \<notin> set rs" and same: "\<And>g. g \<in> F - {x} \<Longrightarrow> unchanged s0 s' g \<and> (g \<in> set rs \<longleftrightarrow> g \<in> set rs0)"
    and x: "life_of s' x = FIBER_DETACHED \<longleftrightarrow> life_of s0 x = FIBER_DETACHED" "doing False s' x = a"
  shows "threads_of F rs s' = (threads_of F rs0 s0)\<lparr>queue := rs, activity := (activity (threads_of F rs0 s0))(x \<mapsto> a)\<rparr>"
    (is "_ = ?T")
proof (rule threads_eqI)
  show "activity (threads_of F rs s') g = activity ?T g" for g
    using same [of g] x(2) assms(1,2) by (auto simp: unchanged_def)
  have "life_of s' g = FIBER_DETACHED \<longleftrightarrow> life_of s0 g = FIBER_DETACHED" if "g \<in> F" for g
    using that same [of g] x(1) by (cases "g = x") (auto simp: unchanged_def)
  then show "detached (threads_of F rs s') = detached ?T" by auto
qed simp

lemma forget_threads_of: "forget t (threads_of F rs s) = threads_of (F - {t}) rs s"
  by (rule threads_eqI) (auto simp: forget_def)

end
