(* ===== verification/Uc_Thread_Refinement.thy ===== *)
theory Uc_Thread_Refinement
  imports Uc_Thread_Abstraction
begin

text \<open>
  A turn refines the thread machine: each handler that returns does the machine's step for the call,
  and a turn that traps has no step to do or was refused something by the kernel.
\<close>

section \<open>The steps\<close>

text \<open>The state after a turn is a step of the thread machine away.\<close>

definition refines ::
    "'k kernel_view \<Rightarrow> ('c, 'r) arch \<Rightarrow> event \<Rightarrow> threads \<Rightarrow> ('k, 'c, 'w) system \<Rightarrow> bool" where
  "refines V A e T s' \<longleftrightarrow> (\<exists>F rs ps. sched_inv V A F {} rs ps s' \<and> step e T (threads_of F rs s'))"

lemma refinesI: "sched_inv V A F {} rs ps s' \<Longrightarrow> threads_of F rs s' = T' \<Longrightarrow> step e T T' \<Longrightarrow> refines V A e T s'"
  unfolding refines_def by metis

lemma yield_refines:
  assumes h: "in_hand V A F f rs ps s0 s fb q Call_yield" and t: "handle K A f q s = ret (None, s')"
  shows "refines V A (Calls f Call_yield) (threads_of F (f # rs) s0) s'"
proof -
  note H = in_handD [OF h]
  obtain s1 where s1: "libuc_scheduler_enqueue f s = Done s1" "relinked s s1" "sched_inv V A F {} (rs @ [f]) ps s1"
    using requeue_inv [OF H(2)] by auto
  then have s': "s' = s1" using t askingD(5) [OF H(2)] by (simp add: handle_def)
  have u: "unchanged s s' g" for g unfolding s' by (rule unchanged_relinked [OF s1(2)])
  have "threads_of F (rs @ [f]) s' = goes_on rs f 0 (threads_of F (f # rs) s0)"
    using unchanged_trans [OF H(3) u] u [of f] H(5) doing_asking(1) [OF H(2)] H(7) by (intro goes_on_eq) (auto simp: unchanged_def)
  then show ?thesis using s1(3) s' by (auto intro!: refinesI step.yields)
qed

lemma await_refines:
  assumes K: "kernel_ok V K" and h: "in_hand V A F f rs ps s0 s fb q (Call_await e)" and t: "handle K A f q s = ret (None, s')"
  shows "refines V A (Calls f (Call_await e)) (threads_of F (f # rs) s0) s'"
proof -
  note H = in_handD [OF h]
  have p: "park K q s = ret s'" using t askingD(5) [OF H(2)] by (auto simp: handle_def outcome_simps)
  have s': "sched_inv V A F {} rs (ps @ [q]) s'" "sq_flags e = 0" using park_inv [OF K H(2)] p by auto
  have "fibers s' = fibers s" "requests s' = requests s" "activations s' = activations s"
    using p askingD(5) [OF H(2)] by (auto simp: park_def outcome_simps split: if_splits)
  then have u: "unchanged s s' g" for g by (rule unchanged_parts)
  have "doing False s f = Parked e" using doing_asking(2) [OF H(2)] by (simp add: blocked_in_def)
  then have "threads_of F rs s' =
      (threads_of F (f # rs) s0)\<lparr>queue := rs, activity := (activity (threads_of F (f # rs) s0))(f \<mapsto> Parked e)\<rparr>"
    using unchanged_trans [OF H(3) u] u [of f] H(5,7,8) by (intro leaves_eq) (auto simp: unchanged_def)
  then show ?thesis using s' by (auto intro!: refinesI step.awaits)
qed

text \<open>A turn whose handler reclaims \<open>t\<close> and then queues the caller.\<close>

lemma reclaims_refines:
  assumes K: "kernel_ok V K" and h: "in_hand V A F f rs ps s0 s fb q c" and c: "exit_status c = None" "call_kind c \<noteq> REQUEST_PROCESS_EXIT"
    and s1: "s1 = s\<lparr>requests := (requests s)(q \<mapsto> \<lparr>r_kind = call_kind c, r_ask = call_ask c, r_result = v, r_fiber = f\<rparr>)\<rparr>"
    and d: "t \<in> F" "t \<noteq> f" "destroy_or_trap K t s1 = Done s2" "libuc_scheduler_enqueue f s2 = Done s'"
  shows "threads_of (F - {t}) (rs @ [f]) s' = goes_on rs f v (forget t (threads_of F (f # rs) s0))"
proof -
  note H = in_handD [OF h]
  let ?rq = "\<lparr>r_kind = call_kind c, r_ask = call_ask c, r_result = v, r_fiber = f\<rparr>"
  have ask: "asking V A F rs ps s1 f fb q ?rq" and r: "set_request q (\<lambda>rq. rq\<lparr>r_result := v\<rparr>) s = Done s1"
    using asking_result [OF H(2), of v] s1 by simp_all
  have inv: "fiber_inv V A F {f} s1" by (rule askingD(11) [OF ask])
  have M: "munmap_ok (v_mapped V) K" using K by (simp add: kernel_ok_def)
  have u1: "unchanged s1 s' g" if "g \<in> F - {t}" for g
    using self_contained_asking [OF ask] self_contained_inv [OF inv, of g] that
    by (intro unchanged_trans [OF destroyed_unchanged [OF M inv d(1,3) that] unchanged_enqueue [OF d(4)]]) (cases "g = f"; simp)
  have u: "unchanged s0 s' g" if g: "g \<in> F - {f, t}" for g
  proof -
    have "unchanged s s1 g" using asking_not_waiting(2) [OF H(2), of g] g by (intro set_request_unchanged [OF r]) auto
    with H(3) [of g] u1 [of g] g show ?thesis by (simp add: unchanged_def)
  qed
  have "doing True s' f = Ready (Answer v)" "life_of s' f = life_of s0 f"
    using u1 [of f] doing_asking(1) [OF ask] c H(5,7) d(2) exit_status_kind by (auto simp: unchanged_def life_of_def s1)
  then show ?thesis
    unfolding forget_threads_of using u H(7) d(2) by (intro goes_on_eq) auto
qed

lemma join_refines:
  assumes K: "kernel_ok V K" and h: "in_hand V A F f rs ps s0 s fb q (Call_join t)" and t: "handle K A f q s = ret (None, s')"
  shows "refines V A (Calls f (Call_join t)) (threads_of F (f # rs) s0) s'"
proof -
  note H = in_handD [OF h] and D = askingD [OF in_handD(2) [OF h]]
  have j: "handle_join K f q s = Done s'" using t D(5) by (auto simp: handle_def outcome_simps)
  have tF: "t \<in> F" using H(6) by (simp add: target_of_def)
  then obtain tb where tb: "fibers s t = Some tb" using fibers_wfD [OF fiber_invD(3) [OF D(11)]] by metis
  have n: "t \<noteq> f" "f_joiner tb = 0" "f_life tb \<noteq> FIBER_DETACHED"
    using j D(5) tb by (auto simp: handle_join_def outcome_simps split: if_splits)
  have u: "unchanged s0 s t" using H(3) tF n(1) by blast
  then have l: "life_of s0 t = f_life tb" "doing b s0 t = doing b s t" for b using tb by (simp_all add: unchanged_def life_of_def)
  have cl: "claimable (threads_of F (f # rs) s0) t"
    using claimable_iff [OF H(1)] tF l(1) n(2,3) H(4) [of t] tb by (simp add: joiner_of_def)
  show ?thesis
  proof (cases "f_life tb = FIBER_EXITED")
    case True
    let ?s1 = "s\<lparr>requests := (requests s)(q \<mapsto> \<lparr>r_kind = call_kind (Call_join t), r_ask = call_ask (Call_join t),
      r_result = scast (f_status tb), r_fiber = f\<rparr>)\<rparr>"
    obtain s2 where d: "destroy_or_trap K t ?s1 = Done s2" "libuc_scheduler_enqueue f s2 = Done s'"
      using j D(5) tb n True by (auto simp: handle_join_def set_request_def outcome_simps)
    have s': "sched_inv V A (F - {t}) {} (rs @ [f]) ps s'"
      using join_exited [OF K H(2) _ _ tF n(1) tb n(2) True] j by auto
    have "activity (threads_of F (f # rs) s0) t = Some (Exited (f_status tb))"
      using tF tb True l by (simp add: doing_def life_of_def status_of_def)
    then show ?thesis
      using reclaims_refines [OF K h _ _ refl tF n(1) d] n(1) cl by (intro refinesI [OF s' _ step.joins_exited]) auto
  next
    case False
    then have live: "f_life tb = FIBER_LIVE" using n(3) by (cases "f_life tb") auto
    have s': "sched_inv V A F {} rs ps s'" using join_live [OF H(2) _ _ tF n(1) tb n(2) live, of K] j by auto
    have "s' = s\<lparr>fibers := (fibers s)(t \<mapsto> tb\<lparr>f_joiner := q\<rparr>), joining_count := joining_count s + 1\<rparr>"
      using j D(5) tb n False by (simp add: handle_join_def set_fiber_def)
    then have u: "unchanged s s' g" for g using unchanged_update [OF tb, of "tb\<lparr>f_joiner := q\<rparr>"] by simp
    have "doing False s f = Joining t" using doing_asking(2) [OF H(2)] by (simp add: blocked_in_def)
    then have "threads_of F rs s' =
        (threads_of F (f # rs) s0)\<lparr>queue := rs, activity := (activity (threads_of F (f # rs) s0))(f \<mapsto> Joining t)\<rparr>"
      using unchanged_trans [OF H(3) u] u [of f] H(5,7,8) by (intro leaves_eq) (auto simp: unchanged_def)
    then show ?thesis
      using s' cl n(1) False l(1) by (intro refinesI [OF _ _ step.joins]) (auto simp: exited_iff)
  qed
qed

lemma detach_refines:
  assumes K: "kernel_ok V K" and h: "in_hand V A F f rs ps s0 s fb q (Call_detach t)" and t: "handle K A f q s = ret (None, s')"
  shows "refines V A (Calls f (Call_detach t)) (threads_of F (f # rs) s0) s'"
proof -
  note H = in_handD [OF h] and D = askingD [OF in_handD(2) [OF h]]
  have j: "handle_detach K f q s = Done s'" using t D(5) by (auto simp: handle_def outcome_simps)
  have tF: "t \<in> F" using H(6) by (simp add: target_of_def)
  then obtain tb where tb: "fibers s t = Some tb" using fibers_wfD [OF fiber_invD(3) [OF D(11)]] by metis
  have n: "f_joiner tb = 0" "f_life tb \<noteq> FIBER_DETACHED"
    using j D(5) tb by (auto simp: handle_detach_def outcome_simps split: if_splits)
  have l: "life_of s0 t = f_life tb"
    using H(3) [of t] H(5) tF tb by (cases "t = f") (auto simp: unchanged_def life_of_def)
  have cl: "claimable (threads_of F (f # rs) s0) t"
    using claimable_iff [OF H(1)] tF l n H(4) [of t] tb by (simp add: joiner_of_def)
  show ?thesis
  proof (cases "f_life tb = FIBER_EXITED")
    case True
    then have ne: "t \<noteq> f" using l H(9) by auto
    let ?s1 = "s\<lparr>requests := (requests s)(q \<mapsto> \<lparr>r_kind = call_kind (Call_detach t), r_ask = call_ask (Call_detach t), r_result = 0, r_fiber = f\<rparr>)\<rparr>"
    have s1: "?s1 = s" using D(5) by (simp add: fun_upd_idem)
    obtain s2 where d: "destroy_or_trap K t s = Done s2" "libuc_scheduler_enqueue f s2 = Done s'"
      using j D(5) tb n True by (auto simp: handle_detach_def outcome_simps)
    have s': "sched_inv V A (F - {t}) {} (rs @ [f]) ps s'"
      using detach_exited [OF K H(2) _ _ tF tb n(1) True] j by auto
    show ?thesis
      using reclaims_refines [OF K h _ _ s1 [symmetric] tF ne d] tF l True cl by (intro refinesI [OF s' _ step.detaches_exited]) (auto simp: exited_iff)
  next
    case False
    then have live: "f_life tb = FIBER_LIVE" using n(2) by (cases "f_life tb") auto
    have s': "sched_inv V A F {} (rs @ [f]) ps s'" using detach_live [OF H(2) _ _ tF tb n(1) live, of K] j by auto
    let ?s1 = "s\<lparr>fibers := (fibers s)(t \<mapsto> tb\<lparr>f_life := FIBER_DETACHED\<rparr>)\<rparr>"
    have e: "libuc_scheduler_enqueue f ?s1 = Done s'" using j D(5) tb n False by (simp add: handle_detach_def set_fiber_def)
    have u: "unchanged ?s1 s' g" for g by (rule unchanged_enqueue [OF e])
    have same: "doing b ?s1 g = doing b s g" "life_of ?s1 g = (if g = t then FIBER_DETACHED else life_of s g)" for b g
      using tb live by (auto simp: doing_def life_of_def status_of_def resumption_of_def resumes_as_def own_request_def
          split: option.splits activation.splits)
    have act: "doing b s' g = doing b s g" "life_of s' g = (if g = t then FIBER_DETACHED else life_of s g)" for b g
      using u [of g] same [where g = g] by (simp_all add: unchanged_def)
    have "threads_of F (rs @ [f]) s' =
        goes_on rs f 0 ((threads_of F (f # rs) s0)\<lparr>detached := insert t (detached (threads_of F (f # rs) s0))\<rparr>)"
      (is "_ = ?T")
    proof (rule threads_eqI)
      show "activity (threads_of F (rs @ [f]) s') g = activity ?T g" for g
        using act(1) H(3) [of g] H(7) doing_asking(1) [OF H(2)] by (auto simp: goes_on_def unchanged_def)
      have "life_of s g = life_of s0 g" if "g \<in> F" for g using that H(3) [of g] H(5) by (cases "g = f") (auto simp: unchanged_def)
      then show "detached (threads_of F (rs @ [f]) s') = detached ?T" using act(2) tF by (auto simp: goes_on_def)
    qed (simp add: goes_on_def)
    then show ?thesis using s' cl False l by (intro refinesI [OF _ _ step.detaches]) (auto simp: exited_iff)
  qed
qed

text \<open>An exit answers the fiber that waits for it.\<close>

lemma exit_joined_refines:
  assumes K: "kernel_ok V K" and h: "in_hand V A F f rs ps s0 s fb q c" and x: "exit_status c = Some st"
    and e: "handle_exit K f s = Done s'" and l0: "f_life fb = FIBER_EXITED" and j: "f_joiner fb \<noteq> 0"
  shows "refines V A (Calls f c) (threads_of F (f # rs) s0) s'"
proof -
  note H = in_handD [OF h] and D = askingD [OF in_handD(2) [OF h]]
  have fb: "f_status fb = st" using h x by (simp add: in_hand_def)
  have M: "munmap_ok (v_mapped V) K" using K by (simp add: kernel_ok_def)
  have kind: "r_kind \<lparr>r_kind = call_kind c, r_ask = call_ask c, r_result = 0, r_fiber = f\<rparr> = REQUEST_EXIT"
    using x exit_status_kind [of c] by simp
  let ?j = "f_joiner fb"
  let ?s0 = "s\<lparr>joining_count := joining_count s - 1\<rparr>"
  obtain g jrq where g: "g \<in> F - {f}" "waits s g ?j (is_join f)" "requests s ?j = Some jrq"
    and s': "sched_inv V A (F - {f}) {} (rs @ [g]) ps s'" "requests s' ?j = Some (jrq\<lparr>r_result := scast st\<rparr>)"
      "activations s' g = Some (In_call ?j)"
    using exit_joined [OF K H(2) kind refl j] e fb by (metis outcome.distinct(1) outcome.inject)
  let ?s1 = "?s0\<lparr>requests := (requests s)(?j \<mapsto> jrq\<lparr>r_result := scast st\<rparr>)\<rparr>"
  obtain s2 f' where d: "set_request ?j (\<lambda>rq. rq\<lparr>r_result := scast st\<rparr>) ?s0 = Done ?s1" "destroy_or_trap K f ?s1 = Done s2"
    "libuc_scheduler_enqueue f' s2 = Done s'"
    using e D(3) l0 j g(3) fb by (auto simp: handle_exit_def set_request_def outcome_simps)
  have inv: "fiber_inv V A F {f} ?s1"
    using D(11) result_inv(3) [where s = ?s0 and q = ?j and rq = jrq and s' = ?s1 and v = "scast st" and A = A] g(3) by simp
  have u1: "unchanged ?s1 s' h" if "h \<in> F - {f}" for h
    using unchanged_trans [OF destroyed_unchanged [OF M inv D(2) d(2) that self_contained_inv [OF inv that]] unchanged_enqueue [OF d(3)]] .
  have a: "alive s g" "activations s g = Some (In_call ?j)" "r_fiber jrq = g" "r_kind jrq = REQUEST_JOIN"
    using g(2,3) by (auto simp: waits_def is_join_def)
  have u: "unchanged s0 s' h" if h: "h \<in> F - {f} - {g}" for h
  proof -
    have "unchanged ?s0 ?s1 h"
      using activation_unique [OF D(11) g(1) a(1,2), of h] h by (intro set_request_unchanged [OF d(1)]) (auto simp: alive_def)
    moreover have "unchanged s ?s0 h" by (rule unchanged_parts) simp_all
    ultimately show ?thesis using H(3) [of h] u1 [of h] h by (auto simp: unchanged_def)
  qed
  have l: "life_of s' g = life_of s0 g" using u1 [OF g(1)] H(3) [OF g(1)] by (simp add: unchanged_def life_of_def)
  have dg: "doing True s' g = Ready (Answer (scast st))"
    using s'(2,3) a l H(3) [OF g(1)]
    by (auto simp: doing_def resumption_of_def resumes_as_def alive_life unchanged_def)
  have "threads_of (F - {f}) (rs @ [g]) s' = goes_on rs g (scast st) (threads_of (F - {f}) (f # rs) s0)"
    using u l dg g(1) by (intro goes_on_eq) auto
  moreover have "joined_by (threads_of F (f # rs) s0) f g"
  proof -
    have "waiting F ps s ?j" using D(2,3) j by (auto simp: waiting_def joiner_of_def intro!: bexI [of _ f])
    then have "g \<notin> set rs" using waits_not_ready [OF D(13) g(1,2)] by blast
    then have "doing False s g = Joining f" "g \<notin> set (f # rs)"
      using a g by (auto simp: doing_def alive_life own_request_def waits_def is_join_def blocked_in_def)
    then show ?thesis using H(3) [OF g(1)] g(1) by (simp add: joined_by_def unchanged_def)
  qed
  ultimately show ?thesis
    using x by (intro refinesI [OF s'(1) _ step.exits_joined]) (auto simp: forget_threads_of)
qed

lemma exit_refines:
  assumes K: "kernel_ok V K" and h: "in_hand V A F f rs ps s0 s fb q c" and x: "exit_status c = Some st"
    and t: "handle K A f q s = ret (None, s')"
  shows "refines V A (Calls f c) (threads_of F (f # rs) s0) s'"
proof -
  note H = in_handD [OF h] and D = askingD [OF in_handD(2) [OF h]]
  have k: "call_kind c = REQUEST_EXIT" using x exit_status_kind [of c] by auto
  have e: "handle_exit K f s = Done s'" using t D(5) k by (auto simp: handle_def outcome_simps)
  have fb: "f_status fb = st" "f_life fb = (if life_of s0 f = FIBER_LIVE then FIBER_EXITED else life_of s0 f)"
    using h x by (simp_all add: in_hand_def)
  have j: "joiner_of s0 f = f_joiner fb" using H(4) [of f] D(3) by (simp add: joiner_of_def)
  have M: "munmap_ok (v_mapped V) K" using K by (simp add: kernel_ok_def)
  have kind: "r_kind \<lparr>r_kind = call_kind c, r_ask = call_ask c, r_result = 0, r_fiber = f\<rparr> = REQUEST_EXIT" by (simp add: k)
  consider "f_life fb = FIBER_DETACHED" | "f_life fb = FIBER_EXITED" "f_joiner fb = 0" "life_of s0 f = FIBER_LIVE"
    | "f_life fb = FIBER_EXITED" "f_joiner fb \<noteq> 0"
    using fb(2) H(9) by (cases "life_of s0 f") auto
  then show ?thesis
  proof cases
    case 1
    then have d: "destroy_or_trap K f s = Done s'" using e D(3) by (simp add: handle_exit_def)
    have s': "sched_inv V A (F - {f}) {} rs ps s'" using exit_detached [OF K H(2) 1 kind] e by auto
    have u: "unchanged s0 s' g" if "g \<in> F - {f}" for g
      using unchanged_trans [OF H(3) destroyed_unchanged [OF M D(11,2) d that self_contained_inv [OF D(11) that]]] that by blast
    have "threads_of (F - {f}) rs s' = (forget f (threads_of F (f # rs) s0))\<lparr>queue := rs\<rparr>"
      unfolding forget_threads_of using u by (intro threads_eqI) (auto simp: unchanged_def)
    moreover have "life_of s0 f = FIBER_DETACHED" using fb(2) 1 by (auto split: if_splits)
    ultimately show ?thesis using x H(7) by (intro refinesI [OF s' _ step.exits_detached]) auto
  next
    case 2
    then have s': "s' = s" "sched_inv V A F {} rs ps s'"
      using exit_kept(1) [OF H(2) _ kind 2(2), where K = K] exit_kept(2) [OF H(2) _ kind 2(2)] e by simp_all
    have "doing False s f = Exited st" "life_of s f \<noteq> FIBER_DETACHED"
      using 2(1) D(3) fb(1) by (simp_all add: doing_def life_of_def status_of_def)
    then have "threads_of F rs s' =
        (threads_of F (f # rs) s0)\<lparr>queue := rs, activity := (activity (threads_of F (f # rs) s0))(f \<mapsto> Exited st)\<rparr>"
      using H(3,7,8) 2(3) by (intro leaves_eq) (auto simp: s'(1))
    moreover have "claimable (threads_of F (f # rs) s0) f" using claimable_iff [OF H(1)] H(7) 2 j by simp
    ultimately show ?thesis using x by (intro refinesI [OF s'(2) _ step.exits]) auto
  next
    case 3
    show ?thesis by (rule exit_joined_refines [OF K h x e 3])
  qed
qed

text \<open>A start changes nothing for the fibers there were, but for the caller's result.\<close>

lemma spawn_frame:
  assumes K: "kernel_ok V K" "fiber_arch A" and ask: "asking V A F rs ps s f fb q rq"
    and rq: "r_kind rq = REQUEST_SPAWN" "r_ask rq = Spawn_argument sp" and sp: "handle_spawn K A f q s = ret s'"
  shows "g \<in> F - {f} \<Longrightarrow> unchanged s s' g" "life_of s' f = life_of s f" "activations s' f = Some (In_call q)"
proof -
  note D = askingD [OF ask]
  obtain l where lay: "process_layout s = Some l" "layout_ok l" using fiber_invD(5) [OF D(11)] by blast
  have KM: "mmap_ok (v_mapped V) K" "munmap_ok (v_mapped V) K" using K by (auto simp: kernel_ok_def)
  obtain v s1 where s1: "libuc_fiber_spawn K A (sr_stack_length sp) (sr_entry sp) (sr_argument sp) s = ret (v, s1)"
    "frame_on (v_mapped V (kern s)) s s1"
    by (rule fiber_arch.spawn_cases [OF K(2) KM lay, of "sr_stack_length sp" "sr_entry sp" "sr_argument sp"]) metis+
  obtain s2 s3 where h: "set_request q (\<lambda>rq. rq\<lparr>r_result := v\<rparr>) s1 = Done s2" "libuc_scheduler_enqueue f s2 = Done s3"
    "(if v \<noteq> 0 then libuc_scheduler_enqueue v s3 else Done s3) = Done s'"
    using sp D(5) rq s1(1) by (auto simp: handle_spawn_def outcome_simps)
  have l2: "relinked s2 s3" "s' = s3 \<or> relinked s3 s'" using enqueue_relinked h(2,3) by (auto split: if_splits)
  have u2: "unchanged s2 s' g" for g
    using unchanged_relinked [OF l2(1)] unchanged_relinked l2(2) by (metis unchanged_trans)
  have M: "footprint hb \<subseteq> v_mapped V (kern s)" if "h \<in> F" "fibers s h = Some hb" for h hb
    using fibers_wfD [OF fiber_invD(3) [OF D(11)] that(1)] that(2) by auto
  show "unchanged s s' g" if g: "g \<in> F - {f}"
  proof -
    obtain gb where gb: "fibers s g = Some gb" using fibers_wfD [OF fiber_invD(3) [OF D(11)]] g by (metis DiffD1)
    have u1: "unchanged s s1 g"
      using unchanged_frame [OF D(11) s1(2) _ gb M [OF _ gb] self_contained_inv [OF D(11) g]] g by blast
    have "unchanged s1 s2 g"
    proof (rule set_request_unchanged [OF h(1)])
      assume "alive s1 g"
      then have "alive s g" using u1 by (simp add: alive_life unchanged_def)
      then show "activations s1 g \<noteq> Some (In_call q)"
        using asking_not_waiting(2) [OF ask g] frame_fiber(2) [OF D(11) s1(2) _ gb M [OF _ gb]] g by auto
    qed
    then show ?thesis using unchanged_trans [OF u1] unchanged_trans u2 by blast
  qed
  note ff = frame_fiber [OF D(11) s1(2) D(2,3) M [OF D(2,3)]]
  have "life_of s2 f = life_of s1 f" "activations s2 = activations s1" using h(1) by (auto simp: set_request_def life_of_def outcome_simps)
  then show "life_of s' f = life_of s f" "activations s' f = Some (In_call q)"
    using u2 [of f] ff(2,4) l2 D(4) by (auto simp: unchanged_def relinked_same)
qed

lemma start_refines:
  assumes K: "kernel_ok V K" "fiber_arch A" and h: "in_hand V A F f rs ps s0 s fb q (Call_start n e a)"
    and t: "handle K A f q s = ret (None, s')"
  shows "refines V A (Calls f (Call_start n e a)) (threads_of F (f # rs) s0) s'"
proof -
  note H = in_handD [OF h] and D = askingD [OF in_handD(2) [OF h]]
  let ?rq = "\<lambda>v. \<lparr>r_kind = REQUEST_SPAWN, r_ask = call_ask (Call_start n e a), r_result = v, r_fiber = f\<rparr>"
  have p: "handle_spawn K A f q s = ret s'" using t D(5) by (auto simp: handle_def outcome_simps)
  note S = spawn_frame [OF K H(2) _ _ p, simplified]
  have u: "unchanged s0 s' g" if "g \<in> F - {f}" for g using unchanged_trans [OF H(3) S(1)] that by blast
  have lf: "life_of s' f = life_of s0 f" using S(2) H(5) by simp
  have df: "doing True s' f = Ready (Answer v)" if "requests s' q = Some (?rq v)" for v
    using S(3) that lf H(9) by (simp add: doing_def resumption_of_def resumes_as_def)
  from spawn_inv [OF K H(2)] p
  consider "sched_inv V A F {} (rs @ [f]) ps s'" "requests s' q = Some (?rq 0)"
    | g gb where "g \<notin> F" "sched_inv V A (insert g F) {} (rs @ [f, g]) ps s'" "requests s' q = Some (?rq g)"
      "fibers s' g = Some gb" "activations s' g = Some At_entry" "f_entry gb = e" "f_argument gb = a" "f_life gb = FIBER_LIVE"
    by auto
  then show ?thesis
  proof cases
    case 1
    have "threads_of F (rs @ [f]) s' = goes_on rs f 0 (threads_of F (f # rs) s0)"
      using u lf df [OF 1(2)] H(7) by (intro goes_on_eq) auto
    then show ?thesis using 1(1) by (auto intro!: refinesI step.starts_none)
  next
    case (2 g gb)
    have ne: "g \<noteq> f" "g \<notin> set rs" "g \<noteq> 0"
    proof -
      have w: "wait_inv F {} (f # rs) ps s0" "fiber_inv V A (insert g F) {} s'" using H(1) 2(2) by (simp_all add: sched_inv_def)
      show "g \<noteq> f" "g \<notin> set rs" using wait_invD(1) [OF w(1)] 2(1) H(7) by auto
      show "g \<noteq> 0" using fibers_wfD [OF fiber_invD(3) [OF w(2)], of g] by (auto simp: fiber_wf_def)
    qed
    have lg: "life_of s' g = FIBER_LIVE" "doing True s' g = Ready (Enter e a)"
      using 2(4-8) by (simp_all add: doing_def life_of_def resumption_of_def resumes_as_def)
    have "threads_of (insert g F) (rs @ [f, g]) s' = (threads_of F (f # rs) s0)\<lparr>queue := rs @ [f, g],
        activity := (activity (threads_of F (f # rs) s0))(f \<mapsto> Ready (Answer g), g \<mapsto> Ready (Enter e a))\<rparr>"
      (is "_ = ?T")
    proof (rule threads_eqI)
      show "activity (threads_of (insert g F) (rs @ [f, g]) s') x = activity ?T x" for x
        using u [of x] df [OF 2(3)] lg(2) ne H(7) by (auto simp: unchanged_def)
      have "life_of s' x = life_of s0 x" if "x \<in> F" for x using that u [of x] lf by (cases "x = f") (auto simp: unchanged_def)
      then show "detached (threads_of (insert g F) (rs @ [f, g]) s') = detached ?T" using lg(1) 2(1) by auto
    qed simp
    then show ?thesis using ne 2(1) by (intro refinesI [OF 2(2) _ step.starts]) auto
  qed
qed

text \<open>Every turn is a step of the thread machine.\<close>

lemma turn_refines:
  assumes ready: "turn_ready V K A U here F f rs ps s" and t: "turn K A U here s = ret (None, s')"
  shows "refines V A (Calls f (next_call U s)) (threads_of F (f # rs) s) s'"
proof -
  have K: "kernel_ok V K" "fiber_arch A" using ready by (simp_all add: turn_ready_def)
  obtain fb s2 where h: "turn K A U here s = handle K A f (next_frame U s) s2"
    "in_hand V A F f rs ps s s2 fb (next_frame U s) (next_call U s)"
    by (rule turn_in_hand [OF ready])
  have t: "handle K A f (next_frame U s) s2 = ret (None, s')" using t h(1) by simp
  show ?thesis
  proof (cases "next_call U s")
    case (Call_process_exit g st)
    then show ?thesis using t askingD(5) [OF in_handD(2) [OF h(2)]] by (simp add: handle_def)
  qed (use h(2) t K in \<open>auto intro: yield_refines await_refines start_refines join_refines detach_refines exit_refines\<close>)
qed

section \<open>Traps\<close>

text \<open>The kernel refuses to unmap the thread-local block or the stack of the fiber at \<open>t\<close>.\<close>

definition reclaim_fails :: "('k, 'y) kernel_scheme \<Rightarrow> ('k, 'c, 'w) system \<Rightarrow> u64 \<Rightarrow> bool" where
  "reclaim_fails K s t \<longleftrightarrow>
     (case map_option holdings (fibers s t) of
        None \<Rightarrow> False
      | Some (b, stk, len) \<Rightarrow>
          (case k_munmap K (mapping b) (mapping_length b) (mem s) (kern s) of (r1, m, k) \<Rightarrow>
             libuc_syscall_failed r1 \<or> libuc_syscall_failed (fst (k_munmap K stk len m k))))"

lemma obind_Trap_iff: "obind m f = Trap \<longleftrightarrow> m = Trap \<or> (\<exists>x. m = Done x \<and> f x = Trap)"
  by (cases m) auto

lemma no_trap [simp]: "deref x \<noteq> Trap" "set_fiber p h s \<noteq> Trap" "set_request p rq s \<noteq> Trap" "libuc_scheduler_enqueue f s \<noteq> Trap"
proof -
  show d: "deref x \<noteq> Trap" for x :: "'a option" by (simp add: deref_def split: option.splits)
  then show "set_request p rq s \<noteq> Trap" by (simp add: set_request_def obind_Trap_iff deref_def split: option.splits)
  have sf: "set_fiber p h s \<noteq> Trap" for p h and s :: "('k, 'c, 'w, 'z) fstate"
    by (simp add: set_fiber_def obind_Trap_iff deref_def split: option.splits)
  then show "set_fiber p h s \<noteq> Trap" .
  show "libuc_scheduler_enqueue f s \<noteq> Trap"
    using sf by (auto simp: libuc_scheduler_enqueue_def obind_Trap_iff split: if_splits)
qed

lemma destroy_trap:
  assumes "destroy_or_trap K t s = Trap"
  shows "reclaim_fails K s t"
proof -
  have "libuc_fiber_destroy K t s \<noteq> Trap" by (auto simp: libuc_fiber_destroy_def obind_Trap_iff split: prod.splits)
  then obtain ok s' where d: "libuc_fiber_destroy K t s = Done (ok, s')" "\<not> ok"
    using assms by (auto simp: destroy_or_trap_def obind_Trap_iff trap_unless_def split: if_splits)
  then obtain tb where tb: "fibers s t = Some tb" by (auto simp: libuc_fiber_destroy_def outcome_simps)
  obtain r1 m k where m1: "k_munmap K (mapping (f_block tb)) (mapping_length (f_block tb)) (mem s) (kern s) = (r1, m, k)"
    by (metis prod_cases3)
  obtain r s1 where mo: "munmap_objects K (mapping (f_block tb)) (mapping_length (f_block tb)) s = (r, s1)" by fastforce
  then have s1: "r = r1" "mem s1 = m" "kern s1 = k" "\<And>b. fibers s1 t = Some b \<Longrightarrow> b = tb"
    using tb by (auto simp: munmap_objects_def munmap_range_def m1 forget_range_def restrict_map_def split: if_splits)
  have "libuc_syscall_failed r1 \<or> libuc_syscall_failed (fst (k_munmap K (f_stack tb) (f_stack_length tb) m k))"
  proof -
    obtain r2 s2 where m2: "munmap_objects K (f_stack tb) (f_stack_length tb) s1 = (r2, s2)" by fastforce
    then have "fst (k_munmap K (f_stack tb) (f_stack_length tb) m k) = r2"
      using s1(2,3) by (auto simp: munmap_objects_def munmap_range_def split: prod.splits)
    moreover have "fibers s1 t = Some tb" using d(1) tb mo s1(4) by (auto simp: libuc_fiber_destroy_def block_destroy_objects_eq outcome_simps)
    then have "ok = (\<not> libuc_syscall_failed r1 \<and> \<not> libuc_syscall_failed r2)"
      using d(1) tb mo m2 s1(1) by (auto simp: libuc_fiber_destroy_def block_destroy_objects_eq)
    ultimately show ?thesis using d(2) by simp
  qed
  then show ?thesis using tb m1 by (simp add: reclaim_fails_def holdings_def)
qed

text \<open>
  What the kernel may refuse the call \<open>c\<close> of the fiber at \<open>f\<close>: to unmap the fiber it reclaims, which is
  the one that exits or the one that is joined or detached, or to make room for one more entry.
\<close>

definition subject :: "u64 \<Rightarrow> call \<Rightarrow> u64 option" where
  "subject f c = (if exit_status c = None then target_of c else Some f)"

definition refused :: "('k, 'y) ring_kernel_scheme \<Rightarrow> u64 \<Rightarrow> u64 list \<Rightarrow> ('k, 'c, 'w) system \<Rightarrow> call \<Rightarrow> bool" where
  "refused K f ps s c \<longleftrightarrow> (\<exists>t. subject f c = Some t \<and> reclaim_fails K s t) \<or>
     (\<exists>e. c = Call_await e \<and> (length ps = unat (cq_entries (sring s)) \<or> flush_fails K s))"

lemma refusedI:
  assumes h: "in_hand V A F f rs ps s0 s fb q c" and s1: "mem s1 = mem s" "kern s1 = kern s" "fibers s1 = fibers s"
    and d: "destroy_or_trap K t s1 = Trap" "subject f c = Some t"
  shows "refused K f ps (s0\<lparr>mem := mem s\<rparr>) c"
proof -
  note H = in_handD [OF h]
  have e: "mem (s0\<lparr>mem := mem s\<rparr>) = mem s1" "kern (s0\<lparr>mem := mem s\<rparr>) = kern s1"
    "map_option holdings (fibers (s0\<lparr>mem := mem s\<rparr>) t) = map_option holdings (fibers s1 t)"
    by (simp_all add: s1 H(11,12))
  have "reclaim_fails K (s0\<lparr>mem := mem s\<rparr>) t = reclaim_fails K s1 t" unfolding reclaim_fails_def e ..
  then show ?thesis using destroy_trap [OF d(1)] d(2) by (auto simp: refused_def)
qed

inductive_cases step_awaitE: "step (Calls f (Call_await e)) T T'"
inductive_cases step_joinE: "step (Calls f (Call_join t)) T T'"
inductive_cases step_detachE: "step (Calls f (Call_detach t)) T T'"

lemma step_needs:
  "step (Calls f (Call_await e)) T T' \<Longrightarrow> sq_flags e = 0"
  "step (Calls f (Call_join t)) T T' \<Longrightarrow> t \<noteq> f \<and> claimable T t"
  "step (Calls f (Call_detach t)) T T' \<Longrightarrow> claimable T t"
  by (auto elim: step_awaitE step_joinE step_detachE)

text \<open>The record of a thread that may still be claimed.\<close>

lemma claimed_record:
  assumes h: "in_hand V A F f rs ps s0 s fb q c" "exit_status c = None" and u: "claimable (threads_of F (f # rs) s0) u"
  obtains ub where "u \<in> F" "fibers s u = Some ub" "f_joiner ub = 0" "f_life ub \<noteq> FIBER_DETACHED"
proof -
  note H = in_handD [OF h(1)] and D = askingD [OF in_handD(2) [OF h(1)]]
  have uF: "u \<in> F" "life_of s0 u \<noteq> FIBER_DETACHED" "joiner_of s0 u = 0" using u claimable_iff [OF H(1)] by auto
  obtain ub where ub: "fibers s u = Some ub" using fibers_wfD [OF fiber_invD(3) [OF D(11)] uF(1)] by metis
  have "life_of s u = life_of s0 u" using H(3) [of u] H(5) [OF h(2)] uF(1) by (cases "u = f") (auto simp: unchanged_def)
  then show ?thesis using that [OF uF(1) ub] uF(2,3) H(4) [of u] ub by (simp add: life_of_def joiner_of_def)
qed

lemma exit_trap:
  assumes h: "in_hand V A F f rs ps s0 s fb q c" and t: "handle_exit K f s = Trap" and c: "subject f c = Some f"
  shows "refused K f ps (s0\<lparr>mem := mem s\<rparr>) c"
proof -
  note H = in_handD [OF h] and D = askingD [OF in_handD(2) [OF h]]
  consider "destroy_or_trap K f s = Trap"
    | h s1 where "set_request (f_joiner fb) h (s\<lparr>joining_count := joining_count s - 1\<rparr>) = Done s1" "destroy_or_trap K f s1 = Trap"
    using t D(3) by (auto simp: handle_exit_def obind_Trap_iff split: if_splits)
  then show ?thesis
  proof cases
    case (2 g s1)
    then have "mem s1 = mem s" "kern s1 = kern s" "fibers s1 = fibers s" by (auto simp: set_request_def outcome_simps)
    then show ?thesis using refusedI [OF h _ _ _ 2(2) c] by simp
  qed (rule refusedI [OF h refl refl refl _ c])
qed

lemma turn_traps:
  assumes K: "kernel_ok V K" "fiber_arch A" and h: "in_hand V A F f rs ps s0 s fb q c" and t: "handle K A f q s = Some Trap"
    and st: "step (Calls f c) (threads_of F (f # rs) s0) T'"
  shows "refused K f ps (s0\<lparr>mem := mem s\<rparr>) c"
proof -
  note H = in_handD [OF h] and D = askingD [OF in_handD(2) [OF h]]
  note go = t [unfolded handle_def D(5) deref_simps rbind_simps Let_def]
  have rq: "requests s q = Some \<lparr>r_kind = call_kind c, r_ask = call_ask c, r_result = 0, r_fiber = f\<rparr>" by (rule D(5))
  show ?thesis
  proof (cases c)
    case Call_yield
    then show ?thesis using go by (cases "libuc_scheduler_enqueue f s") auto
  next
    case (Call_await e)
    then have "\<not> (\<exists>s'. park K q s = ret s')" using go by auto
    moreover have "sq_flags e = 0" using step_needs(1) st Call_await by blast
    ultimately have "length ps = unat (cq_entries (sring s)) \<or> flush_fails K s"
      using park_inv [OF K(1) H(2), of e] Call_await by auto
    then show ?thesis using Call_await by (auto simp: refused_def flush_fails_def H(10,11))
  next
    case (Call_start n e a)
    then show ?thesis using spawn_inv [OF K H(2)] go by auto
  next
    case (Call_join u)
    have u: "u \<noteq> f" "claimable (threads_of F (f # rs) s0) u" using step_needs(2) st Call_join by blast+
    obtain ub where uF: "u \<in> F" and ub: "fibers s u = Some ub" "f_joiner ub = 0" "f_life ub \<noteq> FIBER_DETACHED"
      using claimed_record [OF h _ u(2)] Call_join by auto
    have "handle_join K f q s = Trap" using go Call_join by (cases "handle_join K f q s") auto
    then obtain g s1 where s1: "set_request q g s = Done s1" "destroy_or_trap K u s1 = Trap"
      using rq Call_join ub u(1) by (auto simp: handle_join_def obind_Trap_iff split: if_splits)
    then have "mem s1 = mem s" "kern s1 = kern s" "fibers s1 = fibers s" by (auto simp: set_request_def outcome_simps)
    then show ?thesis using refusedI [OF h _ _ _ s1(2)] Call_join by (simp add: subject_def target_of_def)
  next
    case (Call_detach u)
    have u: "claimable (threads_of F (f # rs) s0) u" using step_needs(3) st Call_detach by blast
    obtain ub where uF: "u \<in> F" and ub: "fibers s u = Some ub" "f_joiner ub = 0" "f_life ub \<noteq> FIBER_DETACHED"
      using claimed_record [OF h _ u] Call_detach by auto
    have "handle_detach K f q s = Trap" using go Call_detach by (cases "handle_detach K f q s") auto
    then have "destroy_or_trap K u s = Trap"
      using rq Call_detach ub by (auto simp: handle_detach_def obind_Trap_iff split: if_splits)
    then show ?thesis using refusedI [OF h refl refl refl, of K u] Call_detach by (simp add: subject_def target_of_def)
  next
    case (Call_exit v)
    then have "handle_exit K f s = Trap" using go by (cases "handle_exit K f s") auto
    then show ?thesis using exit_trap [OF h] Call_exit by (simp add: subject_def)
  next
    case (Return v)
    then have "handle_exit K f s = Trap" using go by (cases "handle_exit K f s") auto
    then show ?thesis using exit_trap [OF h] Return by (simp add: subject_def)
  qed (use go in simp)
qed

end
