(* ===== verification/Uc_Thread_Executions.thy ===== *)
theory Uc_Thread_Executions
  imports Uc_Thread_Refinement
begin

text \<open>
  Completions are steps of the thread machine too, and so a run of the reactor is an execution of it.
\<close>

section \<open>Completions\<close>

lemma wake_refines:
  assumes inv: "sched_inv V A F {} rs ps s" and c: "cq_pending (sring s) = c # cs"
    and r: "r = (sring s)\<lparr>cq_head := cq_head (sring s) + 1\<rparr>" and w: "wake c (s\<lparr>sring := r\<rparr>) = Done s'"
    and g: "requests s (cq_user_data c) = Some rq" "r_fiber rq = g"
  shows "step (Completes g (cq_res c)) (threads_of F rs s) (threads_of F (rs @ [g]) s')"
proof -
  have i: "fiber_inv V A F {} s" "wait_inv F {} rs ps s" using inv by (simp_all add: sched_inv_def)
  let ?q = "cq_user_data c"
  have c': "c \<in> set (cq_pending (sring s))" using c by simp
  have q: "?q \<in> set ps" by (rule posted_parked [OF inv c'])
  obtain g' where "g' \<in> F" "waits s g' ?q is_await" using posted_awaited [OF inv c'] .
  then have gF: "g \<in> F" "waits s g ?q is_await" using g by (auto simp: waits_def)
  then have a: "alive s g" "activations s g = Some (In_call ?q)" "r_kind rq = REQUEST_AWAIT"
    using g by (auto simp: waits_def is_await_def)
  have "waiting F ps s ?q" using q by (simp add: waiting_def)
  then have nr: "g \<notin> set rs" using waits_not_ready [OF i(2) _ gF(2)] gF(1) by simp
  obtain s1 where s1: "set_request ?q (\<lambda>rq. rq\<lparr>r_result := scast (cq_res c)\<rparr>) (s\<lparr>sring := r\<rparr>) = Done s1"
    "libuc_scheduler_enqueue g (s1\<lparr>parked_count := parked_count s1 - 1\<rparr>) = Done s'"
    using w g by (auto simp: wake_def set_request_def Let_def outcome_simps split: if_splits)
  have u1: "unchanged s1 s' h" for h
    using unchanged_trans [OF unchanged_parts unchanged_enqueue [OF s1(2)], of s1] by simp
  have s1eq: "s1 = s\<lparr>sring := r, requests := (requests s)(?q \<mapsto> rq\<lparr>r_result := scast (cq_res c)\<rparr>)\<rparr>"
    using s1(1) g(1) by (simp add: set_request_def)
  have u: "unchanged s s' h" if h: "h \<in> F - {g}" for h
  proof -
    have "unchanged s (s\<lparr>sring := r\<rparr>) h" by (rule unchanged_parts) simp_all
    moreover have "unchanged (s\<lparr>sring := r\<rparr>) s1 h"
      using activation_unique [OF i(1), of g ?q h] gF(1) a h by (intro set_request_unchanged [OF s1(1)]) (auto simp: alive_def)
    ultimately show ?thesis using unchanged_trans u1 by blast
  qed
  have "life_of s1 g = life_of s g" by (simp add: s1eq life_of_def)
  moreover from this have "doing True s1 g = Ready (Answer (scast (cq_res c)))"
    using a by (simp add: doing_def alive_life) (simp add: s1eq resumption_of_def resumes_as_def)
  ultimately have lg: "life_of s' g = life_of s g" "doing True s' g = Ready (Answer (scast (cq_res c)))"
    using u1 [of g] by (simp_all add: unchanged_def)
  have "threads_of F (rs @ [g]) s' = goes_on rs g (scast (cq_res c)) (threads_of F rs s)"
    using u lg gF(1) by (intro goes_on_eq) auto
  moreover have "\<exists>e. activity (threads_of F rs s) g = Some (Parked e)"
    using nr gF(1) a g(1) by (simp add: doing_def alive_life own_request_def blocked_in_def)
  ultimately show ?thesis using step.completes [of "threads_of F rs s" g _ "cq_res c"] by auto
qed

text \<open>The completions waiting in the queue, as events: each names the fiber that awaits it.\<close>

definition completions :: "('k, 'c, 'w) system \<Rightarrow> event list" where
  "completions s = map (\<lambda>c. Completes (r_fiber (the (requests s (cq_user_data c)))) (cq_res c)) (cq_pending (sring s))"

lemma reap_refines:
  assumes "sched_inv V A F {} rs ps s" "cq_pending (sring s) = cs" "reap_loop s = ret s'"
  shows "\<exists>rs' ps'. sched_inv V A F {} rs' ps' s' \<and> steps (completions s) (threads_of F rs s) (threads_of F rs' s')"
  using assms
proof (induction cs arbitrary: s rs ps)
  case Nil
  then have "libuc_ring_reap (sring s) = Done (None, sring s)"
    using reap_pending(1) [of "sring s"] by (simp add: sched_inv_def ring_inv_def)
  then have "s' = s" using Nil(3) reap_loop.simps [of s] by simp
  then show ?case using Nil by (auto simp: completions_def intro: steps.none)
next
  case (Cons c cs)
  let ?r = "(sring s)\<lparr>cq_head := cq_head (sring s) + 1\<rparr>"
  have reap: "libuc_ring_reap (sring s) = Done (Some c, ?r)"
    using reap_pending(1) [of "sring s"] Cons.prems by (simp add: sched_inv_def ring_inv_def)
  obtain g rq s1 where w: "wake c (s\<lparr>sring := ?r\<rparr>) = Done s1" "requests s (cq_user_data c) = Some rq" "r_fiber rq = g"
    "sched_inv V A F {} (rs @ [g]) (remove1 (cq_user_data c) ps) s1" "sring s1 = ?r" "cq_pending ?r = cs"
    "requests s1 = (requests s)(cq_user_data c \<mapsto> rq\<lparr>r_result := scast (cq_res c)\<rparr>)"
    using wake_inv [OF Cons.prems(1,2) refl] by metis
  have "reap_loop s1 = ret s'" using Cons.prems(3) reap_loop.simps [of s] reap w(1) by simp
  from Cons.IH [OF w(4) _ this] w(5,6) obtain rs' ps' where IH: "sched_inv V A F {} rs' ps' s'"
    "steps (completions s1) (threads_of F (rs @ [g]) s1) (threads_of F rs' s')" by auto
  have "r_fiber (the (requests s1 x)) = r_fiber (the (requests s x))" for x using w(2) by (simp add: w(7))
  then have "completions s = Completes g (cq_res c) # completions s1"
    using Cons.prems(2) w(2,3,5,6) by (simp add: completions_def)
  then show ?case
    using IH steps.more [OF wake_refines [OF Cons.prems(1,2) refl w(1-3)]] by auto
qed

section \<open>Executions\<close>

lemma wait_refines:
  assumes "kernel_ok V K" "sched_inv V A F {} rs ps s" "submit_and_wait K s = ret s1" "reap_loop s1 = ret s'"
  shows "\<exists>rs' ps'. sched_inv V A F {} rs' ps' s' \<and> steps (completions s1) (threads_of F rs s) (threads_of F rs' s')"
proof -
  obtain r k where s1: "sched_inv V A F {} rs ps s1" "s1 = s\<lparr>sring := r, kern := k\<rparr>"
    using submit_and_wait_inv [OF assms(1,2)] assms(3) by auto
  have "unchanged s s1 g" for g unfolding s1(2) by (rule unchanged_parts) simp_all
  then have "threads_of F rs s1 = threads_of F rs s" by (auto simp: threads_of_def unchanged_def)
  then show ?thesis using reap_refines [OF s1(1) refl assms(4)] by simp
qed

text \<open>
  A run of the reactor with what happens in it: each turn is an event of the fiber at the front of the
  queue and the call its code makes, and each wait the completions it finds posted, in order.
\<close>

inductive trace ::
    "('k, 'y) ring_kernel_scheme \<Rightarrow> ('c, 'r) arch \<Rightarrow> ('k, 'c, 'r, 'w) prog \<Rightarrow> u64 \<Rightarrow> ('k, 'c, 'w) system \<Rightarrow> event list \<Rightarrow>
     ('k, 'c, 'w) system \<Rightarrow> bool"
  for K A U here where
  start: "trace K A U here s [] s"
| turned: "trace K A U here s es s' \<Longrightarrow> ready_head s' \<noteq> 0 \<Longrightarrow> turn K A U here s' = ret (None, s'') \<Longrightarrow>
    trace K A U here s (es @ [Calls (ready_head s') (next_call U s')]) s''"
| waited: "trace K A U here s es s' \<Longrightarrow> parked_count s' \<noteq> 0 \<Longrightarrow> submit_and_wait K s' = ret s1 \<Longrightarrow> reap_loop s1 = ret s'' \<Longrightarrow>
    trace K A U here s (es @ completions s1) s''"

lemma reaches_trace: "reaches K A U here s s' \<longleftrightarrow> (\<exists>es. trace K A U here s es s')"
proof
  show "reaches K A U here s s' \<Longrightarrow> \<exists>es. trace K A U here s es s'"
    by (induction rule: reaches.induct) (blast intro: trace.intros)+
  have "trace K A U here s es s' \<Longrightarrow> reaches K A U here s s'" for es
    by (induction rule: trace.induct) (blast intro: reaches.intros)+
  then show "\<exists>es. trace K A U here s es s' \<Longrightarrow> reaches K A U here s s'" by blast
qed

text \<open>A run of the reactor is an execution of the thread machine, event by event.\<close>

lemma trace_refines:
  assumes "trace K A U here s es s'" and K: "kernel_ok V K" "fiber_arch A" "here \<noteq> 0"
    and "sched_inv V A F {} rs ps s" "behaves K A U here s"
  shows "\<exists>F' rs' ps'. sched_inv V A F' {} rs' ps' s' \<and> steps es (threads_of F rs s) (threads_of F' rs' s')"
  using assms(1,5,6)
proof (induction rule: trace.induct)
  case (start s)
  then show ?case using steps.none by blast
next
  case (turned s es s' s'')
  then obtain F' rs' ps' where IH: "sched_inv V A F' {} rs' ps' s'" "steps es (threads_of F rs s) (threads_of F' rs' s')" by blast
  obtain f xs where rs: "rs' = f # xs"
    using IH(1) turned.hyps(2) by (cases rs') (auto simp: sched_inv_def ready_queue_def)
  have "reaches K A U here s s'" using turned.hyps(1) reaches_trace by blast
  then have "turn_ready V K A U here F' f xs ps' s'"
    using next_turn_ready(3) [OF K behaves_reaches [OF turned.prems(2)]] IH(1) rs by simp
  from turn_refines [OF this turned.hyps(3)] obtain F2 rs2 ps2 where "sched_inv V A F2 {} rs2 ps2 s''"
    "step (Calls f (next_call U s')) (threads_of F' (f # xs) s') (threads_of F2 rs2 s'')"
    unfolding refines_def by blast
  moreover have "ready_head s' = f" using IH(1) rs queue_head by blast
  ultimately show ?case using steps_append [OF IH(2)] steps_one rs by blast
next
  case (waited s es s' s1 s'')
  then obtain F' rs' ps' where IH: "sched_inv V A F' {} rs' ps' s'" "steps es (threads_of F rs s) (threads_of F' rs' s')" by blast
  from wait_refines [OF K(1) IH(1) waited.hyps(3,4)] steps_append [OF IH(2)] show ?case by blast
qed

text \<open>A run that returns ends in an execution of the thread machine.\<close>

lemma run_refines:
  assumes K: "kernel_ok V K" "fiber_arch A" "here \<noteq> 0" and "sched_inv V A F {} rs ps s" "behaves K A U here s"
    and "libuc_scheduler_run K A U here s = ret (st, s')"
  shows "\<exists>es s1 rs' ps'. trace K A U here s es s1 \<and> sched_inv V A (dom (activations s1)) {} rs' ps' s1 \<and>
    steps es (threads_of F rs s) (threads_of (dom (activations s1)) rs' s1) \<and>
    (ready_head s1 \<noteq> 0 \<and> next_call U s1 = Call_process_exit (ready_head s1) st \<and> turn K A U here s1 = ret (Some st, s') \<or>
     st = 0 \<and> s1 = s' \<and> rs' = [] \<and> ps' = [] \<and> (\<forall>f \<in> dom (activations s1). exited (threads_of (dom (activations s1)) rs' s1) f))"
proof -
  have refines: "\<exists>es rs' ps'. trace K A U here s es s1 \<and> sched_inv V A (dom (activations s1)) {} rs' ps' s1 \<and>
    steps es (threads_of F rs s) (threads_of (dom (activations s1)) rs' s1)" if "reaches K A U here s s1" for s1
  proof -
    obtain es where es: "trace K A U here s es s1" using \<open>reaches K A U here s s1\<close> reaches_trace by blast
    from trace_refines [OF es assms(1-5)] obtain F' rs' ps' where r: "sched_inv V A F' {} rs' ps' s1"
      "steps es (threads_of F rs s) (threads_of F' rs' s1)" by blast
    moreover have "F' = dom (activations s1)" using r(1) by (auto simp: sched_inv_def fiber_inv_def)
    ultimately show ?thesis using es by blast
  qed
  consider s1 where "reaches K A U here s s1" "ready_head s1 \<noteq> 0" "next_call U s1 = Call_process_exit (ready_head s1) st"
      "turn K A U here s1 = ret (Some st, s')"
    | "st = 0" "reaches K A U here s s'" "\<exists>F. sched_inv V A F {} [] [] s' \<and> joined F s' = {}"
    using run_outcome [OF assms(1-3,6,4,5)] unfolding finished_def stops_at_def by blast
  then show ?thesis
  proof cases
    case (1 s1)
    then show ?thesis using refines [OF 1(1)] by blast
  next
    case 2
    let ?F = "dom (activations s')"
    obtain es rs' ps' where r: "trace K A U here s es s'" "sched_inv V A ?F {} rs' ps' s'" "steps es (threads_of F rs s) (threads_of ?F rs' s')"
      using refines [OF 2(2)] by blast
    from 2(3) obtain F2 where F2: "sched_inv V A F2 {} [] [] s'" "joined F2 s' = {}" by blast
    have e: "F2 = ?F" using F2(1) by (auto simp: sched_inv_def fiber_inv_def)
    have rs: "rs' = []" using r(2) F2(1) by (cases rs') (auto simp: sched_inv_def ready_queue_def dest: chain_non_null)
    have "life_of s' f = FIBER_EXITED" if "f \<in> F2" for f using nobody_left [OF F2 that] by (simp add: alive_life)
    then have "\<forall>f \<in> ?F. exited (threads_of ?F [] s') f" using e by (auto simp: exited_iff)
    then show ?thesis using r(1,3) 2(1) F2(1) unfolding e rs by blast
  qed
qed

end
