(* ===== verification/Uc_Thread_Properties.thy ===== *)
theory Uc_Thread_Properties
  imports Uc_Thread_Executions Uc_Io_Properties Uc_Start_Properties
begin

text \<open>
  The scheduler as its programs see it: a turn is a step of the abstract thread machine and a process
  an execution of it, and a deadlock is a cycle of joins.
\<close>

section \<open>Turns\<close>

text \<open>C1. Every turn of a well-behaved program is accounted for by the thread machine. It is the machine's step for
  the call of the front fiber, which says who is queued and in what order, what each is answered, who
  waits for whom, whose status is kept and whose record is gone, and that nothing changes for any other
  thread. Or it stops the reactor with the status of a process exit. Or it traps: because the machine has
  no step for the call, which is a misuse of it, or because the kernel would not unmap the memory of the
  fiber the call reclaims or take the batch, or the completion queue has no room for one more.\<close>

theorem turn_is_thread_step:
  assumes "turn_ready V K A U here F f rs ps s"
  shows "(\<exists>s' F' rs' ps'. turn K A U here s = ret (None, s') \<and> sched_inv V A F' {} rs' ps' s' \<and>
      step (Calls f (next_call U s)) (threads_of F (f # rs) s) (threads_of F' rs' s')) \<or>
    (\<exists>st s'. turn K A U here s = ret (Some st, s') \<and> next_call U s = Call_process_exit f st) \<or>
    turn K A U here s = Some Trap \<and>
      ((\<nexists>T'. step (Calls f (next_call U s)) (threads_of F (f # rs) s) T') \<or> refused K f ps (s\<lparr>mem := next_mem U s\<rparr>) (next_call U s))"
proof -
  have K: "kernel_ok V K" "fiber_arch A" using assms by (simp_all add: turn_ready_def)
  from turn_carries_on [OF assms] consider "turn K A U here s = Some Trap" | st s' where "turn K A U here s = ret (Some st, s')"
    | s' where "turn K A U here s = ret (None, s')" by (auto simp: carries_on_def)
  then show ?thesis
  proof cases
    case 1
    obtain fb s2 where h: "turn K A U here s = handle K A f (next_frame U s) s2"
      "in_hand V A F f rs ps s s2 fb (next_frame U s) (next_call U s)" "mem s2 = next_mem U s"
      by (rule turn_in_hand [OF assms])
    then show ?thesis using turn_traps [OF K h(2)] 1 by auto
  next
    case (2 st s')
    then show ?thesis using stopping_turn [OF assms 2] by blast
  next
    case (3 s')
    then show ?thesis using turn_refines [OF assms 3] by (auto simp: refines_def)
  qed
qed

theorem turn_is_thread_step_witness:
  "\<exists>s' F' rs'. turn sim_kernel sim_arch sim_prog 0x8000 (two_joining (Call_exit (- 1))) = ret (None, s') \<and>
    step (Calls one (Call_exit (- 1))) (threads_of {one, two} [one] (two_joining (Call_exit (- 1)))) (threads_of F' rs' s')"
proof -
  obtain s' where t: "turn sim_kernel sim_arch sim_prog 0x8000 (two_joining (Call_exit (- 1))) = ret (None, s')"
    using sim_exit_turn by blast
  have "turn_ready sim_view sim_kernel sim_arch sim_prog 0x8000 {one, two} one [] [] (two_joining (Call_exit (- 1)))"
    by (rule sim_turn_ready(2)) (simp_all add: target_of_def)
  moreover have "next_call sim_prog (two_joining (Call_exit (- 1))) = Call_exit (- 1)" by (simp add: two_joining_def)
  ultimately show ?thesis using turn_is_thread_step [of sim_view sim_kernel sim_arch sim_prog "0x8000" "{one, two}" one "[]" "[]"] t by fastforce
qed

section \<open>Deadlock\<close>

text \<open>Nobody is parked when nothing is in flight.\<close>

lemma drained_not_parked:
  assumes inv: "sched_inv V A F {} [] [] s"
  shows "activity (threads_of F [] s) h \<noteq> Some (Parked e)"
proof
  have i: "fiber_inv V A F {} s" "wait_inv F {} [] [] s" using inv by (simp_all add: sched_inv_def)
  assume h: "activity (threads_of F [] s) h = Some (Parked e)"
  then have hF: "h \<in> F" "alive s h" by (auto simp: doing_def alive_life split: if_splits)
  then obtain q where q: "activations s h = Some (In_call q)" "waiting F [] s q" using wait_invD(7) [OF i(2), of h] by auto
  then obtain v where v: "v \<in> F" "joiner_of s v = q" "q \<noteq> 0" by (auto simp: waiting_def)
  obtain h' where h': "h' \<in> F" "waits s h' q (is_join v)" using wait_invD(5) [OF i(2) v(1)] v by auto
  have "h' = h" using activation_unique [OF i(1), of h q h'] hF q(1) h' by (auto simp: waits_def)
  then have "joined_by (threads_of F [] s) v h" using joined_by_iff [OF inv] h' v by auto
  then show False using h by (simp add: joined_by_def)
qed

text \<open>C19. When nothing is ready and nothing is in flight, the run is over. It returns zero exactly when every
  thread has exited. Otherwise it traps, and only for cycles of joins: each thread that has not exited
  waits in a join for another such thread, and following who waits for whom from it leads back to it.\<close>

theorem deadlock_is_join_cycle:
  assumes "sched_inv V A F {} [] [] s" "card F < 2 ^ 32" and "T = threads_of F [] s" "live = {f \<in> F. \<not> exited T f}"
  shows "libuc_scheduler_run K A U here s = (if live = {} then ret (0, s) else Some Trap) \<and>
    (\<forall>f \<in> live. joined_by T (waits_for T f) f \<and> waits_for T f \<in> live \<and> (\<exists>n > 0. (waits_for T ^^ n) f = f))"
proof -
  have ok: "threads_ok T" unfolding assms(3) by (rule threads_of_ok [OF assms(1)])
  have w: "wait_inv F {} [] [] s" using assms(1) by (simp add: sched_inv_def)
  have joiner: "\<exists>g \<in> live. joined_by T t g" if "t \<in> joined F s" for t
  proof -
    have t: "t \<in> F" "joiner_of s t \<noteq> 0" using that by (simp_all add: joined_def)
    obtain g where "g \<in> F - {}" "waits s g (joiner_of s t) (is_join t)" using wait_invD(5) [OF w t] by blast
    then have "g \<in> F" "joined_by T t g" using t joined_by_iff [OF assms(1), of t g] by (simp_all add: assms(3))
    then show ?thesis by (auto simp: assms(4) joined_by_def exited_def)
  qed
  have empty: "joined F s = {} \<longleftrightarrow> live = {}"
    using joiner nobody_left [OF assms(1)] unfolding assms(3,4) by (auto simp: exited_iff alive_life)
  have run: "libuc_scheduler_run K A U here s = (if live = {} then ret (0, s) else Some Trap)"
    unfolding empty [symmetric] by (rule run_drained [OF assms(1,2)])
  have "joined_by T (waits_for T f) f \<and> waits_for T f \<in> live \<and> (\<exists>n > 0. (waits_for T ^^ n) f = f)" if f: "f \<in> live" for f
  proof -
    have "deadlocked T"
      using joiner empty f drained_not_parked [OF assms(1)] unfolding deadlocked_def assms(3) by fastforce
    note cycle = deadlock_cycle [OF ok this]
    have "f \<in> dom (activity T)" "\<not> exited T f" using f by (simp_all add: assms(3,4))
    then show ?thesis using cycle [of f] threads_okD(5) [OF ok, of "waits_for T f" f] by (simp add: assms(3,4))
  qed
  with run show ?thesis by blast
qed

theorem deadlock_is_join_cycle_witness:
  "\<exists>s'. turn sim_kernel sim_arch sim_prog 0x8000 (two_joining (Call_join two)) = ret (None, s') \<and>
    libuc_scheduler_run sim_kernel sim_arch sim_prog 0x8000 s' = Some Trap \<and>
    (\<exists>f n. 0 < n \<and> (waits_for (threads_of {one, two} [] s') ^^ n) f = f \<and> joined_by (threads_of {one, two} [] s') (waits_for (threads_of {one, two} [] s') f) f)"
proof -
  obtain s' where s': "turn sim_kernel sim_arch sim_prog 0x8000 (two_joining (Call_join two)) = ret (None, s')"
    "sched_inv sim_view sim_arch {one, two} {} [] [] s'" "joiner_of s' two = 0x20800"
    using sim_join_cycle by blast
  have few: "card {one, two} < 2 ^ 32" by simp
  note cycle = deadlock_is_join_cycle [OF s'(2) few refl refl]
  have "wait_inv {one, two} {} [] [] s'" using s'(2) by (simp add: sched_inv_def)
  from wait_invD(5) [OF this, of two] s'(3) obtain g where g: "g \<in> {one, two}" "joined_by (threads_of {one, two} [] s') two g"
    using joined_by_iff [OF s'(2)] by auto
  then have "g \<in> {f \<in> {one, two}. \<not> exited (threads_of {one, two} [] s') f}" by (auto simp: joined_by_def exited_def)
  with cycle [of sim_kernel sim_prog "0x8000"] have "libuc_scheduler_run sim_kernel sim_arch sim_prog 0x8000 s' = Some Trap"
    "joined_by (threads_of {one, two} [] s') (waits_for (threads_of {one, two} [] s') g) g"
    "\<exists>n > 0. (waits_for (threads_of {one, two} [] s') ^^ n) g = g"
    by (simp_all only: empty_iff split: if_splits) blast+
  then show ?thesis using s'(1) by blast
qed

section \<open>Processes\<close>

text \<open>C2. A process is an execution of the thread machine. Unless starting it fails, with status 127 and before any
  of the program's code has run, the process that ends with a status began as one thread, ready to
  enter the program's entry with its argument. Event by event, the calls its fibers made and the completions
  it reaped (\<open>trace\<close>) are steps of the thread machine, which lead to the threads of the state where it ended: there the
  fiber whose turn it was called for the process to exit with that status, and its turn stopped the process; or
  nothing was ready or in flight, every thread had exited, and the status is zero.\<close>

theorem process_is_thread_execution:
  assumes "boot_ok V K" "fiber_arch A" "here \<noteq> 0" and "image_ok n sp s" "pristine V s"
    and "\<And>root s1. start_root K A entry arguments sp s = ret (root, s1) \<Longrightarrow> root \<noteq> 0 \<Longrightarrow>
      behaves K A (root_entry entry arguments (root_arguments_of root sp s) M) here s1"
    and "libuc_start K A M here entry arguments sp s = ret (st, s')"
  shows "st = 127 \<and> start_root K A entry arguments sp s = ret (0, s') \<or>
    (\<exists>root s1 U es s2 rs ps. start_root K A entry arguments sp s = ret (root, s1) \<and>
      U = root_entry entry arguments (root_arguments_of root sp s) M \<and> trace K A U here s1 es s2 \<and>
      sched_inv V A (dom (activations s2)) {} rs ps s2 \<and>
      steps es \<lparr>queue = [root], activity = [root \<mapsto> Ready (Enter entry arguments)], detached = {}\<rparr>
        (threads_of (dom (activations s2)) rs s2) \<and>
      (ready_head s2 \<noteq> 0 \<and> next_call U s2 = Call_process_exit (ready_head s2) st \<and> turn K A U here s2 = ret (Some st, s') \<or>
       st = 0 \<and> s2 = s' \<and> rs = [] \<and> ps = [] \<and>
         (\<forall>f \<in> dom (activations s2). exited (threads_of (dom (activations s2)) rs s2) f)))"
proof -
  have K: "kernel_ok V K" using assms(1) by (simp add: boot_ok_def)
  from start_boots [OF assms(1,2,4,5), of entry arguments]
  consider s1 where "start_root K A entry arguments sp s = ret (0, s1)"
    | root gb s1 where "start_root K A entry arguments sp s = ret (root, s1)" "root \<noteq> 0" "sched_inv V A {root} {} [root] [] s1"
      "fibers s1 root = Some gb" "f_entry gb = entry" "f_argument gb = arguments" "f_life gb = FIBER_LIVE" "activations s1 root = Some At_entry"
    by blast
  then show ?thesis
  proof cases
    case 1
    then show ?thesis using assms(7) by (simp add: libuc_start_def)
  next
    case (2 root gb s1)
    let ?U = "root_entry entry arguments (root_arguments_of root sp s) M"
    have "libuc_scheduler_run K A ?U here s1 = ret (st, s')" using assms(7) 2 by (simp add: libuc_start_def)
    note run = run_refines [OF K assms(2,3) 2(3) assms(6) [OF 2(1,2)] this]
    have "threads_of {root} [root] s1 = \<lparr>queue = [root], activity = [root \<mapsto> Ready (Enter entry arguments)], detached = {}\<rparr>"
      using 2(4-8) by (intro threads_eqI) (auto simp: doing_def life_of_def resumption_of_def resumes_as_def)
    note run [unfolded this]
    then show ?thesis using 2(1) by blast
  qed
qed

theorem process_is_thread_execution_witness:
  "\<exists>s' s1 es s2. libuc_start sim_kernel sim_arch boot_prog 0x8000 0x7000 0x900 0x1000 boot_state = ret (3, s') \<and>
    start_root sim_kernel sim_arch 0x7000 0x900 0x1000 boot_state = ret (boot_root, s1) \<and>
    trace sim_kernel sim_arch boot_main 0x8000 s1 es s2 \<and> next_call boot_main s2 = Call_process_exit (ready_head s2) 3"
proof -
  obtain s1 s' where s1: "start_root sim_kernel sim_arch 0x7000 0x900 0x1000 boot_state = ret (boot_root, s1)"
    and st: "libuc_start sim_kernel sim_arch boot_prog 0x8000 0x7000 0x900 0x1000 boot_state = ret (3, s')" using boot_ends by blast
  have b: "behaves sim_kernel sim_arch (root_entry 0x7000 0x900 (root_arguments_of root 0x1000 boot_state) boot_prog) 0x8000 s1"
    if "start_root sim_kernel sim_arch 0x7000 0x900 0x1000 boot_state = ret (root, s1)" for root s1
  proof -
    have "root = boot_root" using that boot_starts by auto
    then show ?thesis using that boot_behaves by simp
  qed
  have ne: "(0x8000 :: u64) \<noteq> 0" "(3 :: i32) \<noteq> 127" "(3 :: i32) \<noteq> 0" by simp_all
  from process_is_thread_execution [OF sim_boot_ok x86_64_fibers.fiber_arch_axioms ne(1) boot_image b st] s1 st ne(2,3) show ?thesis by fastforce
qed

end
