(* ===== verification/Uc_Ubsan.thy ===== *)
theory Uc_Ubsan
  imports Uc_Prelude
begin

text \<open>
  \<open>src/ubsan.c\<close>: the runtime the compiler's minimal undefined-behaviour checks call. Two macros
  define one function for each check: the compiler calls it by name when the check fails, and it traps.
\<close>

datatype ubsan_check =
    add_overflow | alignment_assumption | divrem_overflow | float_cast_overflow | function_type_mismatch
  | implicit_conversion | invalid_builtin | load_invalid_value | mul_overflow | negate_overflow | nonnull_arg
  | nonnull_return | nullability_arg | nullability_return | out_of_bounds | pointer_overflow
  | shift_out_of_bounds | sub_overflow | type_mismatch | vla_bound_not_positive
  | builtin_unreachable | missing_return

fun ubsan_name :: "ubsan_check \<Rightarrow> string" where
  "ubsan_name add_overflow = ''add_overflow''"
| "ubsan_name alignment_assumption = ''alignment_assumption''"
| "ubsan_name divrem_overflow = ''divrem_overflow''"
| "ubsan_name float_cast_overflow = ''float_cast_overflow''"
| "ubsan_name function_type_mismatch = ''function_type_mismatch''"
| "ubsan_name implicit_conversion = ''implicit_conversion''"
| "ubsan_name invalid_builtin = ''invalid_builtin''"
| "ubsan_name load_invalid_value = ''load_invalid_value''"
| "ubsan_name mul_overflow = ''mul_overflow''"
| "ubsan_name negate_overflow = ''negate_overflow''"
| "ubsan_name nonnull_arg = ''nonnull_arg''"
| "ubsan_name nonnull_return = ''nonnull_return''"
| "ubsan_name nullability_arg = ''nullability_arg''"
| "ubsan_name nullability_return = ''nullability_return''"
| "ubsan_name out_of_bounds = ''out_of_bounds''"
| "ubsan_name pointer_overflow = ''pointer_overflow''"
| "ubsan_name shift_out_of_bounds = ''shift_out_of_bounds''"
| "ubsan_name sub_overflow = ''sub_overflow''"
| "ubsan_name type_mismatch = ''type_mismatch''"
| "ubsan_name vla_bound_not_positive = ''vla_bound_not_positive''"
| "ubsan_name builtin_unreachable = ''builtin_unreachable''"
| "ubsan_name missing_return = ''missing_return''"

text \<open>What each macro defines: a symbol and its code.\<close>

definition LIBUC_UBSAN_HANDLER :: "string \<Rightarrow> string \<times> unit outcome" where
  "LIBUC_UBSAN_HANDLER name = (''__ubsan_handle_'' @ name @ ''_minimal_abort'', Trap)"

definition LIBUC_UBSAN_HANDLER_NORECOVER :: "string \<Rightarrow> string \<times> unit outcome" where
  "LIBUC_UBSAN_HANDLER_NORECOVER name = (''__ubsan_handle_'' @ name @ ''_minimal'', Trap)"

definition ubsan_handlers :: "(string \<times> unit outcome) list" where
  "ubsan_handlers =
     map (LIBUC_UBSAN_HANDLER \<circ> ubsan_name)
       [add_overflow, alignment_assumption, divrem_overflow, float_cast_overflow, function_type_mismatch,
        implicit_conversion, invalid_builtin, load_invalid_value, mul_overflow, negate_overflow, nonnull_arg,
        nonnull_return, nullability_arg, nullability_return, out_of_bounds, pointer_overflow,
        shift_out_of_bounds, sub_overflow, type_mismatch, vla_bound_not_positive] @
     map (LIBUC_UBSAN_HANDLER_NORECOVER \<circ> ubsan_name) [builtin_unreachable, missing_return]"

text \<open>No symbol is defined twice, every check has its handler, and every handler traps.\<close>

lemma ubsan_handlers_distinct: "distinct (map fst ubsan_handlers)"
  by (simp add: ubsan_handlers_def LIBUC_UBSAN_HANDLER_def LIBUC_UBSAN_HANDLER_NORECOVER_def)

lemma ubsan_handlers_complete:
  "\<exists>h \<in> set ubsan_handlers. h = LIBUC_UBSAN_HANDLER (ubsan_name c) \<or> h = LIBUC_UBSAN_HANDLER_NORECOVER (ubsan_name c)"
  by (cases c) (simp_all add: ubsan_handlers_def)

lemma ubsan_handlers_trap: "h \<in> set ubsan_handlers \<Longrightarrow> snd h = Trap"
  by (auto simp: ubsan_handlers_def LIBUC_UBSAN_HANDLER_def LIBUC_UBSAN_HANDLER_NORECOVER_def)

end
