(* ===== verification/Uc_Memory.thy ===== *)
theory Uc_Memory
  imports Uc_Thread_Executions
begin

text \<open>
  What the reactor does to memory. In a turn the fiber's own code writes first, whatever it likes
  (\<open>next_mem\<close>). Every handler then keeps the memory and what each fiber holds of it, but
  for at most one fiber that it makes or reclaims (\<open>memory_step\<close>); waiting and reaping change nothing.
  Properties of memory are proved on those three cases and carried to everything the reactor reaches.
\<close>

section \<open>What an enter keeps\<close>

definition entering_keeps :: "('k \<Rightarrow> bool) \<Rightarrow> ('k, 'y) ring_kernel_scheme \<Rightarrow> bool" where
  "entering_keeps g K \<longleftrightarrow> (\<forall>d n minc flags sq head tail cs k r tail' cs' k'.
     k_enter K d n minc flags sq head tail cs k = (r, tail', cs', k') \<longrightarrow> g k' = g k)"

text \<open>Something an enter keeps can be observed in place of the mapped addresses, which it keeps as well.\<close>

abbreviation observing :: "('k \<Rightarrow> bool) \<Rightarrow> 'k kernel_view \<Rightarrow> 'k kernel_view" where
  "observing g V \<equiv> V\<lparr>v_mapped := \<lambda>k. if g k then UNIV else {}\<rparr>"

lemma enter_ok_observing:
  assumes ok: "enter_ok V K" and g: "entering_keeps g K"
  shows "enter_ok (observing g V) K"
  unfolding enter_ok_def
proof (intro allI impI, goal_cases)
  case (1 d n minc sq head tail cs k r tail' cs' k')
  have "g k' = g k" using g 1(1) unfolding entering_keeps_def by blast
  then show ?case using ok [unfolded enter_ok_def, rule_format, OF 1] by (simp add: Let_def)
qed

lemma ring_step_observing: "ring_step (observing g V) new r k r' k' \<Longrightarrow> g k' = g k"
  by (auto simp: ring_step_def split: if_splits)

lemma submit_keeps:
  assumes "enter_ok V K" "ring_wf r" "entering_keeps g K" "libuc_ring_submit K n r k = ret (res, r', k')"
  shows "g k' = g k"
  using ring_submit_returns [OF enter_ok_observing [OF assms(1,3)] assms(2), of n k] assms(4)
  by (auto dest: ring_step_observing)

lemma claim_keeps:
  assumes "enter_ok V K" "ring_wf r" "entering_keeps g K"
    and "append_or_flush libuc_ring_append_sqe (libuc_ring_submit K) r k = ret (i, r', k')"
  shows "g k' = g k"
  using ring.slot_claimed [OF enter_ok_observing [OF assms(1,3)] assms(2), of k] assms(4)
  by (auto dest: ring_step_observing)

section \<open>Keeping memory\<close>

text \<open>No fiber comes or goes, and neither memory nor what a fiber holds of it changes.\<close>

definition kept :: "'k kernel_view \<Rightarrow> ('k, 'y) ring_kernel_scheme \<Rightarrow> ('k, 'c, 'w) system \<Rightarrow> ('k, 'c, 'w) system \<Rightarrow> bool" where
  "kept V K s s' \<longleftrightarrow> mem s' = mem s \<and> process_layout s' = process_layout s \<and> dom (activations s') = dom (activations s) \<and>
     (\<forall>f. map_option holdings (fibers s' f) = map_option holdings (fibers s f)) \<and>
     v_mapped V (kern s') = v_mapped V (kern s) \<and> (\<forall>g. entering_keeps g K \<longrightarrow> g (kern s') = g (kern s))"

lemma kept_refl [simp]: "kept V K s s"
  by (simp add: kept_def)

lemma kept_trans: "kept V K s s1 \<Longrightarrow> kept V K s1 s2 \<Longrightarrow> kept V K s s2"
  by (simp add: kept_def) blast

lemma kept_relinked:
  assumes "relinked s s'"
  shows "kept V K s s'"
proof -
  obtain n where "fibers s' = (\<lambda>p. map_option (\<lambda>fb. fb\<lparr>f_ready_next := n p\<rparr>) (fibers s p))"
    using relinked_fibers [OF assms] .
  then show ?thesis by (simp add: kept_def relinked_same [OF assms] option.map_comp comp_def)
qed

lemmas kept_enqueue = kept_relinked [OF enqueue_relinked]

lemma kept_set_request: "set_request q h s = Done s' \<Longrightarrow> kept V K s s'"
  by (auto simp: set_request_def kept_def outcome_simps)

lemma kept_joining [simp]: "kept V K s (s'\<lparr>joining_count := n\<rparr>) = kept V K s s'" "kept V K (s\<lparr>joining_count := n\<rparr>) s' = kept V K s s'"
  by (simp_all add: kept_def)

lemma kept_set_fiber:
  assumes "set_fiber t h s = Done s'" "\<And>fb. holdings (h fb) = holdings fb"
  shows "kept V K s s'"
  using assms by (auto simp: set_fiber_def kept_def outcome_simps)

lemma kept_ring:
  assumes "v_mapped V k = v_mapped V (kern s)" "\<And>g. entering_keeps g K \<Longrightarrow> g k = g (kern s)"
  shows "kept V K s (s\<lparr>sring := r, kern := k, parked_count := n\<rparr>)" "kept V K s (s\<lparr>sring := r, kern := k\<rparr>)"
  using assms by (simp_all add: kept_def)

lemma kept_park:
  assumes K: "enter_ok V K" "ring_wf (sring s)" and p: "park K q s = ret s'"
  shows "kept V K s s'"
proof -
  obtain rq where rq: "requests s q = Some rq" using p by (auto simp: park_def outcome_simps)
  obtain e i r k where c: "append_or_flush libuc_ring_append_sqe (libuc_ring_submit K) (sring s) (kern s) = ret (i, r, k)"
    and s': "s' = s\<lparr>sring := fill_slot i e r, kern := k, parked_count := parked_count s + 1\<rparr>"
    using p by (cases "r_ask rq") (auto simp: park_def rq outcome_simps split: if_splits)
  have "v_mapped V k = v_mapped V (kern s)"
    using ring.slot_claimed [OF K, of "kern s"] c by (auto simp: ring_step_def)
  then show ?thesis unfolding s' by (intro kept_ring(1) claim_keeps [OF K _ c])
qed

lemma kept_submit:
  assumes K: "enter_ok V K" "ring_wf (sring s)" and w: "submit_and_wait K s = ret s'"
  shows "kept V K s s'"
proof -
  obtain n res r k where c: "libuc_ring_submit K n (sring s) (kern s) = ret (res, r, k)" and s': "s' = s\<lparr>sring := r, kern := k\<rparr>"
    using w by (auto simp: submit_and_wait_def Let_def outcome_simps split: if_splits)
  have "v_mapped V k = v_mapped V (kern s)"
    using ring_submit_returns [OF K, of n "kern s"] c by (auto simp: ring_step_def)
  then show ?thesis unfolding s' by (intro kept_ring(2) submit_keeps [OF K _ c])
qed

lemma kept_wake:
  assumes "wake c (s\<lparr>sring := r\<rparr>) = Done s'"
  shows "kept V K s s'"
proof -
  obtain s1 g where s1: "set_request (cq_user_data c) (\<lambda>rq. rq\<lparr>r_result := scast (cq_res c)\<rparr>) (s\<lparr>sring := r\<rparr>) = Done s1"
    "libuc_scheduler_enqueue g (s1\<lparr>parked_count := parked_count s1 - 1\<rparr>) = Done s'"
    using assms by (auto simp: wake_def Let_def outcome_simps split: if_splits)
  have "kept V K s s1" using kept_set_request [OF s1(1), of V K] by (simp add: kept_def)
  moreover have "kept V K s1 s'" using kept_enqueue [OF s1(2), of V K] by (simp add: kept_def)
  ultimately show ?thesis by (rule kept_trans)
qed

lemma kept_reap:
  assumes "reap_loop s = ret s'"
  shows "kept V K s s'"
proof -
  define P where "P = (\<lambda>s y. \<forall>s'. y = Done s' \<longrightarrow> kept V K (s :: ('a, 'b, 'c) system) s')"
  have "P s (Done s')"
  proof (rule reap_loop.raw_induct [OF _ assms])
    fix loop s y
    assume IH: "\<And>s y. loop s = Some y \<Longrightarrow> P s y"
      and body: "rbind (Some (libuc_ring_reap (sring s))) (\<lambda>(c, r).
        case c of None \<Rightarrow> ret s | Some c \<Rightarrow> rbind (Some (wake c (s\<lparr>sring := r\<rparr>))) loop) = Some y"
    show "P s y"
      unfolding P_def
    proof (intro allI impI)
      fix s' assume y: "y = Done s'"
      from body [unfolded y] consider "s' = s" | c r s1 where "wake c (s\<lparr>sring := r\<rparr>) = Done s1" "loop s1 = ret s'"
        by (auto simp: outcome_simps split: option.splits)
      then show "kept V K s s'" using IH by cases (auto simp: P_def intro: kept_trans kept_wake)
    qed
  qed
  then show ?thesis by (simp add: P_def)
qed

section \<open>Steps\<close>

text \<open>Between what it keeps, a step makes a fiber, or reclaims one whose handle was out, or does neither.\<close>

inductive memory_step ::
    "'k kernel_view \<Rightarrow> ('k, 'y) ring_kernel_scheme \<Rightarrow> ('c, 'r) arch \<Rightarrow> ('k, 'c, 'w) system \<Rightarrow> ('k, 'c, 'w) system \<Rightarrow> bool"
  for V K A where
  keeps: "kept V K s s' \<Longrightarrow> memory_step V K A s s'"
| makes: "kept V K s s1 \<Longrightarrow> libuc_fiber_spawn K A len ent arg s1 = ret (g, s2) \<Longrightarrow> kept V K s2 s' \<Longrightarrow> memory_step V K A s s'"
| reclaims: "kept V K s s1 \<Longrightarrow> t \<in> dom (activations s1) \<Longrightarrow> destroy_or_trap K t s1 = Done s2 \<Longrightarrow> kept V K s2 s' \<Longrightarrow> memory_step V K A s s'"

lemma kept_memory_step: "kept V K s s1 \<Longrightarrow> memory_step V K A s1 s' \<Longrightarrow> memory_step V K A s s'"
  by (erule memory_step.cases) (blast intro: memory_step.intros kept_trans)+

lemma exit_memory:
  assumes h: "handle_exit K f s = Done s'" and f: "f \<in> dom (activations s)"
  shows "memory_step V K A s s'"
proof -
  from h consider "destroy_or_trap K f s = Done s'" | "s' = s"
    | h n q s1 s2 g where "set_request q h (s\<lparr>joining_count := n\<rparr>) = Done s1" "destroy_or_trap K f s1 = Done s2"
      "libuc_scheduler_enqueue g s2 = Done s'"
    by (auto simp: handle_exit_def outcome_simps split: if_splits)
  then show ?thesis
  proof cases
    case (3 h n q s1 s2 g)
    have k: "kept V K s s1" using kept_set_request [OF 3(1), of V K] by simp
    then have "f \<in> dom (activations s1)" using f by (simp add: kept_def)
    with 3 k show ?thesis by (blast intro: memory_step.reclaims kept_enqueue)
  qed (use f in \<open>auto intro: memory_step.intros kept_refl\<close>)
qed

lemma spawn_memory:
  assumes "handle_spawn K A f q s = ret s'"
  shows "memory_step V K A s s'"
proof -
  obtain rq where rq: "requests s q = Some rq" using assms by (auto simp: handle_spawn_def outcome_simps)
  obtain len ent arg g s1 h s2 s3 where h: "libuc_fiber_spawn K A len ent arg s = ret (g, s1)" "set_request q h s1 = Done s2"
    "libuc_scheduler_enqueue f s2 = Done s3" "if g \<noteq> 0 then libuc_scheduler_enqueue g s3 = Done s' else s' = s3"
    using assms by (cases "r_ask rq") (auto simp: handle_spawn_def rq outcome_simps split: if_splits)
  have "kept V K s3 s'" using h(4) by (auto intro: kept_enqueue split: if_splits)
  then have "kept V K s1 s'" by (blast intro: kept_trans kept_set_request [OF h(2)] kept_enqueue [OF h(3)])
  then show ?thesis using h(1) by (blast intro: memory_step.makes kept_refl)
qed

lemma join_memory:
  assumes h: "handle_join K f q s = Done s'" and rq: "requests s q = Some rq" "r_ask rq = Target t" and t: "t \<in> dom (activations s)"
  shows "memory_step V K A s s'"
proof -
  from h rq consider h s1 s2 where "set_request q h s = Done s1" "destroy_or_trap K t s1 = Done s2" "libuc_scheduler_enqueue f s2 = Done s'"
    | s1 where "set_fiber t (\<lambda>tb. tb\<lparr>f_joiner := q\<rparr>) s = Done s1" "s' = s1\<lparr>joining_count := joining_count s1 + 1\<rparr>"
    by (auto simp: handle_join_def outcome_simps split: if_splits)
  then show ?thesis
  proof cases
    case (1 h s1 s2)
    have k: "kept V K s s1" by (rule kept_set_request [OF 1(1)])
    then have "t \<in> dom (activations s1)" using t by (simp add: kept_def)
    with 1 k show ?thesis by (blast intro: memory_step.reclaims kept_enqueue)
  next
    case (2 s1)
    have "kept V K s s1" by (rule kept_set_fiber [OF 2(1)]) (simp add: holdings_def)
    then show ?thesis unfolding 2(2) by (intro memory_step.keeps) simp
  qed
qed

lemma detach_memory:
  assumes h: "handle_detach K f q s = Done s'" and rq: "requests s q = Some rq" "r_ask rq = Target t" and t: "t \<in> dom (activations s)"
  shows "memory_step V K A s s'"
proof -
  from h rq consider s1 where "destroy_or_trap K t s = Done s1" "libuc_scheduler_enqueue f s1 = Done s'"
    | s1 where "set_fiber t (\<lambda>tb. tb\<lparr>f_life := FIBER_DETACHED\<rparr>) s = Done s1" "libuc_scheduler_enqueue f s1 = Done s'"
    by (auto simp: handle_detach_def outcome_simps split: if_splits)
  then show ?thesis
  proof cases
    case (1 s1)
    with t show ?thesis by (blast intro: memory_step.reclaims kept_refl kept_enqueue)
  next
    case (2 s1)
    have "kept V K s s1" by (rule kept_set_fiber [OF 2(1)]) (simp add: holdings_def)
    then show ?thesis using kept_enqueue [OF 2(2)] by (blast intro: memory_step.keeps kept_trans)
  qed
qed

lemma handle_memory:
  assumes K: "enter_ok V K" "ring_wf (sring s)" and h: "handle K A f q s = ret (None, s')"
    and rq: "requests s q = Some rq" "r_kind rq = call_kind c" "r_ask rq = call_ask c"
    and F: "f \<in> dom (activations s)" "\<And>t. target_of c = Some t \<Longrightarrow> t \<in> dom (activations s)"
  shows "memory_step V K A s s'"
proof -
  note h' = h [unfolded handle_def rq(1) deref_simps rbind_simps Let_def rq(2,3)]
  show ?thesis
  proof (cases c)
    case Call_yield
    then show ?thesis using h' by (auto simp: outcome_simps intro: memory_step.keeps kept_enqueue)
  next
    case (Call_await e)
    then show ?thesis using h' kept_park [OF K] by (auto simp: outcome_simps intro: memory_step.keeps)
  next
    case (Call_start n e a)
    then show ?thesis using h' by (auto simp: outcome_simps intro: spawn_memory)
  next
    case (Call_join t)
    then show ?thesis using h' rq F(2) [of t] by (auto simp: outcome_simps target_of_def intro!: join_memory)
  next
    case (Call_detach t)
    then show ?thesis using h' rq F(2) [of t] by (auto simp: outcome_simps target_of_def intro!: detach_memory)
  qed (use h' exit_memory [OF _ F(1)] in \<open>auto simp: outcome_simps split: request_union.splits\<close>)
qed

lemma turn_memory:
  assumes ready: "turn_ready V K A U here F f rs ps s" and t: "turn K A U here s = ret (None, s')"
  shows "memory_step V K A (s\<lparr>mem := next_mem U s\<rparr>) s'"
proof -
  have K: "enter_ok V K" and inv: "sched_inv V A F {} (f # rs) ps s" "well_behaved A U s"
    using ready by (simp_all add: turn_ready_def kernel_ok_def)
  obtain gb s2 where h: "turn K A U here s = handle K A f (next_frame U s) s2"
    "asking V A F rs ps s2 f gb (next_frame U s)
       \<lparr>r_kind = call_kind (next_call U s), r_ask = call_ask (next_call U s), r_result = 0, r_fiber = f\<rparr>"
    "kern s2 = kern s" "mem s2 = next_mem U s" "\<And>t. map_option holdings (fibers s2 t) = map_option holdings (fibers s t)"
    "process_layout s2 = process_layout s"
    using turn_asks [OF ready] by metis
  note D = askingD [OF h(2)]
  have dom: "dom (activations s) = F" "dom (activations s2) = F"
    using inv(1) fiber_invD(2) [OF D(11)] by (auto simp: sched_inv_def fiber_inv_def)
  have "kept V K (s\<lparr>mem := next_mem U s\<rparr>) s2" using h(3-6) dom by (simp add: kept_def)
  moreover have "memory_step V K A s2 s'"
    using t D(2,12) dom(2) named_in [OF inv] unfolding h(1)
    by (intro handle_memory [OF K _ _ D(5)]) (auto simp: ring_inv_def)
  ultimately show ?thesis by (rule kept_memory_step)
qed

section \<open>Everything the reactor reaches\<close>

lemma turned_memory:
  assumes K: "kernel_ok V K" "fiber_arch A" "here \<noteq> 0" and s: "sched_inv V A F {} rs ps s" "behaves K A U here s"
    and t: "ready_head s \<noteq> 0" "turn K A U here s = ret (None, s')"
  shows "memory_step V K A (s\<lparr>mem := next_mem U s\<rparr>) s' \<and> (\<exists>F rs ps. sched_inv V A F {} rs ps s')"
proof -
  obtain f xs where "rs = f # xs" using s(1) t(1) by (cases rs) (auto simp: sched_inv_def ready_queue_def)
  then have "turn_ready V K A U here F f xs ps s" using next_turn_ready(3) [OF K s(2)] s(1) by simp
  then show ?thesis using turn_memory turn_carries_on t(2) by (fastforce simp: carries_on_def)
qed

lemma waited_memory:
  assumes K: "kernel_ok V K" and s: "sched_inv V A F {} rs ps s" and w: "submit_and_wait K s = ret s1" "reap_loop s1 = ret s'"
  shows "memory_step V K A s s' \<and> (\<exists>F rs ps. sched_inv V A F {} rs ps s')"
proof -
  have en: "enter_ok V K" "ring_wf (sring s)" using K s by (simp_all add: kernel_ok_def sched_inv_def ring_inv_def)
  have "memory_step V K A s s'"
    by (rule memory_step.keeps [OF kept_trans [OF kept_submit [OF en w(1)] kept_reap [OF w(2)]]])
  then show ?thesis using submit_and_wait_inv [OF K s] reap_loop_inv [OF _ refl] w by fastforce
qed

text \<open>What the program writes is no concern of the invariant. What its writes and the steps between states
  of the invariant keep, every state the reactor reaches has.\<close>

lemma sched_inv_mem [simp]: "sched_inv V A F R rs ps (s\<lparr>mem := m\<rparr>) = sched_inv V A F R rs ps s"
proof -
  have q: "ready_queue (s\<lparr>mem := m\<rparr>) rs = ready_queue s rs" by (simp add: ready_queue_def next_map_def)
  have j: "joiner_of (s\<lparr>mem := m\<rparr>) = joiner_of s" "life_of (s\<lparr>mem := m\<rparr>) = life_of s" "alive (s\<lparr>mem := m\<rparr>) = alive s"
    by (intro ext; simp add: joiner_of_def life_of_def alive_def)+
  have w: "waits (s\<lparr>mem := m\<rparr>) = waits s" by (intro ext) (simp add: waits_def j)
  have d: "joined F (s\<lparr>mem := m\<rparr>) = joined F s" "waiting F ps (s\<lparr>mem := m\<rparr>) = waiting F ps s"
    by (auto simp: joined_def waiting_def j)
  have u: "suspended_at (s\<lparr>mem := m\<rparr>) f fb a = suspended_at s f fb a" for f fb a by (cases a) (simp_all add: suspended_at_def)
  have "fiber_inv V A F R (s\<lparr>mem := m\<rparr>) = fiber_inv V A F R s"
    by (simp add: fiber_inv_def fibers_wf_def fiber_wf_def resumable_def u)
  then show ?thesis by (simp add: sched_inv_def q ring_inv_def wait_inv_def j w d)
qed

lemma reaches_memory:
  assumes "reaches K A U here s s'" and K: "kernel_ok V K" "fiber_arch A" "here \<noteq> 0"
    and "sched_inv V A F {} rs ps s" "behaves K A U here s" "P s"
    and wrt: "\<And>u. reaches K A U here s u \<Longrightarrow> ready_head u \<noteq> 0 \<Longrightarrow> P u \<Longrightarrow> P (u\<lparr>mem := next_mem U u\<rparr>)"
    and step: "\<And>F rs ps s F' rs' ps' s'. sched_inv V A F {} rs ps s \<Longrightarrow> P s \<Longrightarrow> memory_step V K A s s' \<Longrightarrow>
      sched_inv V A F' {} rs' ps' s' \<Longrightarrow> P s'"
  shows "P s' \<and> (\<exists>F rs ps. sched_inv V A F {} rs ps s')"
  using assms(1,5-8)
proof (induction rule: reaches.induct)
  case (turned s s' s'')
  then obtain F' rs' ps' where IH: "P s'" "sched_inv V A F' {} rs' ps' s'" by blast
  show ?case
    using turned_memory [OF K IH(2) behaves_reaches [OF turned.prems(2) turned.hyps(1)] turned.hyps(2,3)]
      step [of _ _ _ "s'\<lparr>mem := next_mem U s'\<rparr>", unfolded sched_inv_mem, OF IH(2) turned.prems(4) [OF turned.hyps(1,2) IH(1)]] by blast
next
  case (waited s s' s1 s'')
  then obtain F' rs' ps' where IH: "P s'" "sched_inv V A F' {} rs' ps' s'" by blast
  show ?case using waited_memory [OF K(1) IH(2) waited.hyps(3,4)] step [OF IH(2,1)] by blast
qed blast

end
