(* ===== verification/Uc_Mappings.thy ===== *)
theory Uc_Mappings
  imports Uc_Memory Uc_Start
begin

text \<open>
  Where the memory of a process goes. Over a kernel that keeps account of its mappings, the
  mappings of a process are at every moment those it started with, the two of its ring, and the stack
  and the thread-local block of every fiber that has not been reclaimed: nothing leaks, whatever
  order fibers are started, joined, detached and exit in, and reclaiming a fiber never fails.
\<close>

section \<open>Mappings\<close>

text \<open>
  The kernel's mappings by start and length. A successful \<open>mmap\<close> makes a new one; \<open>munmap\<close> of exactly one
  mapping, which splits none, succeeds and takes it away; the ring's system calls make none.
\<close>

definition mappings_ok :: "('k \<Rightarrow> (u64 \<times> u64) set) \<Rightarrow> ('k, 'y) ring_kernel_scheme \<Rightarrow> bool" where
  "mappings_ok M K \<longleftrightarrow>
     (\<forall>len prot flags d off m k r m' k'. k_mmap K 0 len prot flags d off m k = (r, m', k') \<longrightarrow>
        (if libuc_syscall_failed r then M k' = M k else (r, len) \<notin> M k \<and> M k' = insert (r, len) (M k))) \<and>
     (\<forall>start len m k r m' k'. k_munmap K start len m k = (r, m', k') \<longrightarrow> (start, len) \<in> M k \<longrightarrow>
        \<not> libuc_syscall_failed r \<and> M k' = M k - {(start, len)}) \<and>
     (\<forall>entries flags k d p k'. k_setup K entries flags k = (d, p, k') \<longrightarrow> M k' = M k) \<and>
     (\<forall>N. entering_keeps (\<lambda>k. M k = N) K)"

lemma mappings_okD:
  assumes "mappings_ok M K"
  shows "k_mmap K 0 len prot flags d off m k = (r, m', k') \<Longrightarrow> libuc_syscall_failed r \<Longrightarrow> M k' = M k"
    "k_mmap K 0 len prot flags d off m k = (r, m', k') \<Longrightarrow> \<not> libuc_syscall_failed r \<Longrightarrow> (r, len) \<notin> M k \<and> M k' = insert (r, len) (M k)"
    "k_munmap K start len m k = (r, m', k') \<Longrightarrow> (start, len) \<in> M k \<Longrightarrow> \<not> libuc_syscall_failed r \<and> M k' = M k - {(start, len)}"
    "k_setup K entries sflags k = (fd, p, k') \<Longrightarrow> M k' = M k"
    "entering_keeps (\<lambda>k. M k = N) K"
  using assms unfolding mappings_ok_def by metis+

text \<open>What a fiber holds, and what all the fibers whose handles are out hold together.\<close>

definition ranges_held :: "'c fiber \<Rightarrow> (u64 \<times> u64) set" where
  "ranges_held fb = {(f_stack fb, f_stack_length fb), (mapping (f_block fb), mapping_length (f_block fb))}"

definition held :: "('k, 'c, 'w) system \<Rightarrow> (u64 \<times> u64) set" where
  "held s = (\<Union>f \<in> dom (activations s). case fibers s f of None \<Rightarrow> {} | Some fb \<Rightarrow> ranges_held fb)"

definition accounted :: "('k \<Rightarrow> (u64 \<times> u64) set) \<Rightarrow> (u64 \<times> u64) set \<Rightarrow> ('k, 'c, 'w) system \<Rightarrow> bool" where
  "accounted M B s \<longleftrightarrow> M (kern s) = B \<union> held s \<and> B \<inter> held s = {}"

lemma in_held: "x \<in> held s \<longleftrightarrow> (\<exists>f fb. f \<in> dom (activations s) \<and> fibers s f = Some fb \<and> x \<in> ranges_held fb)"
proof -
  have "x \<in> (case fibers s f of None \<Rightarrow> {} | Some fb \<Rightarrow> ranges_held fb) \<longleftrightarrow> (\<exists>fb. fibers s f = Some fb \<and> x \<in> ranges_held fb)" for f
    by (cases "fibers s f") simp_all
  then show ?thesis unfolding held_def by blast
qed

lemma ranges_in_held: "f \<in> dom (activations s) \<Longrightarrow> fibers s f = Some fb \<Longrightarrow> ranges_held fb \<subseteq> held s"
  using in_held by blast

lemma holdings_eqD:
  assumes "holdings fb = holdings gb"
  shows "f_block fb = f_block gb" "stack_range fb = stack_range gb" "block_range fb = block_range gb"
    "footprint fb = footprint gb" "ranges_held fb = ranges_held gb"
  using assms by (simp_all add: holdings_def stack_range_def block_range_def footprint_def ranges_held_def)

lemma kept_holdings:
  assumes "kept V K s s'" "fibers s f = Some fb"
  obtains fb' where "fibers s' f = Some fb'" "holdings fb' = holdings fb"
proof -
  have "map_option holdings (fibers s' f) = Some (holdings fb)" using assms by (simp add: kept_def)
  then show ?thesis using that by (cases "fibers s' f") auto
qed

lemma held_kept: "kept V K s s' \<Longrightarrow> held s' = held s"
proof -
  assume k: "kept V K s s'"
  have "(case fibers s' f of None \<Rightarrow> {} | Some fb \<Rightarrow> ranges_held fb) = (case fibers s f of None \<Rightarrow> {} | Some fb \<Rightarrow> ranges_held fb)" for f
  proof (cases "fibers s f")
    case None
    then show ?thesis using k by (simp add: kept_def) (metis None option.simps(4) option.map_disc_iff)
  next
    case (Some fb)
    then show ?thesis using kept_holdings [OF k Some] holdings_eqD(5) by (metis option.simps(5))
  qed
  then show "held s' = held s" using k by (simp add: held_def kept_def)
qed

lemma accounted_kept:
  assumes "mappings_ok M K" "kept V K s s'"
  shows "accounted M B s' = accounted M B s"
proof -
  have "M (kern s') = M (kern s)" using assms(2) mappings_okD(5) [OF assms(1), of "M (kern s)"] unfolding kept_def by blast
  then show ?thesis by (simp add: accounted_def held_kept [OF assms(2)])
qed

section \<open>Fibers apart from each other\<close>

definition separate :: "('k \<Rightarrow> u64 set) \<Rightarrow> ('k, 'c, 'w) system \<Rightarrow> bool" where
  "separate mapped s \<longleftrightarrow>
     (\<forall>f \<in> dom (activations s). f \<noteq> 0 \<and> (\<exists>fb. fibers s f = Some fb \<and> f \<in> stack_range fb \<and> thread_pointer (f_block fb) \<in> block_range fb \<and>
        stack_range fb \<inter> block_range fb = {} \<and> footprint fb \<subseteq> mapped (kern s))) \<and>
     (\<forall>f \<in> dom (activations s). \<forall>g \<in> dom (activations s). f \<noteq> g \<longrightarrow> footprint (the (fibers s f)) \<inter> footprint (the (fibers s g)) = {})"

lemma separateD:
  assumes "separate mapped s" "f \<in> dom (activations s)"
  obtains fb where "fibers s f = Some fb" "f \<noteq> 0" "f \<in> stack_range fb" "thread_pointer (f_block fb) \<in> block_range fb"
    "stack_range fb \<inter> block_range fb = {}" "footprint fb \<subseteq> mapped (kern s)"
  using assms unfolding separate_def by blast

lemma separate_record:
  assumes "separate mapped s" "f \<in> dom (activations s)"
  obtains fb where "fibers s f = Some fb"
  using separateD [OF assms] .

lemma separate_fiber:
  assumes "separate mapped s" "f \<in> dom (activations s)" "fibers s f = Some fb"
  shows "f \<noteq> 0" "f \<in> stack_range fb" "thread_pointer (f_block fb) \<in> block_range fb" "stack_range fb \<inter> block_range fb = {}"
    "footprint fb \<subseteq> mapped (kern s)" "f \<in> footprint fb"
  using separateD [OF assms(1,2)] assms(3) by (auto simp: footprint_def)

lemma separate_apart:
  assumes "separate mapped s" "f \<in> dom (activations s)" "g \<in> dom (activations s)" "f \<noteq> g" "fibers s f = Some fb" "fibers s g = Some gb"
  shows "footprint fb \<inter> footprint gb = {}"
  using assms unfolding separate_def by force

lemma separate_inv:
  assumes "fiber_inv V A F R s"
  shows "separate (v_mapped V) s"
proof -
  have wf: "fibers_wf (v_mapped V) F s" "dom (activations s) = F" using assms by (simp_all add: fiber_inv_def)
  then show ?thesis unfolding separate_def fibers_wf_def fiber_wf_def by blast
qed

lemma separate_kept:
  assumes k: "kept V K s s'" and s: "separate (v_mapped V) s"
  shows "separate (v_mapped V) s'"
proof -
  have d: "dom (activations s') = dom (activations s)" "v_mapped V (kern s') = v_mapped V (kern s)" using k by (simp_all add: kept_def)
  have rec: "\<exists>fb fb'. fibers s f = Some fb \<and> fibers s' f = Some fb' \<and> holdings fb' = holdings fb" if "f \<in> dom (activations s)" for f
    using separateD [OF s that] kept_holdings [OF k] by metis
  show ?thesis
    unfolding separate_def d
  proof (intro conjI ballI impI)
    fix f assume f: "f \<in> dom (activations s)"
    show "f \<noteq> 0" using separateD [OF s f] by blast
    obtain fb fb' where fb: "fibers s f = Some fb" "fibers s' f = Some fb'" "holdings fb' = holdings fb" using rec [OF f] by blast
    show "\<exists>fb. fibers s' f = Some fb \<and> f \<in> stack_range fb \<and> thread_pointer (f_block fb) \<in> block_range fb \<and>
        stack_range fb \<inter> block_range fb = {} \<and> footprint fb \<subseteq> v_mapped V (kern s)"
      using separate_fiber [OF s f fb(1)] by (intro exI [of _ fb']) (simp add: fb(2) holdings_eqD [OF fb(3)])
  next
    fix f g assume fg: "f \<in> dom (activations s)" "g \<in> dom (activations s)" "f \<noteq> g"
    obtain fb fb' where fb: "fibers s f = Some fb" "fibers s' f = Some fb'" "holdings fb' = holdings fb" using rec [OF fg(1)] by blast
    obtain gb gb' where gb: "fibers s g = Some gb" "fibers s' g = Some gb'" "holdings gb' = holdings gb" using rec [OF fg(2)] by blast
    show "footprint (the (fibers s' f)) \<inter> footprint (the (fibers s' g)) = {}"
      using separate_apart [OF s fg fb(1) gb(1)] by (simp add: fb(2) gb(2) holdings_eqD [OF fb(3)] holdings_eqD [OF gb(3)])
  qed
qed

text \<open>The ranges of different fibers are different, and so are the two of one fiber.\<close>

lemma ranges_apart:
  assumes s: "separate mapped s" and f: "f \<in> dom (activations s)" "fibers s f = Some fb"
  shows "(f_stack fb, f_stack_length fb) \<noteq> (mapping (f_block fb), mapping_length (f_block fb))"
    "g \<in> dom (activations s) \<Longrightarrow> f \<noteq> g \<Longrightarrow> fibers s g = Some gb \<Longrightarrow> ranges_held fb \<inter> ranges_held gb = {}"
proof -
  have R: "region (fst x) (snd x) \<noteq> {} \<and> region (fst x) (snd x) \<subseteq> footprint hb"
    if h: "h \<in> dom (activations s)" "fibers s h = Some hb" and x: "x \<in> ranges_held hb" for h hb x
    using separate_fiber(2,3) [OF s h] x by (auto simp: ranges_held_def footprint_def stack_range_def block_range_def)
  show "(f_stack fb, f_stack_length fb) \<noteq> (mapping (f_block fb), mapping_length (f_block fb))"
    using separate_fiber(2-4) [OF s f] by (auto simp: stack_range_def block_range_def)
  show "ranges_held fb \<inter> ranges_held gb = {}" if g: "g \<in> dom (activations s)" "f \<noteq> g" "fibers s g = Some gb"
  proof (rule equals0I)
    fix x assume "x \<in> ranges_held fb \<inter> ranges_held gb"
    then have "region (fst x) (snd x) \<subseteq> footprint fb \<inter> footprint gb" "region (fst x) (snd x) \<noteq> {}" using R [OF f] R [OF g(1,3)] by auto
    then show False using separate_apart [OF s f(1) g(1,2) f(2) g(3)] by blast
  qed
qed

lemma card_held:
  assumes s: "separate mapped s" and fin: "finite (dom (activations s))"
  shows "card (held s) = 2 * card (dom (activations s))"
proof -
  let ?r = "\<lambda>f. case fibers s f of None \<Rightarrow> {} | Some fb \<Rightarrow> ranges_held fb"
  have "card (?r f) = 2" if f: "f \<in> dom (activations s)" for f
  proof -
    obtain fb where "fibers s f = Some fb" using separate_record [OF s f] .
    then show ?thesis using ranges_apart(1) [OF s f] by (simp add: ranges_held_def card_insert_if)
  qed
  moreover have "card (held s) = (\<Sum>f \<in> dom (activations s). card (?r f))"
    unfolding held_def
  proof (rule card_UN_disjoint [OF fin])
    show "\<forall>f \<in> dom (activations s). finite (?r f)" by (auto simp: ranges_held_def split: option.splits)
    show "\<forall>f \<in> dom (activations s). \<forall>g \<in> dom (activations s). f \<noteq> g \<longrightarrow> ?r f \<inter> ?r g = {}"
    proof (intro ballI impI)
      fix f g assume fg: "f \<in> dom (activations s)" "g \<in> dom (activations s)" "f \<noteq> g"
      obtain fb gb where "fibers s f = Some fb" "fibers s g = Some gb" using separate_record [OF s fg(1)] separate_record [OF s fg(2)] by metis
      then show "?r f \<inter> ?r g = {}" using ranges_apart(2) [OF s fg(1) _ fg(2,3)] by simp
    qed
  qed
  ultimately show ?thesis by simp
qed

section \<open>Reclaiming\<close>

lemma unmapping:
  assumes K: "mappings_ok M K" and u: "munmap_objects K p n s = (r, s')" and m: "(p, n) \<in> M (kern s)"
  shows "\<not> libuc_syscall_failed r" "M (kern s') = M (kern s) - {(p, n)}" "fibers s' = fibers s |` (- region p n)"
    "activations s' = activations s |` (- region p n)"
proof -
  obtain m' k' where k: "k_munmap K p n (mem s) (kern s) = (r, m', k')"
    using u by (auto simp: munmap_objects_def munmap_range_def split: prod.splits)
  note D = mappings_okD(3) [OF K k m]
  then have s': "s' = forget_range p n (s\<lparr>mem := m', kern := k', tcbs := tcbs s |` (- region p n)\<rparr>)"
    using u by (simp add: munmap_objects_def munmap_range_def k)
  show "\<not> libuc_syscall_failed r" using D by simp
  show "M (kern s') = M (kern s) - {(p, n)}" "fibers s' = fibers s |` (- region p n)" "activations s' = activations s |` (- region p n)"
    using D by (simp_all add: s' forget_range_def)
qed

text \<open>Reclaiming a fiber succeeds, and takes away its two mappings and nothing of any other fiber.\<close>

lemma reclaimed:
  assumes K: "mappings_ok M K" and s: "separate mapped s" "accounted M B s" and t: "t \<in> dom (activations s)" "fibers s t = Some tb"
  obtains s' where "destroy_or_trap K t s = Done s'" "M (kern s') = M (kern s) - ranges_held tb"
    "dom (activations s') = dom (activations s) - {t}" "\<And>f. f \<in> dom (activations s) - {t} \<Longrightarrow> fibers s' f = fibers s f"
proof -
  note T = separate_fiber [OF s(1) t] and ne = ranges_apart(1) [OF s(1) t]
  have m: "ranges_held tb \<subseteq> M (kern s)" using ranges_in_held [OF t] s(2) by (simp add: accounted_def le_supI2)
  obtain r1 s1 where u1: "munmap_objects K (mapping (f_block tb)) (mapping_length (f_block tb)) s = (r1, s1)" by fastforce
  note U1 = unmapping [OF K u1]
  have m1: "(mapping (f_block tb), mapping_length (f_block tb)) \<in> M (kern s)" using m by (simp add: ranges_held_def)
  have t1: "fibers s1 t = Some tb" using U1(3) [OF m1] T(2,4) t(2) by (auto simp: restrict_map_def block_range_def)
  obtain r2 s2 where u2: "munmap_objects K (f_stack tb) (f_stack_length tb) s1 = (r2, s2)" by fastforce
  have m2: "(f_stack tb, f_stack_length tb) \<in> M (kern s1)" using m ne U1(2) [OF m1] by (simp add: ranges_held_def)
  note U2 = unmapping [OF K u2 m2]
  have maps: "fibers s2 = fibers s |` (- footprint tb)" "activations s2 = activations s |` (- footprint tb)"
    using U2(3,4) U1(3,4) [OF m1] by (auto simp: footprint_def stack_range_def block_range_def Int_commute)
  have out: "f \<notin> footprint tb" if f: "f \<in> dom (activations s) - {t}" for f
  proof -
    obtain fb where fb: "fibers s f = Some fb" using separate_record [OF s(1), of f] f by blast
    then show ?thesis using separate_apart [OF s(1) _ t(1) _ fb t(2)] separate_fiber(6) [OF s(1) _ fb] f by blast
  qed
  show thesis
  proof (rule that)
    show "destroy_or_trap K t s = Done s2"
      using U1(1) [OF m1] U2(1) by (simp add: destroy_or_trap_def libuc_fiber_destroy_def t(2) block_destroy_objects_eq u1 t1 u2)
    show "M (kern s2) = M (kern s) - ranges_held tb" using U1(2) [OF m1] U2(2) by (auto simp: ranges_held_def)
    show "dom (activations s2) = dom (activations s) - {t}" using maps(2) out T(6) by auto
    show "fibers s2 f = fibers s f" if "f \<in> dom (activations s) - {t}" for f using maps(1) out [OF that] by simp
  qed
qed

lemma accounted_reclaimed:
  assumes K: "mappings_ok M K" and s: "separate mapped s" "accounted M B s" and t: "t \<in> dom (activations s)"
    and d: "destroy_or_trap K t s = Done s'"
  shows "accounted M B s'"
proof -
  obtain tb where tb: "fibers s t = Some tb" using separate_record [OF s(1) t] .
  obtain s'' where s'': "destroy_or_trap K t s = Done s''" "M (kern s'') = M (kern s) - ranges_held tb"
    "dom (activations s'') = dom (activations s) - {t}" "\<And>f. f \<in> dom (activations s) - {t} \<Longrightarrow> fibers s'' f = fibers s f"
    using reclaimed [OF K s t tb] by metis
  have old: "f \<in> dom (activations s) \<and> f \<noteq> t \<and> fibers s f = fibers s'' f" if "f \<in> dom (activations s'')" for f
    using s''(3) s''(4) [of f] that by simp
  have "held s = held s'' \<union> ranges_held tb"
  proof (intro equalityI subsetI)
    fix x assume "x \<in> held s"
    then obtain f fb where f: "f \<in> dom (activations s)" "fibers s f = Some fb" "x \<in> ranges_held fb" unfolding in_held by blast
    then show "x \<in> held s'' \<union> ranges_held tb" using tb s''(3) s''(4) [of f] in_held [of x s''] by (cases "f = t") auto
  next
    fix x assume "x \<in> held s'' \<union> ranges_held tb"
    then show "x \<in> held s"
    proof
      assume "x \<in> held s''"
      then obtain f fb where f: "f \<in> dom (activations s'')" "fibers s'' f = Some fb" "x \<in> ranges_held fb" unfolding in_held by blast
      then show ?thesis using old [OF f(1)] ranges_in_held [of f s fb] by auto
    qed (use ranges_in_held [OF t tb] in auto)
  qed
  moreover have "held s'' \<inter> ranges_held tb = {}"
  proof (rule equals0I)
    fix x assume x: "x \<in> held s'' \<inter> ranges_held tb"
    then obtain f fb where f: "f \<in> dom (activations s'')" "fibers s'' f = Some fb" "x \<in> ranges_held fb"
      using in_held [of x s''] by blast
    then show False using ranges_apart(2) [OF s(1) t tb, of f fb] old [OF f(1)] x by auto
  qed
  moreover have "s' = s''" using d s''(1) by simp
  ultimately show ?thesis using s(2) s''(2) unfolding accounted_def by blast
qed

section \<open>Making\<close>

lemma block_create_mappings:
  assumes K: "mappings_ok M K" and lay: "process_layout s = Some l"
    and c: "libuc_thread_local_block_create K place s = Some (ob, s')"
  shows "case ob of None \<Rightarrow> M (kern s') = M (kern s)
    | Some b \<Rightarrow> (mapping b, mapping_length b) \<notin> M (kern s) \<and> M (kern s') = insert (mapping b, mapping_length b) (M (kern s))"
proof -
  note defs = libuc_thread_local_block_create_def libuc_thread_local_layout_def mmap_anonymous_def munmap_range_def Let_def
  show ?thesis
  proof (cases ob)
    case None
    from c lay None consider "s' = s"
      | len r m1 k1 where "k_mmap K 0 len prot_rw map_private_anonymous (- 1) 0 (mem s) (kern s) = (r, m1, k1)" "libuc_syscall_failed r" "kern s' = k1"
      | len r m1 k1 r2 m2 where "k_mmap K 0 len prot_rw map_private_anonymous (- 1) 0 (mem s) (kern s) = (r, m1, k1)" "\<not> libuc_syscall_failed r"
        "k_munmap K r len m1 k1 = (r2, m2, kern s')"
      by (auto simp: defs split: option.splits prod.splits if_splits)
    then show ?thesis
    proof cases
      case 3
      then show ?thesis using None mappings_okD(2) [OF K 3(1,2)] mappings_okD(3) [OF K 3(3)] by simp
    qed (use None in \<open>auto dest: mappings_okD(1) [OF K]\<close>)
  next
    case (Some b)
    from c lay obtain m1 where "k_mmap K 0 (mapping_length b) prot_rw map_private_anonymous (- 1) 0 (mem s) (kern s) = (mapping b, m1, kern s')"
      "\<not> libuc_syscall_failed (mapping b)"
      unfolding Some by (auto simp: defs split: option.splits prod.splits if_splits)
    then show ?thesis using Some mappings_okD(2) [OF K] by simp
  qed
qed

text \<open>The ways a spawn ends: at once, without a stack, without a thread-local block, or with a fiber.\<close>

lemma spawn_elim:
  assumes sp: "libuc_fiber_spawn K A len ent arg s = ret (g, s')"
  obtains "g = 0" "s' = s"
  | stk m k where "k_mmap K 0 len prot_rw map_private_anonymous (- 1) 0 (mem s) (kern s) = (stk, m, k)" "libuc_syscall_failed stk"
      "g = 0" "s' = s\<lparr>mem := m, kern := k\<rparr>"
  | stk m k h s3 r where "k_mmap K 0 len prot_rw map_private_anonymous (- 1) 0 (mem s) (kern s) = (stk, m, k)"
      "\<not> libuc_syscall_failed stk"
      "libuc_thread_local_block_create K (a_place A) (s\<lparr>mem := m, kern := k, fibers := h\<rparr>) = Some (None, s3)"
      "munmap_objects K stk len s3 = (r, s')" "g = 0"
  | stk m k h s3 b fb where "k_mmap K 0 len prot_rw map_private_anonymous (- 1) 0 (mem s) (kern s) = (stk, m, k)"
      "\<not> libuc_syscall_failed stk"
      "libuc_thread_local_block_create K (a_place A) (s\<lparr>mem := m, kern := k, fibers := h\<rparr>) = Some (Some b, s3)"
      "mem s' = mem s3" "kern s' = kern s3" "process_layout s' = process_layout s3" "activations s' g = Some At_entry"
      "fibers s' g = Some fb" "f_block fb = b" "f_stack fb = stk" "f_stack_length fb = len"
proof (cases "len \<le> a_fiber_size A")
  case True
  then show ?thesis using sp by (intro that(1)) (simp_all add: libuc_fiber_spawn_def)
next
  case False
  obtain stk m k where mm: "k_mmap K 0 len prot_rw map_private_anonymous (- 1) 0 (mem s) (kern s) = (stk, m, k)"
    by (metis prod_cases3)
  let ?f = "fiber_address A stk len"
  let ?h = "(fibers s)(?f \<mapsto> new_fiber A stk len ent arg)"
  let ?s2 = "s\<lparr>mem := m, kern := k, fibers := ?h\<rparr>"
  note defs = libuc_fiber_spawn_def mmap_anonymous_def mm Let_def
  show ?thesis
  proof (cases "libuc_syscall_failed stk")
    case True
    then show ?thesis using sp False by (intro that(2) [OF mm]) (simp_all add: defs)
  next
    case ok: False
    obtain ob s3 where cr: "libuc_thread_local_block_create K (a_place A) ?s2 = Some (ob, s3)"
      using sp False ok by (cases "libuc_thread_local_block_create K (a_place A) ?s2") (auto simp: defs)
    show ?thesis
    proof (cases ob)
      case None
      obtain r s4 where u: "munmap_objects K stk len s3 = (r, s4)" by fastforce
      moreover have "g = 0" "s' = s4" using sp False ok cr None u by (auto simp: defs)
      ultimately show ?thesis using that(3) [OF mm ok] cr None by blast
    next
      case (Some b)
      obtain s4 s5 s6 where st: "set_fiber ?f (\<lambda>fb. fb\<lparr>f_block := b\<rparr>) s3 = Done s4"
        "set_tcb (thread_pointer b) (\<lambda>t. t\<lparr>tcb_fiber := ?f\<rparr>) s4 = Done s5"
        "set_fiber ?f (\<lambda>fb. fb\<lparr>f_context := a_make A ?f (a_run_fiber A) ?f\<rparr>) s5 = Done s6"
        "g = ?f" "s' = s6\<lparr>activations := (activations s6)(?f \<mapsto> At_entry)\<rparr>"
        using sp False ok cr Some by (auto simp: defs outcome_simps)
      have "fibers s3 = fibers ?s2" by (rule machine_more_eqD(1) [OF create_more [OF cr]])
      then have "fibers s' g = Some ((new_fiber A stk len ent arg)\<lparr>f_block := b, f_context := a_make A ?f (a_run_fiber A) ?f\<rparr>)"
        "kern s' = kern s3" "mem s' = mem s3" "process_layout s' = process_layout s3" "activations s' g = Some At_entry"
        using st by (auto simp: set_fiber_def set_tcb_def outcome_simps)
      note made = this
      show ?thesis by (rule that(4) [OF mm ok cr [unfolded Some] made(3,2,4,5,1)]) (simp_all add: new_fiber_def)
    qed
  qed
qed

lemma spawn_mappings:
  assumes K: "mappings_ok M K" and lay: "process_layout s = Some l" and sp: "libuc_fiber_spawn K A len ent arg s = ret (g, s')"
  shows "g = 0 \<and> M (kern s') = M (kern s) \<or>
    (\<exists>fb. fibers s' g = Some fb \<and> activations s' g = Some At_entry \<and> ranges_held fb \<inter> M (kern s) = {} \<and>
      M (kern s') = M (kern s) \<union> ranges_held fb)"
proof (rule spawn_elim [OF sp])
  fix stk m k assume "k_mmap K 0 len prot_rw map_private_anonymous (- 1) 0 (mem s) (kern s) = (stk, m, k)" "libuc_syscall_failed stk"
    "g = 0" "s' = s\<lparr>mem := m, kern := k\<rparr>"
  then show ?thesis using mappings_okD(1) [OF K] by auto
next
  fix stk m k h s3 r
  assume mm: "k_mmap K 0 len prot_rw map_private_anonymous (- 1) 0 (mem s) (kern s) = (stk, m, k)" "\<not> libuc_syscall_failed stk"
    and cr: "libuc_thread_local_block_create K (a_place A) (s\<lparr>mem := m, kern := k, fibers := h\<rparr>) = Some (None, s3)"
    and u: "munmap_objects K stk len s3 = (r, s')" "g = 0"
  note M1 = mappings_okD(2) [OF K mm] and C = block_create_mappings [OF K _ cr, of l]
  have "M (kern s') = M (kern s3) - {(stk, len)}" using C M1 lay by (intro unmapping(2) [OF K u(1)]) simp
  then show ?thesis using C M1 lay u(2) by simp
next
  fix stk m k h s3 b fb
  assume mm: "k_mmap K 0 len prot_rw map_private_anonymous (- 1) 0 (mem s) (kern s) = (stk, m, k)" "\<not> libuc_syscall_failed stk"
    and cr: "libuc_thread_local_block_create K (a_place A) (s\<lparr>mem := m, kern := k, fibers := h\<rparr>) = Some (Some b, s3)"
    and s': "kern s' = kern s3" "activations s' g = Some At_entry"
      "fibers s' g = Some fb" "f_block fb = b" "f_stack fb = stk" "f_stack_length fb = len"
  show ?thesis
    using mappings_okD(2) [OF K mm] block_create_mappings [OF K _ cr, of l] lay s'
    by (intro disjI2 exI [of _ fb]) (auto simp: ranges_held_def)
qed simp

lemma accounted_spawned:
  assumes K: "mappings_ok M K" "mmap_ok (v_mapped V) K" "munmap_ok (v_mapped V) K" "fiber_arch A"
    and s: "separate (v_mapped V) s" "accounted M B s" and lay: "process_layout s = Some l" "layout_ok l"
    and sp: "libuc_fiber_spawn K A len ent arg s = ret (g, s')"
  shows "accounted M B s'"
proof -
  have same: "fibers s' f = fibers s f \<and> activations s' f = activations s f"
    if fr: "frame_on (v_mapped V (kern s)) s s'" and f: "f \<in> dom (activations s)" for f
  proof -
    obtain fb where fb: "fibers s f = Some fb" using separate_record [OF s(1) f] .
    then have "f \<in> v_mapped V (kern s)" using separate_fiber(5,6) [OF s(1) f fb] by blast
    then show ?thesis using fr by (simp add: frame_on_def)
  qed
  note M = spawn_mappings [OF K(1) lay(1) sp]
  show ?thesis
  proof (rule fiber_arch.spawn_cases [OF K(4,2,3) lay, of len ent arg])
    fix s1 assume S: "libuc_fiber_spawn K A len ent arg s = ret (0, s1)" "frame_on (v_mapped V (kern s)) s s1"
      "dom (activations s1) \<subseteq> dom (activations s)"
    then have e: "g = 0" "s1 = s'" using sp by auto
    have "0 \<notin> dom (activations s')" using S(3) separateD [OF s(1)] e by blast
    then have "M (kern s') = M (kern s)" using M e by auto
    moreover have dom: "dom (activations s') = dom (activations s)" using S same e by (auto simp: dom_def)
    then have "held s' = held s" using same S(2) e by (simp add: held_def)
    ultimately show ?thesis using s(2) by (simp add: accounted_def)
  next
    fix f s1 fb
    assume S: "libuc_fiber_spawn K A len ent arg s = ret (f, s1)" "frame_on (v_mapped V (kern s)) s s1"
      "activations s1 = (activations s)(f \<mapsto> At_entry)" "spawned_as A len ent arg (v_mapped V (kern s)) (v_mapped V (kern s1)) s1 f fb"
    then have e: "f = g" "s1 = s'" using sp by auto
    have fb: "fibers s' g = Some fb" "g \<noteq> 0" "g \<in> footprint fb" "footprint fb \<inter> v_mapped V (kern s) = {}"
      using S(4) fiber_wf_in_footprint(1) unfolding e spawned_as_def by (auto simp: fiber_wf_def)
    have dom: "dom (activations s') = insert g (dom (activations s))" using S(3) e by simp
    have old: "fibers s' h = fibers s h" if "h \<in> dom (activations s)" for h using same S(2) e that by blast
    have "held s' = held s \<union> ranges_held fb"
    proof (intro equalityI subsetI)
      fix x assume "x \<in> held s'"
      then obtain h hb where h: "h \<in> dom (activations s')" "fibers s' h = Some hb" "x \<in> ranges_held hb" unfolding in_held by blast
      then show "x \<in> held s \<union> ranges_held fb" using dom fb(1) old [of h] in_held [of x s] by (cases "h = g") auto
    next
      fix x assume "x \<in> held s \<union> ranges_held fb"
      then show "x \<in> held s'"
      proof
        assume "x \<in> held s"
        then obtain h hb where "h \<in> dom (activations s)" "fibers s h = Some hb" "x \<in> ranges_held hb" unfolding in_held by blast
        then show ?thesis using dom old [of h] ranges_in_held [of h s' hb] by auto
      qed (use ranges_in_held [of g s' fb] dom fb(1) in auto)
    qed
    moreover have "ranges_held fb \<inter> M (kern s) = {}" "M (kern s') = M (kern s) \<union> ranges_held fb" using M fb(1,2) by auto
    ultimately show ?thesis using s(2) unfolding accounted_def by blast
  qed
qed

section \<open>The reactor\<close>

lemma accounted_step:
  assumes K: "kernel_ok V K" "fiber_arch A" "mappings_ok M K" and inv: "sched_inv V A F {} rs ps s" "accounted M B s"
    and st: "memory_step V K A s s'"
  shows "accounted M B s'"
proof -
  have i: "fiber_inv V A F {} s" and KM: "mmap_ok (v_mapped V) K" "munmap_ok (v_mapped V) K"
    using inv(1) K(1) by (simp_all add: sched_inv_def kernel_ok_def)
  have sep: "separate (v_mapped V) s" by (rule separate_inv [OF i])
  obtain l where lay: "process_layout s = Some l" "layout_ok l" using fiber_invD(5) [OF i] by blast
  show ?thesis
    using st
  proof cases
    case keeps
    then show ?thesis using inv(2) accounted_kept [OF K(3)] by blast
  next
    case (makes s1 len ent arg g s2)
    have "process_layout s1 = Some l" using makes(1) lay(1) by (simp add: kept_def)
    then have "accounted M B s2"
      using accounted_spawned [OF K(3) KM K(2) separate_kept [OF makes(1) sep] _ _ lay(2) makes(2)]
        accounted_kept [OF K(3) makes(1)] inv(2) by blast
    then show ?thesis using accounted_kept [OF K(3) makes(3)] by blast
  next
    case (reclaims s1 t s2)
    have "accounted M B s2"
      using accounted_reclaimed [OF K(3) separate_kept [OF reclaims(1) sep] _ reclaims(2,3)]
        accounted_kept [OF K(3) reclaims(1)] inv(2) by blast
    then show ?thesis using accounted_kept [OF K(3) reclaims(4)] by blast
  qed
qed

lemma accounted_mem [simp]: "accounted M B (s\<lparr>mem := m\<rparr>) = accounted M B s"
  by (simp add: accounted_def held_def)

lemma reclaim_never_fails:
  assumes K: "mappings_ok M K" and s: "separate mapped s" "accounted M B s" and t: "t \<in> dom (activations s)"
  shows "\<not> reclaim_fails K (s\<lparr>mem := m\<rparr>) t"
proof -
  obtain tb where tb: "fibers s t = Some tb" using separate_record [OF s(1) t] .
  have m: "ranges_held tb \<subseteq> M (kern s)" using ranges_in_held [OF t tb] s(2) by (simp add: accounted_def le_supI2)
  obtain r1 m1 k1 where u1: "k_munmap K (mapping (f_block tb)) (mapping_length (f_block tb)) m (kern s) = (r1, m1, k1)"
    by (metis prod_cases3)
  obtain r2 m2 k2 where u2: "k_munmap K (f_stack tb) (f_stack_length tb) m1 k1 = (r2, m2, k2)" by (metis prod_cases3)
  have "\<not> libuc_syscall_failed r1 \<and> M k1 = M (kern s) - {(mapping (f_block tb), mapping_length (f_block tb))}"
    using mappings_okD(3) [OF K u1] m by (simp add: ranges_held_def)
  moreover from this have "\<not> libuc_syscall_failed r2"
    using mappings_okD(3) [OF K u2] m ranges_apart(1) [OF s(1) t tb] by (simp add: ranges_held_def)
  ultimately show ?thesis by (simp add: reclaim_fails_def tb holdings_def u1 u2)
qed

section \<open>Startup\<close>

definition ring_ranges :: "ring \<Rightarrow> (u64 \<times> u64) set" where
  "ring_ranges r = {(ring_mapping r, ring_mapping_length r), (sqes_ptr r, sqes_mapping_length r)}"

lemma ring_create_elim:
  assumes "libuc_ring_create K entries s = (Some r, s')"
  obtains d p k1 m2 k2 where "k_setup K entries setup_flags (kern s) = (d, p, k1)"
    "k_mmap K 0 (ring_mapping_length r) prot_rw map_shared_populate (ucast d) IORING_OFF_SQ_RING (mem s) k1 = (ring_mapping r, m2, k2)"
    "\<not> libuc_syscall_failed (ring_mapping r)"
    "k_mmap K 0 (sqes_mapping_length r) prot_rw map_shared_populate (ucast d) IORING_OFF_SQES m2 k2 = (sqes_ptr r, mem s', kern s')"
    "\<not> libuc_syscall_failed (sqes_ptr r)"
  using assms by (auto simp: libuc_ring_create_def mmap_ring_def Let_def ring_at_def split: prod.splits if_splits option.splits)

lemma ring_create_mappings:
  assumes K: "mappings_ok M K" and c: "libuc_ring_create K entries s = (Some r, s')"
  shows "ring_ranges r \<inter> M (kern s) = {} \<and> M (kern s') = M (kern s) \<union> ring_ranges r"
proof (rule ring_create_elim [OF c])
  fix d p k1 m2 k2 assume k: "k_setup K entries setup_flags (kern s) = (d, p, k1)"
    "k_mmap K 0 (ring_mapping_length r) prot_rw map_shared_populate (ucast d) IORING_OFF_SQ_RING (mem s) k1 = (ring_mapping r, m2, k2)"
    "\<not> libuc_syscall_failed (ring_mapping r)"
    "k_mmap K 0 (sqes_mapping_length r) prot_rw map_shared_populate (ucast d) IORING_OFF_SQES m2 k2 = (sqes_ptr r, mem s', kern s')"
    "\<not> libuc_syscall_failed (sqes_ptr r)"
  show ?thesis
    using mappings_okD(4) [OF K k(1)] mappings_okD(2) [OF K k(2,3)] mappings_okD(2) [OF K k(4,5)] by (auto simp: ring_ranges_def)
qed

text \<open>What a start that succeeds does: it decodes the layout, makes the ring, and spawns and queues the root fiber.\<close>

lemma start_root_elim:
  assumes s: "pristine V s" and st: "start_root K A entry arguments sp s = ret (root, s1)" "root \<noteq> 0"
  obtains l z r s2 s3 where "layout_ok l" "kern z = kern s" "mem z = mem s"
    "libuc_ring_create K scheduler_ring_entries z = (Some r, s2)" "process_layout s2 = Some l" "activations s2 = Map.empty"
    "libuc_fiber_spawn K A root_stack_length entry arguments (s2\<lparr>sring := r\<rparr>) = ret (root, s3)"
    "libuc_scheduler_enqueue root s3 = Done s1"
proof -
  obtain e l s0 s2 s3 where b: "libuc_thread_local_layout (libuc_auxv_init e s) = Some (Some l, s0)"
    "libuc_scheduler_become K s0 = (True, s2)" "libuc_fiber_spawn K A root_stack_length entry arguments s2 = ret (root, s3)"
    "libuc_scheduler_enqueue root s3 = Done s1"
    using st by (auto simp: start_root_def Let_def outcome_simps split: if_splits option.splits prod.splits bool.splits)
  have l: "layout_ok l" "s0 = (libuc_auxv_init e s)\<lparr>process_layout := Some l\<rparr>"
    using thread_local_layout_ok [OF b(1)] s by (auto simp: pristine_def libuc_auxv_init_def)
  let ?z = "s0\<lparr>sring := zero_ring, ready_head := 0, ready_tail := 0, ready_count := 0, parked_count := 0, joining_count := 0\<rparr>"
  obtain r s2' where c: "libuc_ring_create K scheduler_ring_entries ?z = (Some r, s2')" "s2 = s2'\<lparr>sring := r\<rparr>"
    using b(2) by (auto simp: libuc_scheduler_become_def Let_def split: prod.splits option.splits)
  note fr = ring_create_frame [OF c(1)]
  have "kern ?z = kern s" "mem ?z = mem s" by (simp_all add: l(2) libuc_auxv_init_def)
  moreover have "activations s2' = activations ?z" by (rule machine_more_eqD(3) [OF fr(1)])
  then have "activations s2' = Map.empty" using s by (simp add: l(2) libuc_auxv_init_def pristine_def)
  moreover have "process_layout s2' = Some l" using fr(2) by (simp add: l(2))
  ultimately show ?thesis using that [OF l(1) _ _ c(1)] b(3,4) c(2) by simp
qed

lemma boot_accounted:
  assumes K: "boot_ok V K" "fiber_arch A" "mappings_ok M K" and s: "pristine V s"
    and st: "start_root K A entry arguments sp s = ret (root, s1)" "root \<noteq> 0"
  shows "accounted M (M (kern s) \<union> ring_ranges (sring s1)) s1 \<and> ring_ranges (sring s1) \<inter> M (kern s) = {}"
proof (rule start_root_elim [OF s st])
  fix l z r s2 s3 assume l: "layout_ok l" and z: "kern z = kern s"
    and c: "libuc_ring_create K scheduler_ring_entries z = (Some r, s2)" "process_layout s2 = Some l" "activations s2 = Map.empty"
    and b: "libuc_fiber_spawn K A root_stack_length entry arguments (s2\<lparr>sring := r\<rparr>) = ret (root, s3)" "libuc_scheduler_enqueue root s3 = Done s1"
  note C = ring_create_mappings [OF K(3) c(1)]
  let ?s2 = "s2\<lparr>sring := r\<rparr>"
  have acc: "accounted M (M (kern s) \<union> ring_ranges r) ?s2" and sep: "separate (v_mapped V) ?s2"
    using C c(3) by (simp_all add: accounted_def held_def separate_def z)
  have p2: "process_layout ?s2 = Some l" using c(2) by simp
  have KM: "mmap_ok (v_mapped V) K" "munmap_ok (v_mapped V) K" using K(1) by (simp_all add: boot_ok_def kernel_ok_def)
  have "accounted M (M (kern s) \<union> ring_ranges r) s3" by (rule accounted_spawned [OF K(3) KM K(2) sep acc p2 l b(1)])
  then have "accounted M (M (kern s) \<union> ring_ranges r) s1"
    using accounted_kept [OF K(3) kept_enqueue [OF b(2)]] by blast
  moreover have "sring s1 = r"
  proof -
    have more: "fiber_machine.more s3 = fiber_machine.more ?s2"
      using fiber_arch.spawn_cases [OF K(2) KM p2 l, of root_stack_length entry arguments] b(1)
      by (auto simp: frame_on_def)
    have "sring s3 = r" using system_more_eqD(1) [OF more] by simp
    then show ?thesis using relinked_same(6) [OF enqueue_relinked [OF b(2)]] by simp
  qed
  ultimately show ?thesis using C by (simp add: z)
qed

end
