(* ===== verification/Uc_Thread_Variables.thy ===== *)
theory Uc_Thread_Variables
  imports Uc_Mappings Uc_Errno
begin

text \<open>
  Thread-local objects at work. Compiled code finds a thread-local object of the running fiber at a fixed
  offset from where the ABI places the block, computed from the thread pointer, and \<open>errno\<close>
  (\<open>errno/errno.c\<close>) is such an object. Every fiber's block is where that computation looks for it, in
  memory of its own, so that a fiber's objects start as the executable's image has them and are
  changed by nobody but the code that runs.
\<close>

section \<open>Words in memory\<close>

definition store32 :: "mem \<Rightarrow> u64 \<Rightarrow> u32 \<Rightarrow> mem" where
  "store32 m a v = (\<lambda>x. if x - a < 4 then ucast (drop_bit (8 * unat (x - a)) v) else m x)"

lemma store32_outside: "x \<notin> region a 4 \<Longrightarrow> store32 m a v x = m x"
  by (simp add: store32_def region_simps)

lemma bytes_of_word:
  fixes x :: int
  assumes "0 \<le> x" "x < 4294967296"
  shows "x mod 256 + 256 * (x div 256 mod 256 + 256 * (x div 256 div 256 mod 256 + 256 * (x div 256 div 256 div 256 mod 256))) = x"
proof -
  have "x div 256 < 16777216" "0 \<le> x div 256" using assms by linarith+
  then have "x div 256 div 256 < 65536" "0 \<le> x div 256 div 256" by linarith+
  then have "x div 256 div 256 div 256 < 256" "0 \<le> x div 256 div 256 div 256" by linarith+
  then have "x div 256 div 256 div 256 mod 256 = x div 256 div 256 div 256" by (intro mod_pos_pos_trivial)
  then show ?thesis by (simp only: mod_mult_div_eq)
qed

lemma uint_byte: "uint (ucast (drop_bit n (v :: u32)) :: u8) = uint v div 2 ^ n mod 256"
proof -
  have "take_bit 32 (uint v) = uint v" using uint_lt2p [of v] by (simp add: take_bit_int_eq_self)
  then have "uint (drop_bit n v) = drop_bit n (uint v)" by (simp only: unsigned_drop_bit_eq) simp
  then show ?thesis by (simp only: unsigned_ucast_eq take_bit_eq_mod drop_bit_eq_div) simp
qed

lemma load32_bytes:
  "load32 m a = word_of_int (uint (m a) + 256 * (uint (m (a + 1)) + 256 * (uint (m (a + 2)) + 256 * uint (m (a + 3)))))"
proof -
  have "bytes m a 4 = [m a, m (a + 1), m (a + 2), m (a + 3)]" by (simp add: bytes_def upt_rec)
  then show ?thesis by (simp add: load32_def word_rcat_def)
qed

lemma load32_store32: "load32 (store32 m a v) a = v"
proof -
  have b: "store32 m a v a = ucast (drop_bit 0 v)" "store32 m a v (a + 1) = ucast (drop_bit 8 v)"
    "store32 m a v (a + 2) = ucast (drop_bit 16 v)" "store32 m a v (a + 3) = ucast (drop_bit 24 v)"
    by (simp_all add: store32_def)
  have d: "x div 2 ^ 0 = x" "x div 2 ^ 8 = x div 256" "x div 2 ^ 16 = x div 256 div 256" "x div 2 ^ 24 = x div 256 div 256 div 256"
    for x :: int
    by (simp_all flip: zdiv_zmult2_eq)
  have "0 \<le> uint v" "uint v < 4294967296" using uint_lt2p [of v] by simp_all
  from bytes_of_word [OF this] show ?thesis by (simp only: load32_bytes b uint_byte d word_of_int_uint)
qed

lemma load32_cong: "(\<And>i. i < 4 \<Longrightarrow> m (a + of_nat i) = m' (a + of_nat i)) \<Longrightarrow> load32 m a = load32 m' a"
  unfolding load32_def using bytes_cong [of 4 m a m' a] by simp

lemma load32_zero: "(\<And>i. i < 4 \<Longrightarrow> m (a + of_nat i) = 0) \<Longrightarrow> load32 m a = 0"
proof -
  assume "\<And>i. i < 4 \<Longrightarrow> m (a + of_nat i) = 0"
  from this [of 0] this [of 1] this [of 2] this [of 3] have "bytes m a 4 = [0, 0, 0, 0]" by (simp add: bytes_def upt_rec)
  then show ?thesis by (simp add: load32_def word_rcat_def)
qed

section \<open>errno\<close>

text \<open>
  \<open>_Thread_local int errno\<close>: the linker gives it an offset in the thread-local image. An object
  without an initialiser is in the part of the block the image does not fill.
\<close>

definition errno_placed :: "u64 \<Rightarrow> tl_layout \<Rightarrow> bool" where
  "errno_placed off l \<longleftrightarrow> unat off + 4 \<le> unat (block_size l) \<and> image_size l \<le> off"

definition errno_address :: "(u64 \<Rightarrow> u64 \<Rightarrow> u64 \<Rightarrow> u64) \<Rightarrow> u64 \<Rightarrow> tl_layout \<Rightarrow> u64 \<Rightarrow> u64" where
  "errno_address base off l tpointer = base (block_size l) (alignment l) tpointer + off"

definition errno_store :: "(u64 \<Rightarrow> u64 \<Rightarrow> u64 \<Rightarrow> u64) \<Rightarrow> u64 \<Rightarrow> tl_layout \<Rightarrow> i32 \<Rightarrow> ('k, 'z) machine_scheme \<Rightarrow> ('k, 'z) machine_scheme" where
  "errno_store base off l v s = s\<lparr>mem := store32 (mem s) (errno_address base off l (thread_local_read s)) v\<rparr>"

text \<open>\<open>__libuc_errno_result\<close> with \<open>errno\<close> in memory.\<close>

definition errno_result_object ::
    "(u64 \<Rightarrow> u64 \<Rightarrow> u64 \<Rightarrow> u64) \<Rightarrow> u64 \<Rightarrow> tl_layout \<Rightarrow> i64 \<Rightarrow> ('k, 'z) machine_scheme \<Rightarrow> i64 \<times> ('k, 'z) machine_scheme" where
  "errno_result_object base off l res s =
     (if sint res < 0 then (- 1, errno_store base off l (ucast (- res)) s) else (res, s))"

text \<open>The fiber \<open>f\<close>'s thread-local block as compiled code finds it, and its \<open>errno\<close>.\<close>

definition tls_of :: "(u64 \<Rightarrow> u64 \<Rightarrow> u64 \<Rightarrow> u64) \<Rightarrow> tl_layout \<Rightarrow> ('k, 'c, 'w) system \<Rightarrow> u64 \<Rightarrow> u64" where
  "tls_of base l s f = base (block_size l) (alignment l) (thread_pointer (f_block (the (fibers s f))))"

definition errno_of :: "(u64 \<Rightarrow> u64 \<Rightarrow> u64 \<Rightarrow> u64) \<Rightarrow> u64 \<Rightarrow> tl_layout \<Rightarrow> ('k, 'c, 'w) system \<Rightarrow> u64 \<Rightarrow> i32" where
  "errno_of base off l s f = load32 (mem s) (errno_address base off l (thread_pointer (f_block (the (fibers s f)))))"

lemma errno_of_tls: "errno_of base off l s f = load32 (mem s) (tls_of base l s f + off)"
  by (simp add: errno_of_def errno_address_def tls_of_def)

lemma errno_bytes:
  assumes "errno_placed off l" "i < 4"
  shows "off + of_nat i < block_size l" "\<not> off + of_nat i < image_size l"
proof -
  have o: "unat off + 4 \<le> unat (block_size l)" "unat (image_size l) \<le> unat off" using assms(1) by (simp_all add: errno_placed_def word_le_nat_alt)
  have "unat (block_size l) < 2 ^ 64" by simp
  then have "unat off + i < 2 ^ 64" using o(1) assms(2) by linarith
  moreover have "unat (of_nat i :: u64) = i" using assms(2) by (simp add: unat_of_nat)
  ultimately have "unat (off + of_nat i) = unat off + i" by (simp add: unat_word_ariths)
  then show "off + of_nat i < block_size l" "\<not> off + of_nat i < image_size l" using o assms(2) by (simp_all add: word_less_nat_alt)
qed

lemma errno_region:
  assumes "errno_placed off l"
  shows "region (b + off) 4 \<subseteq> region b (block_size l)"
  using assms by (intro region_offset_subset) (simp add: errno_placed_def)

section \<open>Blocks\<close>

text \<open>
  Every fiber's block is in its mapping, where compiled code finds it from the fiber's thread
  pointer, and the image new blocks are copied from is mapped and no fiber's.
\<close>

definition block_placed :: "(u64 \<Rightarrow> u64 \<Rightarrow> u64 \<Rightarrow> u64) \<Rightarrow> tl_layout \<Rightarrow> 'c fiber \<Rightarrow> bool" where
  "block_placed base l fb \<longleftrightarrow> region (tls_block (f_block fb)) (block_size l) \<subseteq> block_range fb \<and>
     tls_block (f_block fb) = base (block_size l) (alignment l) (thread_pointer (f_block fb)) \<and>
     footprint fb \<inter> region (tls_image l) (image_size l) = {}"

definition blocks_placed :: "'k kernel_view \<Rightarrow> (u64 \<Rightarrow> u64 \<Rightarrow> u64 \<Rightarrow> u64) \<Rightarrow> tl_layout \<Rightarrow> ('k, 'c, 'w) system \<Rightarrow> bool" where
  "blocks_placed V base l s \<longleftrightarrow> process_layout s = Some l \<and> layout_ok l \<and>
     region (tls_image l) (image_size l) \<subseteq> v_mapped V (kern s) \<and>
     (\<forall>f \<in> dom (activations s). \<forall>fb. fibers s f = Some fb \<longrightarrow> block_placed base l fb)"

lemma blocks_placedD:
  assumes "blocks_placed V base l s"
  shows "process_layout s = Some l" "layout_ok l" "region (tls_image l) (image_size l) \<subseteq> v_mapped V (kern s)"
    "f \<in> dom (activations s) \<Longrightarrow> fibers s f = Some fb \<Longrightarrow> block_placed base l fb"
  using assms unfolding blocks_placed_def by blast+

lemma blocks_placedI:
  assumes "process_layout s = Some l" "layout_ok l" "region (tls_image l) (image_size l) \<subseteq> v_mapped V (kern s)"
    "\<And>f fb. f \<in> dom (activations s) \<Longrightarrow> fibers s f = Some fb \<Longrightarrow> block_placed base l fb"
  shows "blocks_placed V base l s"
  using assms unfolding blocks_placed_def by blast

lemma block_placed_holdings: "holdings fb = holdings gb \<Longrightarrow> block_placed base l fb = block_placed base l gb"
  unfolding block_placed_def using holdings_eqD [of fb gb] by simp

lemma tls_of_placed: "block_placed base l fb \<Longrightarrow> fibers s f = Some fb \<Longrightarrow> tls_of base l s f = tls_block (f_block fb)"
  by (simp add: block_placed_def tls_of_def)

lemma block_in_footprint:
  assumes "block_placed base l fb" "fibers s f = Some fb"
  shows "region (tls_of base l s f) (block_size l) \<subseteq> footprint fb"
  unfolding tls_of_placed [OF assms] footprint_def using assms(1) unfolding block_placed_def by blast

lemma in_block_footprint:
  assumes "block_placed base l fb" "fibers s f = Some fb" "i < block_size l"
  shows "tls_of base l s f + i \<in> footprint fb"
  using block_in_footprint [OF assms(1,2)] assms(3) by (auto simp: region_simps)

text \<open>What a step does to thread-local objects: the image does not change, old blocks keep their contents, new ones hold the image and zeros.\<close>

definition thread_locals_step :: "(u64 \<Rightarrow> u64 \<Rightarrow> u64 \<Rightarrow> u64) \<Rightarrow> tl_layout \<Rightarrow> ('k, 'c, 'w) system \<Rightarrow> ('k, 'c, 'w) system \<Rightarrow> bool" where
  "thread_locals_step base l s s' \<longleftrightarrow> (\<forall>a \<in> region (tls_image l) (image_size l). mem s' a = mem s a) \<and>
     (\<forall>f \<in> dom (activations s'). \<forall>i < block_size l. mem s' (tls_of base l s' f + i) =
       (if f \<in> dom (activations s) then mem s (tls_of base l s f + i)
        else if i < image_size l then mem s (tls_image l + i) else 0))"

lemma thread_locals_errno:
  assumes st: "thread_locals_step base l s s'" and e: "errno_placed off l" and f: "f \<in> dom (activations s')"
  shows "errno_of base off l s' f = (if f \<in> dom (activations s) then errno_of base off l s f else 0)"
proof -
  have i: "mem s' (tls_of base l s' f + off + of_nat i) =
      (if f \<in> dom (activations s) then mem s (tls_of base l s f + off + of_nat i) else 0)" if "i < 4" for i
  proof -
    note b = errno_bytes [OF e that]
    have "mem s' (tls_of base l s' f + (off + of_nat i)) = (if f \<in> dom (activations s) then mem s (tls_of base l s f + (off + of_nat i)) else 0)"
      using st f b unfolding thread_locals_step_def by simp
    then show ?thesis by (simp only: add.assoc)
  qed
  show ?thesis
  proof (cases "f \<in> dom (activations s)")
    case True
    have "bytes (mem s') (tls_of base l s' f + off) 4 = bytes (mem s) (tls_of base l s f + off) 4"
      using i True by (intro bytes_cong) simp
    then show ?thesis using True by (simp add: errno_of_tls load32_def)
  next
    case False
    then show ?thesis using i by (simp add: errno_of_tls load32_zero)
  qed
qed

lemma kept_record:
  assumes "kept V K s s'" "fibers s' f = Some fb'"
  obtains fb where "fibers s f = Some fb" "holdings fb' = holdings fb"
proof -
  have "map_option holdings (fibers s' f) = map_option holdings (fibers s f)" using assms(1) by (simp add: kept_def)
  then show ?thesis using that assms(2) by (cases "fibers s f") auto
qed

lemma kept_tls_of:
  assumes "kept V K s s'"
  shows "tls_of base l s' f = tls_of base l s f"
proof (cases "fibers s' f")
  case None
  have "map_option holdings (fibers s' f) = map_option holdings (fibers s f)" using assms by (simp add: kept_def)
  then show ?thesis using None by (simp add: tls_of_def)
next
  case (Some fb')
  obtain fb where "fibers s f = Some fb" "holdings fb' = holdings fb" by (rule kept_record [OF assms Some])
  then show ?thesis using Some holdings_eqD(1) [of fb' fb] by (simp add: tls_of_def)
qed

lemma blocks_placed_kept:
  assumes k: "kept V K s s'" and s: "blocks_placed V base l s"
  shows "blocks_placed V base l s'"
proof -
  note B = blocks_placedD [OF s]
  have d: "dom (activations s') = dom (activations s)" "v_mapped V (kern s') = v_mapped V (kern s)"
    "process_layout s' = process_layout s" using k by (simp_all add: kept_def)
  show ?thesis
  proof (rule blocks_placedI, unfold d)
    show "block_placed base l fb'" if f: "f \<in> dom (activations s)" "fibers s' f = Some fb'" for f fb'
    proof -
      obtain fb where "fibers s f = Some fb" "holdings fb' = holdings fb" by (rule kept_record [OF k f(2)])
      then show ?thesis using B(4) [OF f(1)] block_placed_holdings by blast
    qed
  qed (fact B(1-3))+
qed

lemma thread_locals_kept:
  assumes "kept V K s1 s2"
  shows "thread_locals_step base l s1 s = thread_locals_step base l s2 s"
    "thread_locals_step base l s s1 = thread_locals_step base l s s2"
proof -
  have d: "dom (activations s2) = dom (activations s1)" "mem s2 = mem s1" using assms by (simp_all add: kept_def)
  show "thread_locals_step base l s1 s = thread_locals_step base l s2 s"
    "thread_locals_step base l s s1 = thread_locals_step base l s s2"
    unfolding thread_locals_step_def d kept_tls_of [OF assms] by (rule refl)+
qed

lemma thread_locals_refl: "thread_locals_step base l s s"
  by (simp add: thread_locals_step_def)

text \<open>Reclaiming a fiber changes nothing outside its memory.\<close>

lemma munmap_objects_memory:
  assumes K: "munmap_ok mapped K" and u: "munmap_objects K p n s = (r, s')"
  shows "a \<notin> region p n \<Longrightarrow> mem s' a = mem s a" "process_layout s' = process_layout s"
    "\<not> libuc_syscall_failed r \<Longrightarrow> mapped (kern s') = mapped (kern s) - region p n"
    "\<not> libuc_syscall_failed r \<Longrightarrow> fibers s' = fibers s |` (- region p n)"
    "\<not> libuc_syscall_failed r \<Longrightarrow> activations s' = activations s |` (- region p n)"
proof -
  obtain m k where mu: "k_munmap K p n (mem s) (kern s) = (r, m, k)"
    using u by (auto simp: munmap_objects_def munmap_range_def split: prod.splits)
  have s': "s' = (if libuc_syscall_failed r then s\<lparr>mem := m, kern := k, tcbs := tcbs s\<rparr>
      else forget_range p n (s\<lparr>mem := m, kern := k, tcbs := tcbs s |` (- region p n)\<rparr>))"
    using u by (simp add: munmap_objects_def munmap_range_def mu split: if_splits)
  show "a \<notin> region p n \<Longrightarrow> mem s' a = mem s a" "process_layout s' = process_layout s"
    "\<not> libuc_syscall_failed r \<Longrightarrow> mapped (kern s') = mapped (kern s) - region p n"
    "\<not> libuc_syscall_failed r \<Longrightarrow> fibers s' = fibers s |` (- region p n)"
    "\<not> libuc_syscall_failed r \<Longrightarrow> activations s' = activations s |` (- region p n)"
    using s' munmap_okD(3,4) [OF K mu] by (simp_all add: forget_range_def)
qed

lemma destroy_memory:
  assumes K: "munmap_ok mapped K" and d: "destroy_or_trap K t s = Done s'" and t: "fibers s t = Some tb" "t \<notin> block_range tb"
  shows "mapped (kern s') = mapped (kern s) - footprint tb" "process_layout s' = process_layout s"
    "a \<notin> footprint tb \<Longrightarrow> mem s' a = mem s a" "fibers s' = fibers s |` (- footprint tb)" "activations s' = activations s |` (- footprint tb)"
proof -
  obtain r1 s1 where u1: "munmap_objects K (mapping (f_block tb)) (mapping_length (f_block tb)) s = (r1, s1)" by fastforce
  obtain tb1 where f1: "fibers s1 t = Some tb1"
    using d t(1) u1 by (auto simp: destroy_or_trap_def libuc_fiber_destroy_def block_destroy_objects_eq outcome_simps)
  obtain r2 s2 where u2: "munmap_objects K (f_stack tb1) (f_stack_length tb1) s1 = (r2, s2)" by fastforce
  have ok: "\<not> libuc_syscall_failed r1" "\<not> libuc_syscall_failed r2" "s' = s2"
    using d t(1) u1 f1 u2
    by (auto simp: destroy_or_trap_def libuc_fiber_destroy_def block_destroy_objects_eq outcome_simps split: if_splits)
  note U1 = munmap_objects_memory [OF K u1]
  have "fibers s1 t = Some tb" using U1(4) ok(1) t by (simp add: block_range_def)
  then have e: "tb1 = tb" using f1 by simp
  note U2 = munmap_objects_memory [OF K u2 [unfolded e]]
  have fp: "footprint tb = region (mapping (f_block tb)) (mapping_length (f_block tb)) \<union> region (f_stack tb) (f_stack_length tb)"
    by (auto simp: footprint_def stack_range_def block_range_def)
  show "mapped (kern s') = mapped (kern s) - footprint tb" "process_layout s' = process_layout s"
    "a \<notin> footprint tb \<Longrightarrow> mem s' a = mem s a" "fibers s' = fibers s |` (- footprint tb)" "activations s' = activations s |` (- footprint tb)"
    using U1 U2 ok(1,2) unfolding ok(3) fp by (auto simp: Int_commute)
qed

lemma blocks_placed_reclaimed:
  assumes K: "munmap_ok (v_mapped V) K" and s: "separate (v_mapped V) s" "blocks_placed V base l s"
    and t: "t \<in> dom (activations s)" and d: "destroy_or_trap K t s = Done s'"
  shows "blocks_placed V base l s'" "thread_locals_step base l s s'"
proof -
  obtain tb where tb: "fibers s t = Some tb" using separate_record [OF s(1) t] .
  note T = separate_fiber [OF s(1) t tb] and B = blocks_placedD [OF s(2)]
  have "t \<notin> block_range tb" using T(2,4) by blast
  note D = destroy_memory [OF K d tb this]
  have dom: "dom (activations s') = dom (activations s) - footprint tb" using D(5) by auto
  have old: "f \<in> dom (activations s)" "f \<noteq> t" "fibers s' f = fibers s f" if "f \<in> dom (activations s')" for f
    using that D(4) dom T(6) by auto
  show "blocks_placed V base l s'"
  proof (rule blocks_placedI)
    show "region (tls_image l) (image_size l) \<subseteq> v_mapped V (kern s')"
      using B(3) B(4) [OF t tb] D(1) by (auto simp: block_placed_def)
    show "block_placed base l fb" if "f \<in> dom (activations s')" "fibers s' f = Some fb" for f fb
      using old [OF that(1)] that(2) B(4) by simp
  qed (use B D(2) in simp_all)
  have "\<forall>a \<in> region (tls_image l) (image_size l). mem s' a = mem s a"
    using B(4) [OF t tb] D(3) by (auto simp: block_placed_def)
  then show "thread_locals_step base l s s'"
    unfolding thread_locals_step_def
  proof (intro conjI ballI allI impI)
    fix f i assume f: "f \<in> dom (activations s')" and i: "i < block_size l"
    note o = old [OF f]
    obtain fb where fb: "fibers s f = Some fb" using separate_record [OF s(1) o(1)] .
    have tls: "tls_of base l s' f = tls_of base l s f" using o(3) by (simp add: tls_of_def)
    have "tls_of base l s f + i \<in> footprint fb" by (rule in_block_footprint [OF B(4) [OF o(1) fb] fb i])
    then have "tls_of base l s f + i \<notin> footprint tb" using separate_apart [OF s(1) o(1) t o(2) fb tb] by blast
    then show "mem s' (tls_of base l s' f + i) = (if f \<in> dom (activations s) then mem s (tls_of base l s f + i)
        else if i < image_size l then mem s (tls_image l + i) else 0)"
      using D(3) o(1) tls by simp
  qed blast
qed

text \<open>Spawning a fiber changes no memory that was mapped, and gives it a block of its own with the image in it.\<close>

lemma spawn_thread_locals:
  assumes K: "mmap_ok mapped K" "munmap_ok mapped K" "tls_access (a_place A) base"
    and lay: "process_layout s = Some l" "layout_ok l" "region (tls_image l) (image_size l) \<subseteq> mapped (kern s)"
    and sp: "libuc_fiber_spawn K A len ent arg s = ret (g, s')"
  shows "process_layout s' = Some l \<and> (\<forall>a \<in> mapped (kern s). mem s' a = mem s a) \<and>
    (g \<noteq> 0 \<longrightarrow> (\<forall>fb. fibers s' g = Some fb \<longrightarrow> region (tls_block (f_block fb)) (block_size l) \<subseteq> block_range fb \<and>
       tls_block (f_block fb) = base (block_size l) (alignment l) (thread_pointer (f_block fb)) \<and>
       (\<forall>i < block_size l. mem s' (tls_block (f_block fb) + i) = (if i < image_size l then mem s (tls_image l + i) else 0))))"
proof (rule spawn_elim [OF sp])
  fix stk m k assume "k_mmap K 0 len prot_rw map_private_anonymous (- 1) 0 (mem s) (kern s) = (stk, m, k)" "libuc_syscall_failed stk"
    "g = 0" "s' = s\<lparr>mem := m, kern := k\<rparr>"
  then show ?thesis using mmap_ok_failD(1) [OF K(1)] lay(1) by simp blast
next
  fix stk m k h s3 r
  assume mm: "k_mmap K 0 len prot_rw map_private_anonymous (- 1) 0 (mem s) (kern s) = (stk, m, k)" "\<not> libuc_syscall_failed stk"
    and cr: "libuc_thread_local_block_create K (a_place A) (s\<lparr>mem := m, kern := k, fibers := h\<rparr>) = Some (None, s3)"
    and u: "munmap_objects K stk len s3 = (r, s')" "g = 0"
  note M = mmap_okD [OF K(1) mm] and C = tls_abi.create_failed [OF tls_access.axioms(1) [OF K(3)] K(1,2) _ cr, of l]
    and U = munmap_objects_memory [OF K(2) u(1)]
  have "mem s' a = mem s a" if "a \<in> mapped (kern s)" for a
  proof -
    have "a \<notin> region stk len" "a \<in> mapped k" using that M(4,5) by blast+
    then show ?thesis using U(1) [of a] C(7) [of a] M(6) lay(1) by simp
  qed
  then show ?thesis using U(2) C(2) lay(1) u(2) by simp
next
  fix stk m k h s3 b fb
  assume mm: "k_mmap K 0 len prot_rw map_private_anonymous (- 1) 0 (mem s) (kern s) = (stk, m, k)" "\<not> libuc_syscall_failed stk"
    and cr: "libuc_thread_local_block_create K (a_place A) (s\<lparr>mem := m, kern := k, fibers := h\<rparr>) = Some (Some b, s3)"
    and s': "mem s' = mem s3" "process_layout s' = process_layout s3" "fibers s' g = Some fb" "f_block fb = b"
  note M = mmap_okD [OF K(1) mm]
  have im: "region (tls_image l) (image_size l) \<subseteq> mapped k" using lay(3) M(5) by blast
  have pl: "process_layout s3 = Some l" using create_layout [OF _ cr] lay(1) by simp
  have C: "block_geometry l b" "region (mapping b) (mapping_length b) \<inter> mapped k = {}" "block_contents l b m (mem s3)"
    by (rule tls_abi.create_ok [OF tls_access.axioms(1) [OF K(3)] K(1) _ cr]; use lay im pl in simp)+
  have old: "m a = mem s a" if "a \<in> mapped (kern s)" for a using that M(4,6) by auto
  have "mem s3 a = mem s a" if "a \<in> mapped (kern s)" for a
    using that C(2,3) M(5) old by (auto simp: block_contents_def)
  moreover have "mem s3 (tls_block b + i) = (if i < image_size l then mem s (tls_image l + i) else 0)" if "i < block_size l" for i
  proof -
    have "i < image_size l \<Longrightarrow> tls_image l + i \<in> mapped (kern s)" using lay(3) by (auto simp: region_simps)
    then show ?thesis using that C(3) old by (auto simp: block_contents_def not_less)
  qed
  moreover have "tls_block b = base (block_size l) (alignment l) (thread_pointer b)"
    using tls_access.create_placed [OF K(3) cr] lay(1) by simp
  ultimately show ?thesis using C(1) pl s' by (simp add: block_geometry_def block_range_def)
qed (use lay(1) in simp)

lemma blocks_placed_spawned:
  assumes K: "mmap_ok (v_mapped V) K" "munmap_ok (v_mapped V) K" "tls_access (a_place A) base" "fiber_arch A"
    and s: "separate (v_mapped V) s" "blocks_placed V base l s" and sp: "libuc_fiber_spawn K A len ent arg s = ret (g, s')"
  shows "blocks_placed V base l s' \<and> thread_locals_step base l s s'"
proof -
  note B = blocks_placedD [OF s(2)]
  note S = spawn_thread_locals [OF K(1-3) B(1-3) sp]
  have same: "fibers s' f = fibers s f" if fr: "frame_on (v_mapped V (kern s)) s s'" and f: "f \<in> dom (activations s)" for f
  proof -
    obtain fb where fb: "fibers s f = Some fb" using separate_record [OF s(1) f] .
    then have "f \<in> v_mapped V (kern s)" using separate_fiber(5,6) [OF s(1) f fb] by blast
    then show ?thesis using fr by (simp add: frame_on_def)
  qed
  have old: "mem s' (tls_of base l s' f + i) = mem s (tls_of base l s f + i)"
    if fr: "frame_on (v_mapped V (kern s)) s s'" and f: "f \<in> dom (activations s)" and i: "i < block_size l" for f i
  proof -
    obtain fb where fb: "fibers s f = Some fb" using separate_record [OF s(1) f] .
    have "tls_of base l s f + i \<in> footprint fb" by (rule in_block_footprint [OF B(4) [OF f fb] fb i])
    then have "tls_of base l s f + i \<in> v_mapped V (kern s)" using separate_fiber(5) [OF s(1) f fb] by blast
    then show ?thesis using S same [OF fr f] by (simp add: tls_of_def)
  qed
  have image: "\<forall>a \<in> region (tls_image l) (image_size l). mem s' a = mem s a" using S B(3) by blast
  show ?thesis
  proof (rule fiber_arch.spawn_cases [OF K(4,1,2) B(1,2), of len ent arg])
    fix s1 assume X: "libuc_fiber_spawn K A len ent arg s = ret (0, s1)" "frame_on (v_mapped V (kern s)) s s1"
      "v_mapped V (kern s) \<subseteq> v_mapped V (kern s1)" "dom (activations s1) \<subseteq> dom (activations s)"
    then have e: "s1 = s'" using sp by auto
    note X = X(2-4) [unfolded e]
    have "blocks_placed V base l s'"
    proof (rule blocks_placedI)
      show "block_placed base l fb" if "f \<in> dom (activations s')" "fibers s' f = Some fb" for f fb
        using that same [OF X(1), of f] X(3) B(4) [of f fb] by auto
    qed (use S B(2) order_trans [OF B(3) X(2)] in blast)+
    then show ?thesis using old [OF X(1)] X(3) image by (auto simp: thread_locals_step_def)
  next
    fix f s1 fb
    assume X: "libuc_fiber_spawn K A len ent arg s = ret (f, s1)" "frame_on (v_mapped V (kern s)) s s1"
      "v_mapped V (kern s) \<subseteq> v_mapped V (kern s1)"
      "activations s1 = (activations s)(f \<mapsto> At_entry)" "spawned_as A len ent arg (v_mapped V (kern s)) (v_mapped V (kern s1)) s1 f fb"
    then have e: "f = g" "s1 = s'" using sp by auto
    note X = X(2-5) [unfolded e]
    have fb: "fibers s' g = Some fb" "g \<noteq> 0" "g \<in> footprint fb" "footprint fb \<inter> v_mapped V (kern s) = {}"
      using X(4) fiber_wf_in_footprint(1) unfolding spawned_as_def by (auto simp: fiber_wf_def)
    have p: "block_placed base l fb" unfolding block_placed_def using S fb B(3) by blast
    have "blocks_placed V base l s'"
    proof (rule blocks_placedI)
      show "block_placed base l hb" if h: "h \<in> dom (activations s')" "fibers s' h = Some hb" for h hb
      proof (cases "h = g")
        case False
        then have "h \<in> dom (activations s)" using h(1) X(3) by auto
        then show ?thesis using same [OF X(1)] B(4) h(2) by simp
      qed (use h(2) fb(1) p in simp)
    qed (use S B(2) order_trans [OF B(3) X(2)] in blast)+
    moreover from image have "thread_locals_step base l s s'"
      unfolding thread_locals_step_def
    proof (intro conjI ballI allI impI)
      fix h i assume h: "h \<in> dom (activations s')" and i: "i < block_size l"
      show "mem s' (tls_of base l s' h + i) = (if h \<in> dom (activations s) then mem s (tls_of base l s h + i)
          else if i < image_size l then mem s (tls_image l + i) else 0)"
      proof (cases "h \<in> dom (activations s)")
        case False
        then have "h = g" using h X(3) by auto
        moreover have "mem s' (tls_block (f_block fb) + i) = (if i < image_size l then mem s (tls_image l + i) else 0)"
          using S fb(1,2) i by blast
        ultimately show ?thesis using False by (simp only: tls_of_placed [OF p fb(1)] if_False)
      qed (use old [OF X(1)] i in simp)
    qed blast
    ultimately show ?thesis by blast
  qed
qed

section \<open>Steps of the reactor\<close>

text \<open>Where the blocks are does not depend on what is in memory.\<close>

lemma blocks_mem [simp]:
  "separate mapped (s\<lparr>mem := m\<rparr>) = separate mapped s" "blocks_placed V base l (s\<lparr>mem := m\<rparr>) = blocks_placed V base l s"
  "tls_of base l (s\<lparr>mem := m\<rparr>) f = tls_of base l s f"
  by (simp_all add: separate_def blocks_placed_def tls_of_def)

lemma blocks_placed_step:
  assumes K: "kernel_ok V K" "fiber_arch A" "tls_access (a_place A) base"
    and s: "separate (v_mapped V) s" "blocks_placed V base l s" and st: "memory_step V K A s s'"
  shows "blocks_placed V base l s' \<and> thread_locals_step base l s s'"
proof -
  have KM: "mmap_ok (v_mapped V) K" "munmap_ok (v_mapped V) K" using K(1) by (simp_all add: kernel_ok_def)
  show ?thesis
    using st
  proof cases
    case keeps
    then show ?thesis using blocks_placed_kept [OF keeps s(2)] thread_locals_kept(1) [OF keeps] thread_locals_refl by blast
  next
    case (makes s1 len ent arg g s2)
    note k = makes(1)
    have "blocks_placed V base l s2 \<and> thread_locals_step base l s1 s2"
      by (rule blocks_placed_spawned [OF KM K(3,2) separate_kept [OF k s(1)] blocks_placed_kept [OF k s(2)] makes(2)])
    then show ?thesis using blocks_placed_kept [OF makes(3)] thread_locals_kept(1) [OF k] thread_locals_kept(2) [OF makes(3)] by blast
  next
    case (reclaims s1 t s2)
    note k = reclaims(1)
    note R = blocks_placed_reclaimed [OF KM(2) separate_kept [OF k s(1)] blocks_placed_kept [OF k s(2)] reclaims(2,3)]
    then show ?thesis
      using blocks_placed_kept [OF reclaims(4)] thread_locals_kept(1) [OF k] thread_locals_kept(2) [OF reclaims(4)] by blast
  qed
qed

section \<open>Startup\<close>

lemma ring_create_memory:
  assumes K: "boot_ok V K" and c: "libuc_ring_create K entries s = (Some r, s')"
  shows "v_mapped V (kern s) \<subseteq> v_mapped V (kern s') \<and> (\<forall>a \<in> v_mapped V (kern s). mem s' a = mem s a)"
proof (rule ring_create_elim [OF c])
  fix d p k1 m2 k2 assume k: "k_setup K entries setup_flags (kern s) = (d, p, k1)"
    "k_mmap K 0 (ring_mapping_length r) prot_rw map_shared_populate (ucast d) IORING_OFF_SQ_RING (mem s) k1 = (ring_mapping r, m2, k2)"
    "\<not> libuc_syscall_failed (ring_mapping r)"
    "k_mmap K 0 (sqes_mapping_length r) prot_rw map_shared_populate (ucast d) IORING_OFF_SQES m2 k2 = (sqes_ptr r, mem s', kern s')"
    "\<not> libuc_syscall_failed (sqes_ptr r)"
  have sh: "mmap_shared_ok V K" and su: "v_mapped V k1 = v_mapped V (kern s)" using K k(1) by (auto simp: boot_ok_def ring_setup_ok_def)
  note M = sh [unfolded mmap_shared_ok_def, rule_format, OF k(2,3)] sh [unfolded mmap_shared_ok_def, rule_format, OF k(4,5)]
  have "mem s' a = mem s a" if "a \<in> v_mapped V (kern s)" for a
  proof -
    have "a \<notin> region (ring_mapping r) (ring_mapping_length r)" "a \<notin> region (sqes_ptr r) (sqes_mapping_length r)"
      using M su that by blast+
    then show ?thesis using M by simp
  qed
  then show ?thesis using M su by blast
qed

lemma boot_blocks_placed:
  assumes K: "boot_ok V K" "fiber_arch A" "tls_access (a_place A) base" and s: "image_ok n sp s" "pristine V s"
    and st: "start_root K A entry arguments sp s = ret (root, s1)" "root \<noteq> 0"
    and l: "process_layout s1 = Some l" "region (tls_image l) (image_size l) \<subseteq> v_mapped V (kern s)"
  shows "blocks_placed V base l s1 \<and> (\<forall>a \<in> region (tls_image l) (image_size l). mem s1 a = mem s a) \<and>
    (\<forall>i < block_size l. mem s1 (tls_of base l s1 root + i) = (if i < image_size l then mem s (tls_image l + i) else 0))"
proof (rule start_root_elim [OF s(2) st])
  fix l' z r s2 s3 assume l': "layout_ok l'" and z: "kern z = kern s" "mem z = mem s"
    and c: "libuc_ring_create K scheduler_ring_entries z = (Some r, s2)" "process_layout s2 = Some l'" "activations s2 = Map.empty"
    and b: "libuc_fiber_spawn K A root_stack_length entry arguments (s2\<lparr>sring := r\<rparr>) = ret (root, s3)" "libuc_scheduler_enqueue root s3 = Done s1"
  let ?s2 = "s2\<lparr>sring := r\<rparr>"
  have KM: "mmap_ok (v_mapped V) K" "munmap_ok (v_mapped V) K" using K(1) by (simp_all add: boot_ok_def kernel_ok_def)
  note k = kept_enqueue [OF b(2), of V K] and R = ring_create_memory [OF K(1) c(1), unfolded z]
  have "process_layout s3 = Some l'"
    using fiber_arch.spawn_cases [OF K(2) KM _ l', of ?s2 root_stack_length entry arguments] b(1) c(2) by (auto simp: frame_on_def)
  then have e: "l' = l" using k l(1) by (simp add: kept_def)
  have p: "blocks_placed V base l ?s2" using l' c(2,3) R l(2) by (auto simp: blocks_placed_def e)
  have "separate (v_mapped V) ?s2" using c(3) by (simp add: separate_def)
  note S = blocks_placed_spawned [OF KM K(3,2) this p b(1)]
  have image: "mem s2 a = mem s a" if "a \<in> region (tls_image l) (image_size l)" for a using that R l(2) by blast
  have "root \<in> dom (activations s1)"
    using start_boots_inv [OF K(1,2) s st] by (auto simp: sched_inv_def dest: fiber_invD(2))
  moreover have T: "thread_locals_step base l ?s2 s1" using S thread_locals_kept(2) [OF k] by blast
  ultimately have "mem s1 (tls_of base l s1 root + i) = (if i < image_size l then mem s2 (tls_image l + i) else 0)" if "i < block_size l" for i
    using that c(3) unfolding thread_locals_step_def by simp
  then show ?thesis
    using S blocks_placed_kept [OF k] T image by (auto simp: thread_locals_step_def region_simps)
qed

end
