(* ===== verification/Uc_Memory_Properties.thy ===== *)
theory Uc_Memory_Properties
  imports Uc_Thread_Variables Uc_Start_Properties
begin

text \<open>
  The memory of a process over its life: its mappings, and the thread-local objects of its fibers.
\<close>

section \<open>The simulated kernel keeps account of its mappings\<close>

definition sim_ranges :: "sim \<Rightarrow> (u64 \<times> u64) set" where
  "sim_ranges k = {q \<in> set (snd (space k)). \<forall>q' \<in> set (snd (space k)). q' = q \<or> apart q q'}"

lemma apart_sym: "apart p q = apart q p"
  by (auto simp: apart_def)

lemma sim_mmap_new:
  assumes "sim_mmap a len prot flags d off m sp = (r, m', sp')" "\<not> libuc_syscall_failed r"
  shows "len \<noteq> 0" "snd sp' = (r, len) # snd sp" "\<forall>q \<in> set (snd sp). apart (r, len) q"
proof -
  have "\<not> libuc_syscall_failed r \<Longrightarrow> r \<noteq> - 12" using sint_of_neg_nat [of 12] by (auto simp: libuc_syscall_failed_def)
  with assms show "len \<noteq> 0" "snd sp' = (r, len) # snd sp" "\<forall>q \<in> set (snd sp). apart (r, len) q"
    by (auto simp: sim_mmap_def Let_def split: if_splits)
qed

lemma sim_mmap_failed: "sim_mmap a len prot flags d off m sp = (r, m', sp') \<Longrightarrow> libuc_syscall_failed r \<Longrightarrow> sp' = sp"
proof -
  assume e: "sim_mmap a len prot flags d off m sp = (r, m', sp')" and f: "libuc_syscall_failed r"
  have "\<not> libuc_syscall_failed (fst sp)" if "unat (fst sp) + unat len + 4096 \<le> 2 ^ 63"
    using that by (intro not_failed_nonneg) simp
  then show "sp' = sp" using e f by (auto simp: sim_mmap_def Let_def split: if_splits)
qed

lemma not_apart_self: "len \<noteq> 0 \<Longrightarrow> \<not> apart (r, len) (r, len)"
  by (auto simp: apart_def unat_eq_0)

lemma sim_mappings_ok: "mappings_ok sim_ranges sim_kernel"
  unfolding mappings_ok_def
proof (intro conjI allI impI)
  fix len prot flags d off m k r m' k'
  assume e: "k_mmap sim_kernel 0 len prot flags d off m k = (r, m', k')"
  obtain m1 sp where sp: "sim_mmap 0 len prot flags d off m (space k) = (r, m1, sp)" "space k' = sp"
    using e by (auto simp: sim_kernel_def sim_ring_mmap_def split: prod.splits)
  show "if libuc_syscall_failed r then sim_ranges k' = sim_ranges k
    else (r, len) \<notin> sim_ranges k \<and> sim_ranges k' = insert (r, len) (sim_ranges k)"
  proof (cases "libuc_syscall_failed r")
    case True
    then show ?thesis using sim_mmap_failed [OF sp(1)] sp(2) by (simp add: sim_ranges_def)
  next
    case False
    note N = sim_mmap_new [OF sp(1) False]
    have "(r, len) \<notin> set (snd (space k))" using N(3) not_apart_self [OF N(1)] by blast
    moreover have "sim_ranges k' = insert (r, len) (sim_ranges k)"
      using N(3) apart_sym by (auto simp: sim_ranges_def sp(2) N(2))
    ultimately show ?thesis using False by (simp add: sim_ranges_def)
  qed
next
  fix start len m k r m' k'
  assume e: "k_munmap sim_kernel start len m k = (r, m', k')" and i: "(start, len) \<in> sim_ranges k"
  let ?S = "set (snd (space k))" and ?x = "(start, len)"
  have r: "r = 0" "set (snd (space k')) = ?S - {?x}"
    using e i by (auto simp: sim_kernel_def sim_ring_munmap_def sim_munmap_def sim_ranges_def split: prod.splits if_splits)
  show "\<not> libuc_syscall_failed r" by (simp add: r(1) libuc_syscall_failed_def)
  have "?x \<in> ?S" "\<forall>q \<in> ?S. q = ?x \<or> apart ?x q" using i by (simp_all add: sim_ranges_def)
  then show "sim_ranges k' = sim_ranges k - {?x}"
    unfolding sim_ranges_def r(2) using apart_sym [THEN iffD1] by blast
qed (auto simp: sim_kernel_def sim_setup_def entering_keeps_def sim_enter_def sim_ranges_def Let_def split: if_splits prod.splits)

section \<open>Mappings\<close>

text \<open>C7. A process leaks no memory. From the moment the reactor starts, at every state it comes to, the kernel's
  mappings are exactly those the process was started with, the two of the ring, and two for each fiber
  that has been started and not yet reclaimed, its stack and its thread-local block, which are apart from all
  others; and the kernel does not refuse to unmap any fiber's memory, whatever the
  program has written, so that reclaiming a fiber never traps.\<close>

theorem process_mappings_exact:
  assumes "boot_ok V K" "fiber_arch A" "here \<noteq> 0" "mappings_ok M K" and "image_ok n sp s" "pristine V s"
    and "start_root K A entry arguments sp s = ret (root, s1)" "root \<noteq> 0"
    and "behaves K A U here s1" "reaches K A U here s1 s'"
  shows "M (kern s') = M (kern s) \<union> ring_ranges (sring s1) \<union> held s' \<and>
    ring_ranges (sring s1) \<inter> M (kern s) = {} \<and> held s' \<inter> (M (kern s) \<union> ring_ranges (sring s1)) = {} \<and>
    card (held s') = 2 * card (dom (activations s')) \<and>
    (\<forall>t \<in> dom (activations s'). \<forall>m. \<not> reclaim_fails K (s'\<lparr>mem := m\<rparr>) t)"
proof -
  have K: "kernel_ok V K" using assms(1) by (simp add: boot_ok_def)
  let ?B = "M (kern s) \<union> ring_ranges (sring s1)"
  have B: "accounted M ?B s1" "ring_ranges (sring s1) \<inter> M (kern s) = {}"
    using boot_accounted [OF assms(1,2,4,6-8)] by simp_all
  have "sched_inv V A {root} {} [root] [] s1" by (rule start_boots_inv [OF assms(1,2,5-8)])
  then have "accounted M ?B s' \<and> (\<exists>F rs ps. sched_inv V A F {} rs ps s')"
    by (rule reaches_memory [OF assms(10) K assms(2,3) _ assms(9), of _ _ _ "accounted M ?B", OF _ B(1)])
      (use accounted_step [OF K assms(2,4)] in auto)
  then obtain F rs ps where s': "accounted M ?B s'" "sched_inv V A F {} rs ps s'" by blast
  have i: "fiber_inv V A F {} s'" using s'(2) by (simp add: sched_inv_def)
  note sep = separate_inv [OF i]
  have "card (held s') = 2 * card (dom (activations s'))" by (rule card_held [OF sep]) (use fiber_invD(1,2) [OF i] in simp)
  moreover have "\<forall>t \<in> dom (activations s'). \<forall>m. \<not> reclaim_fails K (s'\<lparr>mem := m\<rparr>) t" using reclaim_never_fails [OF assms(4) sep s'(1)] by blast
  ultimately show ?thesis using B(2) s'(1) by (auto simp: accounted_def)
qed

theorem process_mappings_exact_witness:
  "\<exists>s1. start_root sim_kernel sim_arch 0x7000 0x900 0x1000 boot_state = ret (boot_root, s1) \<and>
    sim_ranges (kern s1) = ring_ranges (sring s1) \<union> held s1 \<and> card (held s1) = 2"
proof -
  obtain s1 where s1: "start_root sim_kernel sim_arch 0x7000 0x900 0x1000 boot_state = ret (boot_root, s1)" using boot_starts by blast
  have "dom (activations s1) = {boot_root}"
    using boot_turn_ready(1) [OF s1] by (auto simp: turn_ready_def sched_inv_def dest: fiber_invD(2))
  moreover have "sim_ranges (kern boot_state) = {}" by (simp add: sim_ranges_def boot_state_def)
  ultimately show ?thesis
    using process_mappings_exact [OF sim_boot_ok x86_64_fibers.fiber_arch_axioms _ sim_mappings_ok boot_image s1 _ boot_behaves [OF s1] reaches.here] s1
    by auto
qed

section \<open>Thread-local objects\<close>

lemma sim_access: "tls_access (a_place sim_arch) x86_64_tls_base"
  using x86_64_access.tls_access_axioms by (simp add: x86_64_arch_def)

text \<open>The blocks of a started process, at every state its reactor comes to.\<close>

lemma process_blocks:
  assumes B: "boot_ok V K" "fiber_arch A" "here \<noteq> 0" "tls_access (a_place A) base" and s: "image_ok n sp s" "pristine V s"
    and st: "start_root K A entry arguments sp s = ret (root, s1)" "root \<noteq> 0"
    and l: "process_layout s1 = Some l" "region (tls_image l) (image_size l) \<subseteq> v_mapped V (kern s)"
    and U: "behaves K A U here s1" "reaches K A U here s1 s'"
  obtains F rs ps where "sched_inv V A F {} rs ps s'" "separate (v_mapped V) s'" "blocks_placed V base l s'"
proof -
  have K: "kernel_ok V K" using B(1) by (simp add: boot_ok_def)
  have step: "blocks_placed V base l u'" if "sched_inv V A F {} rs ps u" "blocks_placed V base l u" "memory_step V K A u u'" for F rs ps u u'
  proof -
    have "separate (v_mapped V) u" using separate_inv that(1) by (auto simp: sched_inv_def)
    then show ?thesis using blocks_placed_step [OF K B(2,4) _ that(2,3)] by blast
  qed
  have "blocks_placed V base l s' \<and> (\<exists>F rs ps. sched_inv V A F {} rs ps s')"
    by (rule reaches_memory [OF U(2) K B(2,3) start_boots_inv [OF B(1,2) s st] U(1), of "blocks_placed V base l"])
      (use boot_blocks_placed [OF B(1,2,4) s st l] step in auto)
  then show ?thesis using that separate_inv by (fastforce simp: sched_inv_def)
qed

text \<open>What a turn and a wait do to the blocks, and that no two of them share a byte.\<close>

lemma process_thread_locals:
  assumes B: "boot_ok V K" "fiber_arch A" "here \<noteq> 0" "tls_access (a_place A) base" and s: "image_ok n sp s" "pristine V s"
    and st: "start_root K A entry arguments sp s = ret (root, s1)" "root \<noteq> 0"
    and l: "process_layout s1 = Some l" "region (tls_image l) (image_size l) \<subseteq> v_mapped V (kern s)"
    and U: "behaves K A U here s1" "reaches K A U here s1 s'"
  shows "ready_head s' \<noteq> 0 \<Longrightarrow> turn K A U here s' = ret (None, s'') \<Longrightarrow> thread_locals_step base l (s'\<lparr>mem := next_mem U s'\<rparr>) s''"
    "submit_and_wait K s' = ret s2 \<Longrightarrow> reap_loop s2 = ret s'' \<Longrightarrow> thread_locals_step base l s' s''"
    "f \<in> dom (activations s') \<Longrightarrow> g \<in> dom (activations s') \<Longrightarrow> f \<noteq> g \<Longrightarrow>
      region (tls_of base l s' f) (block_size l) \<inter> region (tls_of base l s' g) (block_size l) = {}"
proof -
  have K: "kernel_ok V K" using B(1) by (simp add: boot_ok_def)
  obtain F rs ps where s': "sched_inv V A F {} rs ps s'" "separate (v_mapped V) s'" "blocks_placed V base l s'"
    by (rule process_blocks [OF B s st l U])
  note S = blocks_placed_step [OF K B(2,4)]
  show "thread_locals_step base l s' s''" if "submit_and_wait K s' = ret s2" "reap_loop s2 = ret s''"
    using S [OF s'(2,3)] waited_memory [OF K s'(1) that] by blast
  have w: "separate (v_mapped V) (s'\<lparr>mem := next_mem U s'\<rparr>)" "blocks_placed V base l (s'\<lparr>mem := next_mem U s'\<rparr>)"
    using s'(2,3) by simp_all
  show "thread_locals_step base l (s'\<lparr>mem := next_mem U s'\<rparr>) s''" if "ready_head s' \<noteq> 0" "turn K A U here s' = ret (None, s'')"
    using S [OF w] turned_memory [OF K B(2,3) s'(1) behaves_reaches [OF U] that] by blast
  show "region (tls_of base l s' f) (block_size l) \<inter> region (tls_of base l s' g) (block_size l) = {}"
    if f: "f \<in> dom (activations s')" and g: "g \<in> dom (activations s')" and n: "f \<noteq> g"
  proof -
    obtain fb gb where fb: "fibers s' f = Some fb" "fibers s' g = Some gb"
      using separate_record [OF s'(2) f] separate_record [OF s'(2) g] by metis
    note P = blocks_placedD(4) [OF s'(3)]
    show ?thesis
      using block_in_footprint [OF P [OF f fb(1)] fb(1)] block_in_footprint [OF P [OF g fb(2)] fb(2)]
        separate_apart [OF s'(2) f g n fb] by blast
  qed
qed


text \<open>
  On the simulated kernel, a process whose first fiber runs its code once, to its end. Before it
  returns, the code writes to memory as \<open>h\<close> says, which is given its thread pointer.
\<close>

definition boot_writes :: "(u64 \<Rightarrow> mem \<Rightarrow> mem) \<Rightarrow> (sim, x86_context, x86_state, unit) prog" where
  "boot_writes h f e c res w m k = (boot_prog f e c res w m k)\<lparr>m_mem := h (f + 0xA8) m\<rparr>"

lemma boot_exits:
  assumes "start_root sim_kernel sim_arch 0x7000 0x900 0x1000 boot_state = ret (boot_root, s1)"
  shows "behaves sim_kernel sim_arch (boot_writes h) 0x8000 s1"
    "\<exists>s2. turn sim_kernel sim_arch (boot_writes h) 0x8000 s1 = ret (None, s2) \<and> dom (activations s2) = {boot_root}"
    "next_mem (boot_writes h) s1 = h 0x812008 (mem s1)" "ready_head s1 = boot_root" "dom (activations s1) = {boot_root}"
proof -
  let ?U = "boot_writes h"
  have inv: "sched_inv sim_view sim_arch {boot_root} {} [boot_root] [] s1" and pc: "parked_count s1 = 0"
    using boot_turn_ready [OF assms] by (simp_all add: turn_ready_def)
  obtain fb where fb: "fibers s1 boot_root = Some fb" "ready_head s1 = boot_root" "f_stack fb = 0x12000" "f_stack_length fb = 0x800000"
    "thread_pointer (f_block fb) = 0x812008" "f_life fb = FIBER_LIVE" "f_joiner fb = 0"
    using boot_starts assms by auto
  then show "ready_head s1 = boot_root" "next_mem ?U s1 = h 0x812008 (mem s1)"
    by (simp_all add: next_mem_def next_move_def boot_writes_def)
  have wb: "well_behaved sim_arch ?U s1"
    by (simp add: well_behaved_def fb next_move_def boot_writes_def boot_prog_def Let_def move_ok_def
        stack_range_def in_region_nat x86_64_arch_def x86_save_def sim_regs_def target_of_def)
  have ready: "turn_ready sim_view sim_kernel sim_arch ?U 0x8000 {boot_root} boot_root [] [] s1"
    using inv wb sim_kernel_ok x86_64_fibers.fiber_arch_axioms by (simp add: turn_ready_def)
  have st: "exit_status (next_call ?U s1) = Some 3" by (simp add: next_call_def next_move_def boot_writes_def boot_prog_def)
  obtain gb s2 q u where t: "turn sim_kernel sim_arch ?U 0x8000 s1 = rbind (Some (handle_exit sim_kernel boot_root s2)) (\<lambda>s'. ret (None, s'))"
    and ask: "asking sim_view sim_arch {boot_root} [] [] s2 boot_root gb q \<lparr>r_kind = REQUEST_EXIT, r_ask = u, r_result = 0, r_fiber = boot_root\<rparr>"
    and gb: "f_life gb = (if life_of s1 boot_root = FIBER_LIVE then FIBER_EXITED else life_of s1 boot_root)" "f_joiner gb = joiner_of s1 boot_root"
    using exit_asks [OF ready st] by metis
  note D = askingD [OF ask]
  have t: "turn sim_kernel sim_arch ?U 0x8000 s1 = ret (None, s2)"
    using gb D(3) fb by (simp add: t handle_exit_def life_of_def joiner_of_def)
  have s2: "ready_head s2 = 0" "parked_count s2 = 0" "dom (activations s2) = {boot_root}"
    using D(10,12) fiber_invD(2) [OF D(11)] by (auto simp: ready_queue_def ring_inv_def)
  have reach: "s' = s1 \<or> s' = s2" if "reaches sim_kernel sim_arch ?U 0x8000 s1 s'" for s'
    using that t s2 pc by (induction rule: reaches.induct) auto
  show d1: "dom (activations s1) = {boot_root}" using inv by (auto simp: sched_inv_def dest: fiber_invD(2))
  show "behaves sim_kernel sim_arch ?U 0x8000 s1" unfolding behaves_def using reach d1 s2 wb by fastforce
  show "\<exists>s2. turn sim_kernel sim_arch ?U 0x8000 s1 = ret (None, s2) \<and> dom (activations s2) = {boot_root}" using t s2(3) by blast
qed


section \<open>errno\<close>

lemma errno_result_tls:
  assumes "errno_result_object base off l res (thread_local_install t s) = (res', s')"
  shows "tls_of base l s' f = tls_of base l s f"
  using assms by (auto simp: errno_result_object_def errno_store_def thread_local_install_def tls_of_def split: if_splits)

lemma errno_result_isolated:
  assumes s: "separate mapped s" "blocks_placed V base l s" and e: "errno_placed off l"
    and f: "f \<in> dom (activations s)" "fibers s f = Some fb"
    and r: "errno_result_object base off l res (thread_local_install (thread_pointer (f_block fb)) s) = (res', s')"
  shows "(res', errno_of base off l s' f) = libuc_errno_result res (errno_of base off l s f)"
    "g \<in> dom (activations s) \<Longrightarrow> g \<noteq> f \<Longrightarrow> errno_of base off l s' g = errno_of base off l s g"
    "a \<notin> region (tls_of base l s f + off) 4 \<Longrightarrow> mem s' a = mem s a"
proof -
  let ?a = "tls_of base l s f + off"
  have addr: "errno_address base off l (thread_pointer (f_block fb)) = ?a" by (simp add: errno_address_def tls_of_def f(2))
  have m: "mem s' = (if sint res < 0 then store32 (mem s) ?a (ucast (- res)) else mem s)"
    using r by (auto simp: errno_result_object_def errno_store_def thread_local_install_def thread_local_read_def addr split: if_splits)
  note tls = errno_result_tls [OF r]
  show out: "mem s' a = mem s a" if "a \<notin> region ?a 4" for a using that by (simp add: m store32_outside)
  show "(res', errno_of base off l s' f) = libuc_errno_result res (errno_of base off l s f)"
    using r by (auto simp: errno_result_object_def libuc_errno_result_def errno_of_tls tls m load32_store32 split: if_splits)
  show "errno_of base off l s' g = errno_of base off l s g" if g: "g \<in> dom (activations s)" "g \<noteq> f"
  proof -
    obtain gb where gb: "fibers s g = Some gb" using separate_record [OF s(1) g(1)] .
    note B = blocks_placedD(4) [OF s(2)]
    have "mem s' (tls_of base l s g + off + of_nat i) = mem s (tls_of base l s g + off + of_nat i)" if "i < 4" for i
    proof (rule out)
      have "tls_of base l s g + (off + of_nat i) \<in> footprint gb"
        by (rule in_block_footprint [OF B [OF g(1) gb] gb errno_bytes(1) [OF e that]])
      moreover have "region ?a 4 \<subseteq> footprint fb"
        by (rule order_trans [OF errno_region [OF e] block_in_footprint [OF B [OF f] f(2)]])
      moreover have "footprint gb \<inter> footprint fb = {}" by (rule separate_apart [OF s(1) g(1) f(1) g(2) gb f(2)])
      ultimately have "tls_of base l s g + (off + of_nat i) \<notin> region ?a 4" by blast
      then show "tls_of base l s g + off + of_nat i \<notin> region ?a 4" by (simp add: add.assoc)
    qed
    then have "load32 (mem s') (tls_of base l s g + off) = load32 (mem s) (tls_of base l s g + off)" by (rule load32_cong)
    then show ?thesis by (simp only: errno_of_tls tls)
  qed
qed

text \<open>C9. \<open>errno\<close> is per fiber. It is zero in the root fiber when the process starts, and in a fiber that a turn makes.
  A wait for completions changes no fiber's. In a turn whose code, run with the thread pointer resuming installs for
  it, turns a kernel result into the C convention, the code gets what \<open>__libuc_errno_result\<close> says of the running fiber's
  \<open>errno\<close> and writes no byte outside that object in doing so; when the turn is over that fiber has
  the \<open>errno\<close> the function gave it, and every other fiber the one it had. Whatever else the code writes is free, as long
  as it is not to an \<open>errno\<close>.\<close>

theorem errno_per_fiber:
  assumes "boot_ok V K" "fiber_arch A" "here \<noteq> 0" "tls_access (a_place A) base" and "image_ok n sp s" "pristine V s"
    and "start_root K A entry arguments sp s = ret (root, s1)" "root \<noteq> 0"
    and "process_layout s1 = Some l" "region (tls_image l) (image_size l) \<subseteq> v_mapped V (kern s)" "errno_placed off l"
    and "behaves K A U here s1" "reaches K A U here s1 s'"
  shows "errno_of base off l s1 root = 0 \<and>
    (\<forall>s2 s''. submit_and_wait K s' = ret s2 \<longrightarrow> reap_loop s2 = ret s'' \<longrightarrow>
       (\<forall>g \<in> dom (activations s'') \<inter> dom (activations s'). errno_of base off l s'' g = errno_of base off l s' g)) \<and>
    (\<forall>f fb res res' u s''. f \<in> dom (activations s') \<longrightarrow> fibers s' f = Some fb \<longrightarrow>
       errno_result_object base off l res (thread_local_install (thread_pointer (f_block fb)) s') = (res', u) \<longrightarrow>
       res' = fst (libuc_errno_result res (errno_of base off l s' f)) \<and>
       (\<forall>a. a \<notin> region (tls_of base l s' f + off) 4 \<longrightarrow> mem u a = mem s' a) \<and>
       (ready_head s' = f \<longrightarrow>
        (\<forall>g \<in> dom (activations s'). \<forall>a \<in> region (tls_of base l s' g + off) 4. next_mem U s' a = mem u a) \<longrightarrow>
        turn K A U here s' = ret (None, s'') \<longrightarrow>
        (\<forall>g \<in> dom (activations s''). errno_of base off l s'' g =
           (if g = f then snd (libuc_errno_result res (errno_of base off l s' f))
            else if g \<in> dom (activations s') then errno_of base off l s' g else 0))))"
proof -
  note pre = assms(1-10,12,13)
  note T = process_thread_locals [OF pre]
  obtain F rs ps where s': "sched_inv V A F {} rs ps s'" "separate (v_mapped V) s'" "blocks_placed V base l s'"
    by (rule process_blocks [OF pre])
  note I = errno_result_isolated [OF s'(2,3) assms(11)]
  have "errno_of base off l s1 root = 0"
    using boot_blocks_placed [OF assms(1,2,4-10)] errno_bytes [OF assms(11)] by (simp add: errno_of_tls load32_zero add.assoc)
  moreover have "errno_of base off l s'' g = errno_of base off l s' g"
    if "submit_and_wait K s' = ret s2" "reap_loop s2 = ret s''" "g \<in> dom (activations s'') \<inter> dom (activations s')" for s2 s'' g
    using thread_locals_errno [OF T(2) [OF that(1,2)] assms(11)] that(3) by simp
  moreover have "errno_of base off l s'' g = (if g = f then snd (libuc_errno_result res (errno_of base off l s' f))
      else if g \<in> dom (activations s') then errno_of base off l s' g else 0)"
    if f: "f \<in> dom (activations s')" "fibers s' f = Some fb" "ready_head s' = f"
      and r: "errno_result_object base off l res (thread_local_install (thread_pointer (f_block fb)) s') = (res', u)"
      and w: "\<forall>g \<in> dom (activations s'). \<forall>a \<in> region (tls_of base l s' g + off) 4. next_mem U s' a = mem u a"
      and t: "turn K A U here s' = ret (None, s'')" "g \<in> dom (activations s'')" for f fb res res' u s'' g
  proof -
    have "0 \<notin> dom (activations s')" using separateD [OF s'(2)] by blast
    then have "ready_head s' \<noteq> 0" using f by auto
    from thread_locals_errno [OF T(1) [OF this t(1)] assms(11) t(2)]
    have e: "errno_of base off l s'' g = (if g \<in> dom (activations s') then errno_of base off l (s'\<lparr>mem := next_mem U s'\<rparr>) g else 0)"
      by simp
    have "errno_of base off l (s'\<lparr>mem := next_mem U s'\<rparr>) g = errno_of base off l u g" if g: "g \<in> dom (activations s')"
    proof -
      have tls: "tls_of base l u g = tls_of base l s' g" using errno_result_tls [OF r] by simp
      have "next_mem U s' (tls_of base l s' g + off + of_nat i) = mem u (tls_of base l s' g + off + of_nat i)" if "i < 4" for i
        using w g that by (auto simp: region_simps word_less_nat_alt unat_of_nat)
      then have "load32 (next_mem U s') (tls_of base l s' g + off) = load32 (mem u) (tls_of base l s' g + off)" by (rule load32_cong)
      then show ?thesis by (simp add: errno_of_tls tls)
    qed
    moreover have "errno_of base off l u f = snd (libuc_errno_result res (errno_of base off l s' f))"
      using I(1) [OF f(1,2) r] by (metis snd_conv)
    ultimately show ?thesis using e I(2) [OF f(1,2) r] f(1) by (cases "g = f") simp_all
  qed
  moreover have "res' = fst (libuc_errno_result res (errno_of base off l s' f))" "a \<notin> region (tls_of base l s' f + off) 4 \<Longrightarrow> mem u a = mem s' a"
    if f: "f \<in> dom (activations s')" "fibers s' f = Some fb"
      and r: "errno_result_object base off l res (thread_local_install (thread_pointer (f_block fb)) s') = (res', u)" for f fb res res' u a
    using I(1) [OF f r] I(3) [OF f r] by (metis fst_conv, blast)
  ultimately show ?thesis by (intro conjI allI impI ballI)
qed

theorem errno_per_fiber_witness:
  "\<exists>s1 s2. start_root sim_kernel sim_arch 0x7000 0x900 0x1000 boot_state = ret (boot_root, s1) \<and>
    turn sim_kernel sim_arch (boot_writes (\<lambda>t m. store32 m (t - 4) 22)) 0x8000 s1 = ret (None, s2) \<and>
    errno_of x86_64_tls_base 0 boot_tls s1 boot_root = 0 \<and> errno_of x86_64_tls_base 0 boot_tls s2 boot_root = EINVAL"
proof -
  let ?h = "\<lambda>t m. store32 m (t - 4) 22"
  obtain s1 fb where s1: "start_root sim_kernel sim_arch 0x7000 0x900 0x1000 boot_state = ret (boot_root, s1)" "fibers s1 boot_root = Some fb"
    "process_layout s1 = Some boot_tls" "thread_pointer (f_block fb) = 0x812008" using boot_starts by blast
  note b = boot_exits(1-3) [OF s1(1), of ?h] boot_exits(4,5) [OF s1(1)]
  obtain s2 where t: "turn sim_kernel sim_arch (boot_writes ?h) 0x8000 s1 = ret (None, s2)" "dom (activations s2) = {boot_root}" using b(2) by blast
  let ?t = "thread_local_install (thread_pointer (f_block fb)) s1"
  have r: "errno_result_object x86_64_tls_base 0 boot_tls (- 22) ?t = (- 1, ?t\<lparr>mem := store32 (mem s1) 0x812004 22\<rparr>)"
    by (simp add: errno_result_object_def errno_store_def errno_address_def thread_local_install_def thread_local_read_def s1(4) x86_64_tls_base_def align_down_def)
  have e: "errno_placed 0 boot_tls" by (simp add: errno_placed_def)
  have "snd (libuc_errno_result (- 22) x) = EINVAL" for x using errno_result_error [of 22 x] by (simp add: EINVAL_def)
  then show ?thesis
    using errno_per_fiber [OF sim_boot_ok x86_64_fibers.fiber_arch_axioms _ sim_access boot_image s1(1) _ s1(3) _ e b(1) reaches.here]
      r s1(1,2) b(3-5) t
    by (auto simp: region_def)
qed

end
