(* ===== verification/Spec2Isabelle.thy ===== *)
theory Spec2Isabelle
  imports Uc_String Uc_Errno Uc_Io_Properties Uc_Start_Properties Uc_Fiber_Properties Uc_Op_Scheduler
    Uc_Progress Uc_Thread_Properties Uc_Ubsan Uc_Memory_Properties
begin

text \<open>
  A verification development of libuc, a C library for Linux whose C11 threads are fibers, switched
  in user space, over a single io_uring. The sources are under \<open>src/src\<close> and \<open>src/include\<close>.

  \<^bold>\<open>The program.\<close> The kernel enters \<open>_start\<close>, which calls \<open>__libuc_start\<close>: it decodes the initial
  stack, finds the thread-local image, sets up a ring, makes the root fiber that will run \<open>main\<close>, and
  runs the reactor on the startup stack. The reactor (\<open>scheduler/scheduler.c\<close>) resumes the ready fibers
  of a generation one after the other. A resumed fiber runs until its next library call, which is a
  request on its own stack carried to the reactor by the context switch: to yield, to await a
  submission entry, to start, join or detach a fiber, to exit, or to end the process. The reactor
  answers in the request, submits what was awaited, and wakes fibers by the completions it reaps.
  The C11 threads, \<open>read\<close>, \<open>write\<close> and the socket functions are thin code over these requests. A
  second scheduler (\<open>uc/scheduler\<close>), of operations that may complete more than once, is being built
  over a ring of its own.

  \<^bold>\<open>Theories\<close>, each with the definitions of one component in the order of the code:

  \<^item> \<open>Uc_Prelude\<close>: machine integers as words, byte memory, checked arithmetic, and the outcomes of C
    code. A computation is \<open>Done\<close>, \<open>Trap\<close> (\<open>__builtin_trap\<close>) or \<open>Fault\<close> (an access to an object
    that is not there); a computation that may not return is an option of that (\<open>run\<close>), and its
    loops are partial functions, so that not returning is \<open>None\<close>.
  \<^item> \<open>Uc_String\<close>: \<open>string/*.c\<close>. \<open>Uc_Syscall\<close>: \<open>syscall.h\<close> and both \<open>syscall_arch.h\<close>. \<open>Uc_Errno\<close>:
    \<open>errno/result.h\<close>. \<open>Uc_Auxv\<close>: \<open>sys/auxv\<close>. \<open>Uc_Thread_Local\<close>: \<open>thread_local\<close> and both
    \<open>thread_local_arch.h\<close>, over the locale \<open>tls_abi\<close> of what a placement promises and its extension
    \<open>tls_access\<close> by the address at which compiled code looks for the block, interpreted for both variants.
  \<^item> \<open>Uc_Context\<close>: both \<open>fiber_arch.h\<close>, the switch as an instruction sequence.
  \<^item> \<open>Uc_Ring\<close>, \<open>Uc_Ring_Properties\<close>: \<open>ring/ring.c\<close> and \<open>uc/scheduler/ring.c\<close>. The locale
    \<open>ring_submit\<close> is a submission loop with some way to drop a submitted prefix; it is interpreted
    for both rings, and the clients of a ring rest on its \<open>slot_claimed\<close>.
  \<^item> \<open>Uc_Fiber\<close>, \<open>Uc_Fiber_Properties\<close>: \<open>fiber/fiber.c\<close>, over the locale \<open>fiber_arch\<close> of what a
    context and a placement promise, interpreted for both architectures.
  \<^item> \<open>Uc_Scheduler\<close>: \<open>scheduler/scheduler.c\<close>; its ready queue interprets the locale of a queue.
    \<open>Uc_Scheduler_Inv\<close>: the invariant \<open>sched_inv\<close> and what keeps it. \<open>Uc_Scheduler_Steps\<close>: each
    request handler. \<open>Uc_Reactor\<close>: turns and generations. \<open>Uc_Run\<close>: the iterations of the loop,
    what a run has done and that it returns. \<open>Uc_Reactor_Properties\<close>, \<open>Uc_Progress\<close>: the properties
    of the reactor.
  \<^item> \<open>Uc_Thread_Machine\<close>: the abstract specification of the scheduler, a step relation on threads that
    are ready, parked, joining or exited, with no memory, ring or links. \<open>Uc_Thread_Abstraction\<close>: the
    abstract state of a system (\<open>threads_of\<close>). \<open>Uc_Thread_Refinement\<close>: every turn is a step, or traps
    for a reason the machine or the kernel gives. \<open>Uc_Thread_Executions\<close>: completions and runs.
    \<open>Uc_Thread_Properties\<close>: what follows for turns, processes and deadlocks.
  \<^item> \<open>Uc_Threads\<close>, \<open>Uc_Io\<close>, \<open>Uc_Io_Properties\<close>: \<open>threads/thrd.c\<close>, \<open>unistd\<close> and \<open>sys/socket\<close>, as code
    that suspends in a request and goes on with its answer.
  \<^item> \<open>Uc_Start\<close>, \<open>Uc_Start_Properties\<close>: \<open>start.c\<close> and both architectures' entries.
  \<^item> \<open>Uc_Memory\<close>: the reactor's steps by what they do to memory: keep it, make a fiber or reclaim one.
    \<open>Uc_Mappings\<close>: the kernel's account of mappings against what the fibers hold.
    \<open>Uc_Thread_Variables\<close>: where fibers find their thread-local objects, and \<open>errno\<close> as one of them
    (\<open>errno/errno.c\<close>). \<open>Uc_Memory_Properties\<close>: what follows for a process.
  \<^item> \<open>Uc_Op_Scheduler\<close>: \<open>uc/scheduler/scheduler.c\<close>. \<open>Uc_Ubsan\<close>: \<open>ubsan.c\<close>.
  \<^item> \<open>Uc_Sim_Kernel\<close>, \<open>Uc_Sim_Ring\<close>, \<open>Uc_Sim_System\<close>: a small kernel and a system of two fibers on it,
    which meet every contract the properties assume; the witnesses run on them.

  \<^bold>\<open>State.\<close> A machine has byte memory, the thread control blocks at their addresses, the thread
  register, and the kernel's state. The fiber machine adds the fiber records, the requests and the
  suspended activations, by address; the system adds the scheduler. Records are found through the
  pointers the code follows, a range that is unmapped takes the records in it away, and following a
  pointer to a record that is gone is \<open>Fault\<close>. The memory of a ring is a typed part of it; that
  moving entries in it agrees with \<open>memmove\<close> on the bytes is proved.

  \<^bold>\<open>Parameters and contracts.\<close> The kernel is a record of functions, and its documented behaviour are
  predicates on them: \<open>mmap_ok\<close>, \<open>munmap_ok\<close>, \<open>mappings_ok\<close> (a mapping is there from the \<open>mmap\<close> that
  makes it to the \<open>munmap\<close> of exactly its range, which is not refused), \<open>mmap_shared_ok\<close>, \<open>ring_setup_ok\<close>, \<open>enter_ok\<close> (what
  \<open>io_uring_enter\<close> accepts, completes and posts, and that it is not interrupted for ever) and
  \<open>enter_waits\<close> (asked to wait for completions that are outstanding, it posts as many before it
  returns). A view maps the kernel's state to what the contracts speak of: the mapped addresses, the
  entries accepted, the operations in flight and the completions it may post. An operation may post
  any number of completions flagged \<open>IORING_CQE_F_MORE\<close> before its last (\<open>posts\<close>); the reactor, which
  traps on flagged completions, assumes with \<open>single_shot\<close> that its entries post none. Whole bytes are mapped and
  unmapped; that the kernel rounds a length up to pages is left out of the contracts.
  The program's code is a function (\<open>prog\<close>): from the fiber it runs in, the entry and argument that fiber was made with, what
  it is resumed with and the state of memory, it gives its next library call and the memory it leaves, with
  whatever it wrote to \<open>errno\<close>, to its other thread-local objects or anywhere else (\<open>next_mem\<close>).
  \<open>well_behaved\<close> says it calls from its own stack, with its own thread pointer where the call asks for the
  current fiber, and names only fibers that are there, and \<open>behaves\<close> that it does so in every state the reactor reaches.
  The linker's offset of \<open>errno\<close> in the thread-local image and the ABI's rule that leads from the thread
  pointer to the block are parameters too, the rule under the law of \<open>tls_access\<close>.
  \<open>uc_fiber_resume\<close> is declared in \<open>uc/fiber.h\<close> and defined nowhere: it is a parameter without a contract, and what is
  shown of the operation scheduler speaks of the state that code leaves.

  \<^bold>\<open>What is shown.\<close> The reactor: every turn restores \<open>sched_inv\<close> and never faults; at every state it
  comes to, every live fiber is in exactly one place; a generation is exactly one turn for each fiber ready at its start,
  in order (\<open>turns\<close>); what
  every request does, misuse included; that a run that ends was told to stop, by a process-exit request with the status it
  returns (\<open>stops_at\<close>), or has nothing left to run; that a run returns when the program makes finitely many calls. Its specification: a turn is a
  step of the thread machine, a process that ends is an execution of it from one thread, event by event the calls
  and completions of the run (\<open>trace\<close>), and the
  deadlock trap is taken exactly for cycles of joins. Fibers: spawning, resuming, destroying, and that an exited fiber cannot be resumed. Rings: the
  submission loop returns and submits each entry once in order, the completion queue is a queue, a
  created ring is well-formed. Startup: it fails with 127 or boots into a state of the invariant, and the return of the fiber that runs \<open>root_entry\<close>, and of no
  other, is a process exit.
  Memory: at every state a process comes to, the kernel's mappings are those it started with, the ring's
  and two for each fiber not yet reclaimed; a fiber's thread-local objects start as the executable
  has them, in memory no other fiber's share, and only the code that runs changes them; \<open>errno\<close> is one of them, and
  a turn that ends in an error changes the running fiber's alone.
  Threads and I/O: what \<open>thrd_join\<close>, \<open>read\<close> and the others return. The operation scheduler: an
  operation is submitted once and is in flight exactly while the ring or the kernel holds it, however
  many completions it posts. Below
  them: the context switch, the thread-local layout, the string functions, the system call
  convention, the auxiliary vector.

  \<^bold>\<open>Termination and fuel.\<close> Loops bounded by a counter are functions with termination proofs. The
  submission loop, the auxiliary vector, the environment scan, the reap loop and the reactor are
  partial functions; that the first four return is proved under the kernel's contracts or for
  terminated vectors. The reactor runs as long as the program does: its safety properties speak of
  the turns it makes and of what holds when it returns, and that it returns is proved for programs
  with a measure that every call lowers (\<open>winds_down\<close>), by a lexicographic descent on that measure and
  on the number of parked fibers. No fuel is used.

  \<^bold>\<open>Not modelled.\<close> The headers declare. The initialisers, their loop in \<open>root_entry\<close> and
  \<open>main\<close> are the program's code; what \<open>root_entry\<close> does with the value \<open>main\<close> returns is modelled. Requests, records and control blocks are typed objects and not bytes, so a program that
  overwrites them through memory is outside the model; so are signals and other Linux tasks sharing the
  memory, of which the library makes none. A ring that cannot be set up keeps its descriptor, which
  no code of the library closes, and the descriptor table is not part of the kernel's view. That the
  program's own computation between two calls ends is the program's concern.
\<close>

end
